(* ===== verification/FF_Prelude.thy ===== *)
theory FF_Prelude
  imports Main "HOL-Library.Word" "HOL-Library.Multiset" "HOL-Library.Signed_Division"
begin

text \<open>
  Shared vocabulary of the development: the faults a C++ operation of the library can end in,
  the result type that carries them, checked 64-bit signed arithmetic, and generic lemmas on
  results, lists, words and ordered association lists.

  A value of type \<open>'a res\<close> is \<open>Inl f\<close> when the modelled code reaches undefined behaviour, an
  uncaught exception or a failed \<open>FF_CHECK\<close> (which aborts the process), and \<open>Inr x\<close> when it
  returns \<open>x\<close>.
\<close>

named_theorems res_simps \<open>unfolding of the result monad\<close>
named_theorems time_simps \<open>unfolding of the time types\<close>

section \<open>Faults and results\<close>

datatype fault =
    SignedOverflow    \<comment> \<open>signed arithmetic outside its type: undefined behaviour\<close>
  | DivisionByZero
  | CheckFailed       \<comment> \<open>\<open>FF_CHECK\<close> / \<open>FF_DCHECK\<close> failed: \<open>abort\<close>\<close>
  | OutOfRange        \<comment> \<open>\<open>std::out_of_range\<close> thrown by \<open>map::at\<close>\<close>
  | NullDeref
  | BadFunctionCall   \<comment> \<open>calling an empty \<open>std::function\<close> throws\<close>
  | OutOfBounds       \<comment> \<open>access outside an allocated block\<close>

type_synonym 'a res = "fault + 'a"

fun res_bind :: "'a res \<Rightarrow> ('a \<Rightarrow> 'b res) \<Rightarrow> 'b res" where
  "res_bind (Inl f) k = Inl f"
| "res_bind (Inr x) k = k x"

lemma res_bind_Inr_iff [res_simps]:
  "res_bind m k = Inr y \<longleftrightarrow> (\<exists>x. m = Inr x \<and> k x = Inr y)"
  by (cases m) auto

lemma res_bind_Inl_iff [res_simps]:
  "res_bind m k = Inl f \<longleftrightarrow> m = Inl f \<or> (\<exists>x. m = Inr x \<and> k x = Inl f)"
  by (cases m) auto

lemma res_bind_assoc: "res_bind (res_bind m k) l = res_bind m (\<lambda>x. res_bind (k x) l)"
  by (cases m) auto

lemma res_bind_cong [fundef_cong]:
  "m = m' \<Longrightarrow> (\<And>x. m' = Inr x \<Longrightarrow> k x = k' x) \<Longrightarrow> res_bind m k = res_bind m' k'"
  by (cases m') auto

lemma res_bindE [elim]:
  assumes "res_bind m k = Inr y"
  obtains x where "m = Inr x" "k x = Inr y"
  using assms by (auto simp: res_simps)

text \<open>\<open>FF_CHECK(condition)\<close>: a failed check streams a fatal message, whose destructor aborts.\<close>

definition ff_check :: "bool \<Rightarrow> unit res" where
  "ff_check b = (if b then Inr () else Inl CheckFailed)"

lemma ff_check_simps [simp]:
  "ff_check True = Inr ()" "ff_check False = Inl CheckFailed"
  "ff_check b = Inr u \<longleftrightarrow> b" "ff_check b = Inl f \<longleftrightarrow> \<not> b \<and> f = CheckFailed"
  by (auto simp: ff_check_def)

text \<open>\<open>std::map::at\<close> throws; \<open>std::map::operator[]\<close> on a map of \<open>unique_ptr\<close> inserts a null
  pointer for a missing key, which the code then dereferences.\<close>

definition map_at :: "('k \<rightharpoonup> 'v) \<Rightarrow> 'k \<Rightarrow> 'v res" where
  "map_at m k = (case m k of None \<Rightarrow> Inl OutOfRange | Some v \<Rightarrow> Inr v)"

definition map_deref :: "('k \<rightharpoonup> 'v) \<Rightarrow> 'k \<Rightarrow> 'v res" where
  "map_deref m k = (case m k of None \<Rightarrow> Inl NullDeref | Some v \<Rightarrow> Inr v)"

lemma map_at_simps [simp]:
  "m k = Some v \<Longrightarrow> map_at m k = Inr v"
  "m k = None \<Longrightarrow> map_at m k = Inl OutOfRange"
  "map_at m k = Inr v \<longleftrightarrow> m k = Some v"
  "map_at m k = Inl f \<longleftrightarrow> m k = None \<and> f = OutOfRange"
  by (auto simp: map_at_def split: option.splits)

lemma map_deref_simps [simp]:
  "m k = Some v \<Longrightarrow> map_deref m k = Inr v"
  "m k = None \<Longrightarrow> map_deref m k = Inl NullDeref"
  "map_deref m k = Inr v \<longleftrightarrow> m k = Some v"
  "map_deref m k = Inl f \<longleftrightarrow> m k = None \<and> f = NullDeref"
  by (auto simp: map_deref_def split: option.splits)

section \<open>Checked \<open>int64_t\<close> arithmetic\<close>

definition int64_min :: int where "int64_min = - (2 ^ 63)"
definition int64_max :: int where "int64_max = 2 ^ 63 - 1"

definition in_int64 :: "int \<Rightarrow> bool" where
  "in_int64 x \<longleftrightarrow> int64_min \<le> x \<and> x \<le> int64_max"

lemmas int64_bounds = in_int64_def int64_min_def int64_max_def

definition int64 :: "int \<Rightarrow> int res" where
  "int64 x = (if in_int64 x then Inr x else Inl SignedOverflow)"

lemma int64_Inr_iff [simp]: "int64 x = Inr y \<longleftrightarrow> y = x \<and> in_int64 x"
  by (auto simp: int64_def)

lemma int64_Inl_iff [simp]: "int64 x = Inl f \<longleftrightarrow> f = SignedOverflow \<and> \<not> in_int64 x"
  by (auto simp: int64_def)

lemma int64_in [simp]: "in_int64 x \<Longrightarrow> int64 x = Inr x"
  by (simp add: int64_def)

text \<open>C++ division and remainder truncate towards zero; dividing by zero and \<open>INT64_MIN / -1\<close>
  are undefined.\<close>

definition int64_div :: "int \<Rightarrow> int \<Rightarrow> int res" where
  "int64_div a b = (if b = 0 then Inl DivisionByZero else int64 (a sdiv b))"

definition int64_mod :: "int \<Rightarrow> int \<Rightarrow> int res" where
  "int64_mod a b =
     (if b = 0 then Inl DivisionByZero
      else res_bind (int64 (a sdiv b)) (\<lambda>_. Inr (a smod b)))"

lemma sdiv_pos_eq: "0 < b \<Longrightarrow> (a::int) sdiv b = (if 0 \<le> a then a div b else - ((- a) div b))"
  by (auto simp: signed_divide_int_def sgn_if)

lemma sdiv_abs_le: "\<bar>(a::int) sdiv b\<bar> \<le> \<bar>a\<bar>"
proof -
  have "\<bar>a\<bar> div \<bar>b\<bar> \<le> \<bar>a\<bar>"
    by (metis abs_ge_zero div_by_0 div_by_1 int_one_le_iff_zero_less linorder_not_le nle_le
        zdiv_mono2 zero_less_abs_iff)
  moreover have "\<bar>sgn a * sgn b\<bar> \<le> 1"
    by (simp add: sgn_if)
  ultimately show ?thesis
    by (auto simp: signed_divide_int_def abs_mult sgn_if pos_imp_zdiv_nonneg_iff)
qed

lemma sdiv_sdiv_pos:
  assumes "0 < b" "0 < c"
  shows "((a::int) sdiv b) sdiv c = a sdiv (b * c)"
proof (cases "0 \<le> a")
  case True
  then show ?thesis using assms
    by (simp add: sdiv_pos_eq zdiv_zmult2_eq pos_imp_zdiv_nonneg_iff)
next
  case False
  then have n: "0 \<le> (- a) div b" using assms by (simp add: pos_imp_zdiv_nonneg_iff)
  show ?thesis
  proof (cases "(- a) div b = 0")
    case True
    then have "(- a) div (b * c) = 0" using assms by (simp add: zdiv_zmult2_eq)
    with True False assms show ?thesis by (simp add: sdiv_pos_eq)
  next
    case F: False
    with n have "\<not> 0 \<le> - ((- a) div b)" by linarith
    with False assms show ?thesis by (simp add: sdiv_pos_eq zdiv_zmult2_eq)
  qed
qed

lemma in_int64_sdiv:
  assumes "in_int64 a" "0 < b"
  shows "in_int64 (a sdiv b)"
proof -
  have p: "x div b \<le> x \<and> 0 \<le> x div b" if "0 \<le> x" for x :: int
    using that assms(2) by (metis div_by_1 int_one_le_iff_zero_less pos_imp_zdiv_nonneg_iff
        zdiv_mono2 zero_less_one)
  show ?thesis
    using assms p[of a] p[of "- a"] by (auto simp: int64_bounds sdiv_pos_eq)
qed

section \<open>Ordered association lists\<close>

text \<open>A \<open>std::map\<close> whose iteration order is observable: an association list in ascending key
  order. \<open>omap_set\<close> is \<open>m[k] = v\<close>, \<open>omap_erase\<close> is \<open>m.erase(k)\<close>.\<close>

fun omap_set :: "'k::linorder \<Rightarrow> 'v \<Rightarrow> ('k \<times> 'v) list \<Rightarrow> ('k \<times> 'v) list" where
  "omap_set k v [] = [(k, v)]"
| "omap_set k v ((k', v') # m) =
     (if k < k' then (k, v) # (k', v') # m
      else if k = k' then (k, v) # m
      else (k', v') # omap_set k v m)"

definition omap_erase :: "'k \<Rightarrow> ('k \<times> 'v) list \<Rightarrow> ('k \<times> 'v) list" where
  "omap_erase k m = filter (\<lambda>p. fst p \<noteq> k) m"

definition omap_ok :: "('k::linorder \<times> 'v) list \<Rightarrow> bool" where
  "omap_ok m \<longleftrightarrow> sorted_wrt (<) (map fst m)"

text \<open>The contract a client of a \<open>std::map\<close> relies on.\<close>

locale ordered_map =
  fixes lookup :: "'m \<Rightarrow> 'k::linorder \<Rightarrow> 'v option"
    and set_at :: "'k \<Rightarrow> 'v \<Rightarrow> 'm \<Rightarrow> 'm"
    and erase :: "'k \<Rightarrow> 'm \<Rightarrow> 'm"
    and entries :: "'m \<Rightarrow> ('k \<times> 'v) list"
    and ok :: "'m \<Rightarrow> bool"
  assumes ok_set: "ok m \<Longrightarrow> ok (set_at k v m)"
    and ok_erase: "ok m \<Longrightarrow> ok (erase k m)"
    and lookup_set: "ok m \<Longrightarrow> lookup (set_at k v m) = (lookup m)(k \<mapsto> v)"
    and lookup_erase: "ok m \<Longrightarrow> lookup (erase k m) = (lookup m)(k := None)"
    and entries_lookup: "ok m \<Longrightarrow> set (entries m) = {(k, v). lookup m k = Some v}"
    and entries_sorted: "ok m \<Longrightarrow> sorted_wrt (<) (map fst (entries m))"
begin

lemma set_then_erase: "ok m \<Longrightarrow> lookup m k = None \<Longrightarrow> lookup (erase k (set_at k v m)) = lookup m"
  by (auto simp: lookup_erase ok_set lookup_set)

lemma entries_set_erase:
  assumes "ok m" "lookup m k = None"
  shows "entries (erase k (set_at k v m)) = entries m"
proof -
  have ok': "ok (erase k (set_at k v m))" using assms by (simp add: ok_set ok_erase)
  have "set (entries (erase k (set_at k v m))) = set (entries m)"
    using assms ok' by (simp add: entries_lookup set_then_erase)
  moreover have inj: "xs = ys"
    if "set xs = set ys" "sorted_wrt (<) (map fst xs)" "sorted_wrt (<) (map fst ys)"
    for xs ys :: "('k \<times> 'v) list"
  proof -
    have f: "map fst xs = map fst ys"
      using that by (intro strict_sorted_equal) (auto simp flip: image_set)
    have "inj_on fst (set xs)"
      using that(2) by (metis distinct_map strict_sorted_iff)
    then show ?thesis
      using f that(1) by (metis map_inj_on Un_absorb)
  qed
  ultimately show ?thesis
    using inj entries_sorted[OF ok'] entries_sorted[OF assms(1)] by blast
qed

end

lemma map_of_omap_set: "map_of (omap_set k v m) = (map_of m)(k \<mapsto> v)"
  by (induction k v m rule: omap_set.induct) auto

lemma keys_omap_set: "fst ` set (omap_set k v m) = insert k (fst ` set m)"
  by (induction k v m rule: omap_set.induct) auto

lemma omap_ok_set: "omap_ok m \<Longrightarrow> omap_ok (omap_set k v m)"
  unfolding omap_ok_def
proof (induction k v m rule: omap_set.induct)
  case (2 k v k' v' m)
  then have "\<forall>x\<in>fst ` set (omap_set k v m). \<not> k < k' \<longrightarrow> k \<noteq> k' \<longrightarrow> k' < x"
    by (auto simp: keys_omap_set)
  with 2 show ?case by (auto simp: image_iff)
qed simp

lemma omap_ok_erase: "omap_ok m \<Longrightarrow> omap_ok (omap_erase k m)"
  unfolding omap_ok_def omap_erase_def
  by (induction m) auto

lemma map_of_omap_erase: "map_of (omap_erase k m) = (map_of m)(k := None)"
  unfolding omap_erase_def by (induction m) auto

lemma omap_ok_distinct: "omap_ok m \<Longrightarrow> distinct (map fst m)"
  by (simp add: omap_ok_def strict_sorted_iff)

interpretation omap: ordered_map map_of omap_set omap_erase "\<lambda>m. m" omap_ok
proof (standard, goal_cases)
  case (1 m k v) then show ?case by (rule omap_ok_set)
next
  case (2 m k) then show ?case by (rule omap_ok_erase)
next
  case (3 m k v) show ?case by (rule map_of_omap_set)
next
  case (4 m k) show ?case by (rule map_of_omap_erase)
next
  case (5 m) then show ?case by (auto simp: omap_ok_distinct)
next
  case (6 m) then show ?case by (simp add: omap_ok_def)
qed

lemma omap_ok_Nil [simp]: "omap_ok []"
  by (simp add: omap_ok_def)

section \<open>Words\<close>

lemma unat_exp: "n < LENGTH('a) \<Longrightarrow> unat (2 ^ n :: 'a::len word) = 2 ^ n"
proof -
  assume "n < LENGTH('a)"
  have "unat (2 ^ n :: 'a word) = unat (word_of_nat (2 ^ n) :: 'a word)" by simp
  also have "\<dots> = 2 ^ n"
    using \<open>n < LENGTH('a)\<close> by (simp only: unat_of_nat) simp
  finally show ?thesis .
qed

lemma unat_add_small:
  "unat x + unat y < 2 ^ LENGTH('a) \<Longrightarrow> unat (x + y :: 'a::len word) = unat x + unat y"
  by (simp add: unat_add_lem)

lemma unat_of_nat_small: "n < 2 ^ LENGTH('a) \<Longrightarrow> unat (word_of_nat n :: 'a::len word) = n"
  by (simp add: unat_of_nat)

end
