(* ===== verification/Time_Utils.thy ===== *)
theory Time_Utils
  imports FF_Prelude
begin

text \<open>
  \<open>source/utils/time_utils.h\<close> and \<open>time_utils.cpp\<close>: millisecond time stamps in a \<open>uint32_t\<close> that
  wraps around about every 49.7 days, and the comparisons that stay right across a wrap. The
  system clock is the argument \<open>ns\<close> of the functions that read it, its count of nanoseconds
  since the epoch as a \<open>uint64_t\<close>.
\<close>

type_synonym TimeStamp = "32 word"

definition HALF :: "32 word" where "HALF = 0x80000000"

definition kNumMillisecsPerSec :: int where "kNumMillisecsPerSec = 1000"
definition kNumMicrosecsPerSec :: int where "kNumMicrosecsPerSec = 1000000"
definition kNumNanosecsPerSec :: int where "kNumNanosecsPerSec = 1000000000"
definition kNumNanosecsPerMillisec :: int where
  "kNumNanosecsPerMillisec = kNumNanosecsPerSec sdiv kNumMillisecsPerSec"
definition kNumNanosecsPerMicrosec :: int where
  "kNumNanosecsPerMicrosec = kNumNanosecsPerSec sdiv kNumMicrosecsPerSec"

definition NowTimeNanos :: "64 word \<Rightarrow> 64 word" where
  "NowTimeNanos ns = ns"

definition NowTimeMillis :: "64 word \<Rightarrow> TimeStamp" where
  "NowTimeMillis ns = ucast (NowTimeNanos ns div word_of_int kNumNanosecsPerMillisec)"

definition NowTimeMicros :: "64 word \<Rightarrow> 64 word" where
  "NowTimeMicros ns = NowTimeNanos ns div word_of_int kNumNanosecsPerMicrosec"

definition TimeAfter :: "64 word \<Rightarrow> int \<Rightarrow> TimeStamp" where
  "TimeAfter ns elapsed = NowTimeMillis ns + word_of_int elapsed"

definition TimeIsBetween :: "TimeStamp \<Rightarrow> TimeStamp \<Rightarrow> TimeStamp \<Rightarrow> bool" where
  "TimeIsBetween earlier middle later =
     (if earlier \<le> later then earlier \<le> middle \<and> middle \<le> later
      else \<not> (later < middle \<and> middle < earlier))"

definition TimeIsLaterOrEqual :: "TimeStamp \<Rightarrow> TimeStamp \<Rightarrow> bool" where
  "TimeIsLaterOrEqual earlier later =
     (let diff = sint (later - earlier) in 0 \<le> diff \<and> word_of_int diff < HALF)"

definition TimeIsLater :: "TimeStamp \<Rightarrow> TimeStamp \<Rightarrow> bool" where
  "TimeIsLater earlier later =
     (let diff = sint (later - earlier) in 0 < diff \<and> word_of_int diff < HALF)"

definition TimeMax :: "TimeStamp \<Rightarrow> TimeStamp \<Rightarrow> TimeStamp" where
  "TimeMax ts1 ts2 = (if TimeIsLaterOrEqual ts1 ts2 then ts2 else ts1)"

definition TimeMin :: "TimeStamp \<Rightarrow> TimeStamp \<Rightarrow> TimeStamp" where
  "TimeMin ts1 ts2 = (if TimeIsLaterOrEqual ts1 ts2 then ts1 else ts2)"

definition TimeDiff :: "TimeStamp \<Rightarrow> TimeStamp \<Rightarrow> int" where
  "TimeDiff later earlier = sint (later - earlier)"

definition TimeSince :: "64 word \<Rightarrow> TimeStamp \<Rightarrow> int" where
  "TimeSince ns earlier = TimeDiff (NowTimeMillis ns) earlier"

definition TimeUntil :: "64 word \<Rightarrow> TimeStamp \<Rightarrow> int" where
  "TimeUntil ns later = TimeDiff later (NowTimeMillis ns)"

section \<open>The signed distance decides every comparison\<close>

lemma sint32_range: "- (2 ^ 31) \<le> sint (w :: 32 word)" "sint (w :: 32 word) < 2 ^ 31"
  using sint_range_size[of w] by (auto simp: word_size)

lemma sint32_word_of_int:
  "- (2 ^ 31) \<le> k \<Longrightarrow> k < 2 ^ 31 \<Longrightarrow> sint (word_of_int k :: 32 word) = k"
  by (simp add: sint_sbintrunc' signed_take_bit_int_eq_self)

lemma nonneg_below_HALF: "0 \<le> sint (w :: 32 word) \<Longrightarrow> w < HALF"
proof -
  assume h: "0 \<le> sint w"
  have "uint w = take_bit 32 (sint w)" by (simp add: uint_sint)
  also have "\<dots> = sint w"
    using h sint32_range(2)[of w] by (simp add: take_bit_int_eq_self)
  finally show ?thesis
    using sint32_range(2)[of w] by (simp add: word_less_alt HALF_def)
qed

lemma TimeIsLaterOrEqual_iff: "TimeIsLaterOrEqual a b \<longleftrightarrow> 0 \<le> TimeDiff b a"
  by (auto simp: TimeIsLaterOrEqual_def TimeDiff_def Let_def nonneg_below_HALF)

lemma TimeIsLater_iff: "TimeIsLater a b \<longleftrightarrow> 0 < TimeDiff b a"
  by (auto simp: TimeIsLater_def TimeDiff_def Let_def nonneg_below_HALF)

lemma TimeDiff_advance:
  "- (2 ^ 31) \<le> k \<Longrightarrow> k < 2 ^ 31 \<Longrightarrow> TimeDiff (t + word_of_int k) t = k"
  by (simp add: TimeDiff_def sint32_word_of_int)

lemma TimeDiff_range: "- (2 ^ 31) \<le> TimeDiff a b" "TimeDiff a b < 2 ^ 31"
  using sint32_range[of "a - b"] by (simp_all add: TimeDiff_def)

lemma TimeDiff_recover: "b = a + word_of_int (TimeDiff b a)"
  by (simp add: TimeDiff_def)

lemma TimeDiff_swap: "TimeDiff a b \<noteq> - (2 ^ 31) \<Longrightarrow> TimeDiff b a = - TimeDiff a b"
proof -
  assume h: "TimeDiff a b \<noteq> - (2 ^ 31)"
  let ?k = "TimeDiff a b"
  have "b - a = word_of_int (- ?k)"
    by (simp add: TimeDiff_def)
  then show ?thesis
    using h TimeDiff_range[of a b] sint32_word_of_int[of "- ?k"] by (simp add: TimeDiff_def)
qed

lemma TimeDiff_HALF: "TimeDiff a b = - (2 ^ 31) \<Longrightarrow> TimeDiff b a = - (2 ^ 31)"
proof -
  assume h: "TimeDiff a b = - (2 ^ 31)"
  have "b - a = - word_of_int (TimeDiff a b)"
    by (simp add: TimeDiff_def)
  then have "b - a = (- word_of_int (- (2 ^ 31)) :: 32 word)" using h by simp
  then show ?thesis by (simp add: TimeDiff_def)
qed

section \<open>Properties\<close>

text \<open>Time stamp arithmetic survives the wrap-around of the 32-bit millisecond counter: for
  every start \<open>t\<close> and every signed step \<open>k\<close> of less than \<open>2^31\<close> ms, \<open>TimeDiff\<close> recovers the
  step exactly, and the comparisons agree with its sign in both directions.\<close>

theorem timestamp_window:
  assumes "- (2 ^ 31) < k" "k < 2 ^ 31"
  shows "TimeDiff (t + word_of_int k) t = k \<and> TimeDiff t (t + word_of_int k) = - k
    \<and> (TimeIsLaterOrEqual t (t + word_of_int k) \<longleftrightarrow> 0 \<le> k)
    \<and> (TimeIsLater t (t + word_of_int k) \<longleftrightarrow> 0 < k)
    \<and> (TimeIsLaterOrEqual (t + word_of_int k) t \<longleftrightarrow> k \<le> 0)
    \<and> (TimeIsLater (t + word_of_int k) t \<longleftrightarrow> k < 0)"
proof -
  have d: "TimeDiff (t + word_of_int k) t = k"
    using assms by (simp add: TimeDiff_advance)
  moreover have "TimeDiff t (t + word_of_int k) = - k"
    using TimeDiff_swap[of "t + word_of_int k" t] d assms by simp
  ultimately show ?thesis
    by (simp add: TimeIsLaterOrEqual_iff TimeIsLater_iff)
qed

theorem timestamp_window_witness:
  "TimeDiff (- 50 + word_of_int 100) (- 50) = 100
    \<and> TimeIsLater (- 50) (- 50 + word_of_int 100)
    \<and> \<not> TimeIsLaterOrEqual (- 50 + word_of_int 100) (- 50)"
proof -
  have "- (2 ^ 31) < (100::int)" "(100::int) < 2 ^ 31" by simp_all
  from timestamp_window[OF this, of "- 50"] show ?thesis by simp
qed

text \<open>\<open>TimeMax\<close> and \<open>TimeMin\<close> split a pair into its later and earlier member for every two
  time stamps that are not exactly half the range apart: they are symmetric, they return the two
  arguments, and the minimum is never later than the maximum. At distance \<open>2^31\<close> both orders
  of the arguments return the first as the maximum, so the pair is not ordered.\<close>

theorem timestamp_max_min:
  "(b - a \<noteq> HALF \<longrightarrow>
      TimeMax a b = TimeMax b a \<and> TimeMin a b = TimeMin b a
      \<and> {TimeMin a b, TimeMax a b} = {a, b} \<and> TimeIsLaterOrEqual (TimeMin a b) (TimeMax a b))
   \<and> (b - a = HALF \<longrightarrow>
      TimeMax a b = a \<and> TimeMax b a = b \<and> TimeMin a b = b \<and> TimeMin b a = a)"
proof (cases "TimeDiff b a = - (2 ^ 31)")
  case True
  then have "b - a = word_of_int (- (2 ^ 31))"
    using TimeDiff_recover[of b a] by (metis add_diff_cancel_left')
  then have "b - a = HALF" by (simp add: HALF_def)
  with True TimeDiff_HALF[OF True] show ?thesis
    by (simp add: TimeMax_def TimeMin_def TimeIsLaterOrEqual_iff)
next
  case False
  have "b - a \<noteq> HALF"
  proof
    assume "b - a = HALF"
    then have "TimeDiff b a = - (2 ^ 31)" by (simp add: TimeDiff_def HALF_def)
    with False show False by simp
  qed
  moreover have "TimeDiff a b = - TimeDiff b a"
    using False by (rule TimeDiff_swap)
  moreover have "a = b" if "TimeDiff b a = 0"
    using TimeDiff_recover[of b a] that by simp
  moreover have "0 \<le> TimeDiff a a" by (simp add: TimeDiff_def)
  ultimately show ?thesis
    by (auto simp: TimeMax_def TimeMin_def TimeIsLaterOrEqual_iff)
qed

theorem timestamp_max_min_witness:
  "TimeMax (- 50) 50 = TimeMax 50 (- 50) \<and> TimeMax 0 HALF = 0 \<and> TimeMax HALF 0 = HALF"
proof -
  have "(50::32 word) - (- 50) \<noteq> HALF" by (simp add: HALF_def)
  then show ?thesis
    using timestamp_max_min[of 50 "- 50"] timestamp_max_min[of HALF 0] by simp
qed

text \<open>\<open>TimeIsBetween\<close> is the inclusive circular interval: walking forward from \<open>earlier\<close>,
  \<open>middle\<close> is reached no later than \<open>later\<close>, whether or not the interval crosses the wrap.\<close>

theorem TimeIsBetween_circular:
  "TimeIsBetween earlier middle later \<longleftrightarrow> middle - earlier \<le> later - earlier"
  unfolding TimeIsBetween_def by uint_arith

text \<open>\<open>NowTimeMillis\<close> returns the millisecond count of the system clock reduced modulo
  \<open>2^32\<close>, so that \<open>TimeAfter\<close> and the elapsed-time helpers agree: \<open>TimeUntil\<close> of a stamp taken
  \<open>elapsed\<close> ms ahead of the same clock reading is \<open>elapsed\<close> for every \<open>int32_t\<close> value.\<close>

theorem now_and_after:
  assumes "- (2 ^ 31) \<le> elapsed" "elapsed < 2 ^ 31"
  shows "unat (NowTimeMillis ns) = (unat ns div 1000000) mod 2 ^ 32
    \<and> TimeUntil ns (TimeAfter ns elapsed) = elapsed"
proof -
  have "unat (NowTimeMillis ns) = (unat ns div 1000000) mod 2 ^ 32"
    by (simp add: NowTimeMillis_def NowTimeNanos_def kNumNanosecsPerMillisec_def
        kNumNanosecsPerSec_def kNumMillisecsPerSec_def unsigned_ucast_eq unat_div
        take_bit_eq_mod)
  moreover have "TimeUntil ns (TimeAfter ns elapsed) = elapsed"
    using assms by (simp add: TimeUntil_def TimeAfter_def TimeDiff_advance)
  ultimately show ?thesis by simp
qed

theorem now_and_after_witness:
  "unat (NowTimeMillis 5000000000000000) = 705032704
    \<and> TimeUntil 5000000000000000 (TimeAfter 5000000000000000 500) = 500"
proof -
  have "- (2 ^ 31) \<le> (500::int)" "(500::int) < 2 ^ 31" by simp_all
  from now_and_after[OF this, of 5000000000000000] show ?thesis by simp
qed

end
