(* ===== verification/Time_Types.thy ===== *)
theory Time_Types
  imports FF_Prelude
begin

text \<open>
  \<open>ffbase::TimeDelta\<close> (\<open>source/base/time/time_delta.h\<close>) and \<open>ffbase::TimePoint\<close>
  (\<open>time_point.h\<close>, \<open>time_point.cpp\<close>): nanosecond counts in an \<open>int64_t\<close>. Signed overflow is
  undefined in C++, so every operation that can overflow returns a result, \<open>Inl SignedOverflow\<close>
  where the exact value leaves the \<open>int64_t\<close> range. The floating-point conversions are in
  \<open>Time_Float\<close>.
\<close>

section \<open>TimeDelta\<close>

datatype TimeDelta = TimeDelta (delta: int)

definition td_wf :: "TimeDelta \<Rightarrow> bool" where
  "td_wf d \<longleftrightarrow> in_int64 (delta d)"

definition TimeDelta_Zero :: TimeDelta where "TimeDelta_Zero = TimeDelta 0"
definition TimeDelta_Min :: TimeDelta where "TimeDelta_Min = TimeDelta int64_min"
definition TimeDelta_Max :: TimeDelta where "TimeDelta_Max = TimeDelta int64_max"

definition FromNanoseconds :: "int \<Rightarrow> TimeDelta" where
  "FromNanoseconds nanosecond = TimeDelta nanosecond"

definition FromMicroseconds :: "int \<Rightarrow> TimeDelta res" where
  "FromMicroseconds micros =
     res_bind (int64 (micros * 1000)) (\<lambda>n. Inr (FromNanoseconds n))"

definition FromMilliseconds :: "int \<Rightarrow> TimeDelta res" where
  "FromMilliseconds millis = res_bind (int64 (millis * 1000)) FromMicroseconds"

definition FromSeconds :: "int \<Rightarrow> TimeDelta res" where
  "FromSeconds seconds = res_bind (int64 (seconds * 1000)) FromMilliseconds"

definition ToNanoseconds :: "TimeDelta \<Rightarrow> int" where
  "ToNanoseconds d = delta d"

definition ToMicroseconds :: "TimeDelta \<Rightarrow> int" where
  "ToMicroseconds d = ToNanoseconds d sdiv 1000"

definition ToMilliseconds :: "TimeDelta \<Rightarrow> int" where
  "ToMilliseconds d = ToMicroseconds d sdiv 1000"

definition ToSeconds :: "TimeDelta \<Rightarrow> int" where
  "ToSeconds d = ToMilliseconds d sdiv 1000"

definition td_minus :: "TimeDelta \<Rightarrow> TimeDelta \<Rightarrow> TimeDelta res" where
  "td_minus d e = res_bind (int64 (delta d - delta e)) (\<lambda>n. Inr (FromNanoseconds n))"

definition td_plus :: "TimeDelta \<Rightarrow> TimeDelta \<Rightarrow> TimeDelta res" where
  "td_plus d e = res_bind (int64 (delta d + delta e)) (\<lambda>n. Inr (FromNanoseconds n))"

definition td_div_int :: "TimeDelta \<Rightarrow> int \<Rightarrow> TimeDelta res" where
  "td_div_int d divisor = res_bind (int64_div (delta d) divisor) (\<lambda>n. Inr (FromNanoseconds n))"

definition td_div :: "TimeDelta \<Rightarrow> TimeDelta \<Rightarrow> int res" where
  "td_div d e = int64_div (delta d) (delta e)"

definition td_times :: "TimeDelta \<Rightarrow> int \<Rightarrow> TimeDelta res" where
  "td_times d multiplier =
     res_bind (int64 (delta d * multiplier)) (\<lambda>n. Inr (FromNanoseconds n))"

definition td_mod :: "TimeDelta \<Rightarrow> TimeDelta \<Rightarrow> TimeDelta res" where
  "td_mod d e = res_bind (int64_mod (delta d) (delta e)) (\<lambda>n. Inr (FromNanoseconds n))"

text \<open>The six comparison operators.\<close>

definition td_eq :: "TimeDelta \<Rightarrow> TimeDelta \<Rightarrow> bool" where "td_eq d e \<longleftrightarrow> delta d = delta e"
definition td_ne :: "TimeDelta \<Rightarrow> TimeDelta \<Rightarrow> bool" where "td_ne d e \<longleftrightarrow> delta d \<noteq> delta e"
definition td_lt :: "TimeDelta \<Rightarrow> TimeDelta \<Rightarrow> bool" where "td_lt d e \<longleftrightarrow> delta d < delta e"
definition td_le :: "TimeDelta \<Rightarrow> TimeDelta \<Rightarrow> bool" where "td_le d e \<longleftrightarrow> delta d \<le> delta e"
definition td_gt :: "TimeDelta \<Rightarrow> TimeDelta \<Rightarrow> bool" where "td_gt d e \<longleftrightarrow> delta d > delta e"
definition td_ge :: "TimeDelta \<Rightarrow> TimeDelta \<Rightarrow> bool" where "td_ge d e \<longleftrightarrow> delta d \<ge> delta e"

text \<open>The type's order is the one of the operators.\<close>

instantiation TimeDelta :: linorder
begin

definition less_eq_TimeDelta :: "TimeDelta \<Rightarrow> TimeDelta \<Rightarrow> bool" where
  "less_eq_TimeDelta d e \<longleftrightarrow> delta d \<le> delta e"

definition less_TimeDelta :: "TimeDelta \<Rightarrow> TimeDelta \<Rightarrow> bool" where
  "less_TimeDelta d e \<longleftrightarrow> delta d < delta e"

instance
  by standard (auto simp: less_eq_TimeDelta_def less_TimeDelta_def TimeDelta.expand)

end

record timespec =
  tv_sec :: int
  tv_nsec :: int

definition FromTimespec :: "timespec \<Rightarrow> TimeDelta res" where
  "FromTimespec ts =
     res_bind (FromSeconds (tv_sec ts)) (\<lambda>s. td_plus s (FromNanoseconds (tv_nsec ts)))"

definition ToTimespec :: "TimeDelta \<Rightarrow> timespec" where
  "ToTimespec d = \<lparr>tv_sec = ToSeconds d, tv_nsec = delta d smod 1000000000\<rparr>"

section \<open>TimePoint\<close>

datatype TimePoint = TimePoint (ticks: int)

definition tp_wf :: "TimePoint \<Rightarrow> bool" where
  "tp_wf p \<longleftrightarrow> in_int64 (ticks p)"

definition TimePoint_Min :: TimePoint where "TimePoint_Min = TimePoint int64_min"
definition TimePoint_Max :: TimePoint where "TimePoint_Max = TimePoint int64_max"

text \<open>\<open>TimePoint::Now\<close>: the argument is the steady clock's count of nanoseconds.\<close>

definition TimePoint_Now :: "int \<Rightarrow> TimePoint" where
  "TimePoint_Now steady_ns = TimePoint steady_ns"

definition FromEpochDelta :: "TimeDelta \<Rightarrow> TimePoint" where
  "FromEpochDelta d = TimePoint (ToNanoseconds d)"

definition ToEpochDelta :: "TimePoint \<Rightarrow> TimeDelta" where
  "ToEpochDelta p = FromNanoseconds (ticks p)"

definition tp_diff :: "TimePoint \<Rightarrow> TimePoint \<Rightarrow> TimeDelta res" where
  "tp_diff p q = res_bind (int64 (ticks p - ticks q)) (\<lambda>n. Inr (FromNanoseconds n))"

definition tp_plus :: "TimePoint \<Rightarrow> TimeDelta \<Rightarrow> TimePoint res" where
  "tp_plus p d = res_bind (int64 (ticks p + ToNanoseconds d)) (\<lambda>n. Inr (TimePoint n))"

definition tp_minus :: "TimePoint \<Rightarrow> TimeDelta \<Rightarrow> TimePoint res" where
  "tp_minus p d = res_bind (int64 (ticks p - ToNanoseconds d)) (\<lambda>n. Inr (TimePoint n))"

definition tp_eq :: "TimePoint \<Rightarrow> TimePoint \<Rightarrow> bool" where "tp_eq p q \<longleftrightarrow> ticks p = ticks q"
definition tp_ne :: "TimePoint \<Rightarrow> TimePoint \<Rightarrow> bool" where "tp_ne p q \<longleftrightarrow> ticks p \<noteq> ticks q"
definition tp_lt :: "TimePoint \<Rightarrow> TimePoint \<Rightarrow> bool" where "tp_lt p q \<longleftrightarrow> ticks p < ticks q"
definition tp_le :: "TimePoint \<Rightarrow> TimePoint \<Rightarrow> bool" where "tp_le p q \<longleftrightarrow> ticks p \<le> ticks q"
definition tp_gt :: "TimePoint \<Rightarrow> TimePoint \<Rightarrow> bool" where "tp_gt p q \<longleftrightarrow> ticks p > ticks q"
definition tp_ge :: "TimePoint \<Rightarrow> TimePoint \<Rightarrow> bool" where "tp_ge p q \<longleftrightarrow> ticks p \<ge> ticks q"

instantiation TimePoint :: linorder
begin

definition less_eq_TimePoint :: "TimePoint \<Rightarrow> TimePoint \<Rightarrow> bool" where
  "less_eq_TimePoint p q \<longleftrightarrow> ticks p \<le> ticks q"

definition less_TimePoint :: "TimePoint \<Rightarrow> TimePoint \<Rightarrow> bool" where
  "less_TimePoint p q \<longleftrightarrow> ticks p < ticks q"

instance
  by standard (auto simp: less_eq_TimePoint_def less_TimePoint_def TimePoint.expand)

end

section \<open>Lemmas\<close>

lemmas time_order_defs [time_simps] =
  less_eq_TimeDelta_def less_TimeDelta_def less_eq_TimePoint_def less_TimePoint_def

lemma td_operators [time_simps]:
  "td_eq d e \<longleftrightarrow> d = e" "td_ne d e \<longleftrightarrow> d \<noteq> e" "td_lt d e \<longleftrightarrow> d < e" "td_le d e \<longleftrightarrow> d \<le> e"
  "td_gt d e \<longleftrightarrow> e < d" "td_ge d e \<longleftrightarrow> e \<le> d"
  by (auto simp: td_eq_def td_ne_def td_lt_def td_le_def td_gt_def td_ge_def time_order_defs intro: TimeDelta.expand)

lemma tp_operators [time_simps]:
  "tp_eq p q \<longleftrightarrow> p = q" "tp_ne p q \<longleftrightarrow> p \<noteq> q" "tp_lt p q \<longleftrightarrow> p < q" "tp_le p q \<longleftrightarrow> p \<le> q"
  "tp_gt p q \<longleftrightarrow> q < p" "tp_ge p q \<longleftrightarrow> q \<le> p"
  by (auto simp: tp_eq_def tp_ne_def tp_lt_def tp_le_def tp_gt_def tp_ge_def time_order_defs intro: TimePoint.expand)

lemmas time_const_defs [time_simps] =
  TimeDelta_Zero_def TimeDelta_Min_def TimeDelta_Max_def TimePoint_Min_def TimePoint_Max_def
  FromNanoseconds_def ToNanoseconds_def FromEpochDelta_def ToEpochDelta_def TimePoint_Now_def

lemmas time_op_defs =
  td_minus_def td_plus_def td_times_def tp_diff_def tp_plus_def tp_minus_def

lemma time_op_Inr [simp]:
  "td_minus d e = Inr x \<longleftrightarrow> in_int64 (delta d - delta e) \<and> x = TimeDelta (delta d - delta e)"
  "td_plus d e = Inr x \<longleftrightarrow> in_int64 (delta d + delta e) \<and> x = TimeDelta (delta d + delta e)"
  "td_times d k = Inr x \<longleftrightarrow> in_int64 (delta d * k) \<and> x = TimeDelta (delta d * k)"
  "tp_diff p q = Inr x \<longleftrightarrow> in_int64 (ticks p - ticks q) \<and> x = TimeDelta (ticks p - ticks q)"
  "tp_plus p d = Inr y \<longleftrightarrow> in_int64 (ticks p + delta d) \<and> y = TimePoint (ticks p + delta d)"
  "tp_minus p d = Inr y \<longleftrightarrow> in_int64 (ticks p - delta d) \<and> y = TimePoint (ticks p - delta d)"
  by (auto simp: time_op_defs res_simps time_simps)

lemma time_op_Inl [simp]:
  "td_minus d e = Inl f \<longleftrightarrow> f = SignedOverflow \<and> \<not> in_int64 (delta d - delta e)"
  "td_plus d e = Inl f \<longleftrightarrow> f = SignedOverflow \<and> \<not> in_int64 (delta d + delta e)"
  "td_times d k = Inl f \<longleftrightarrow> f = SignedOverflow \<and> \<not> in_int64 (delta d * k)"
  "tp_diff p q = Inl f \<longleftrightarrow> f = SignedOverflow \<and> \<not> in_int64 (ticks p - ticks q)"
  "tp_plus p d = Inl f \<longleftrightarrow> f = SignedOverflow \<and> \<not> in_int64 (ticks p + delta d)"
  "tp_minus p d = Inl f \<longleftrightarrow> f = SignedOverflow \<and> \<not> in_int64 (ticks p - delta d)"
  by (auto simp: time_op_defs res_simps time_simps)

lemma td_wf_consts [simp]:
  "td_wf TimeDelta_Zero" "td_wf TimeDelta_Min" "td_wf TimeDelta_Max"
  "tp_wf TimePoint_Min" "tp_wf TimePoint_Max"
  by (auto simp: td_wf_def tp_wf_def time_simps int64_bounds)

lemma tp_le_Max: "tp_wf p \<Longrightarrow> p \<le> TimePoint_Max"
  by (auto simp: tp_wf_def time_simps int64_bounds)

text \<open>Each constructor from a coarser unit checks the intermediate products too, but they are
  never larger in magnitude than the final one, so one check decides.\<close>

lemma in_int64_mult_down:
  assumes "in_int64 (a * b)" "0 < b"
  shows "in_int64 a"
proof (cases "0 \<le> a")
  case True
  then have "a \<le> a * b" using assms(2) mult_left_mono[of 1 b a] by simp
  with True assms(1) show ?thesis unfolding int64_bounds by linarith
next
  case False
  then have "a * b \<le> a" using assms(2) mult_left_mono_neg[of 1 b a] by simp
  with False assms(1) show ?thesis unfolding int64_bounds by linarith
qed

lemma FromMicroseconds_eq:
  "FromMicroseconds n =
     (if in_int64 (n * 1000) then Inr (TimeDelta (n * 1000)) else Inl SignedOverflow)"
  by (auto simp: FromMicroseconds_def int64_def time_simps)

lemma FromMilliseconds_eq:
  "FromMilliseconds n =
     (if in_int64 (n * 1000000) then Inr (TimeDelta (n * 1000000)) else Inl SignedOverflow)"
  using in_int64_mult_down[of "n * 1000" 1000]
  by (auto simp: FromMilliseconds_def FromMicroseconds_eq int64_def mult.assoc)

lemma FromSeconds_eq:
  "FromSeconds n =
     (if in_int64 (n * 1000000000) then Inr (TimeDelta (n * 1000000000)) else Inl SignedOverflow)"
  using in_int64_mult_down[of "n * 1000" 1000000]
  by (auto simp: FromSeconds_def FromMilliseconds_eq int64_def mult.assoc)

lemma To_eq:
  "ToMicroseconds d = delta d sdiv 1000"
  "ToMilliseconds d = delta d sdiv 1000000"
  "ToSeconds d = delta d sdiv 1000000000"
  by (simp_all add: ToMicroseconds_def ToMilliseconds_def ToSeconds_def time_simps sdiv_sdiv_pos)

lemma sdiv_mult_pos: "0 < b \<Longrightarrow> ((n::int) * b) sdiv b = n"
  by (auto simp: sdiv_pos_eq zero_le_mult_iff simp flip: mult_minus_left)

lemma sdiv_smod_int: "(a::int) sdiv b * b + a smod b = a"
  by (rule signed_division_class.sdiv_mult_smod_eq)

lemma To_mono: "d \<le> e \<Longrightarrow> ToMilliseconds d \<le> ToMilliseconds e"
  by (auto simp: To_eq time_simps sdiv_pos_eq zdiv_mono1 pos_imp_zdiv_nonneg_iff
      intro: order_trans[of _ 0])

lemma smod_pos_eq: "0 < b \<Longrightarrow> (a::int) smod b = (if 0 \<le> a then a mod b else - ((- a) mod b))"
  by (cases "a = 0") (auto simp: signed_modulo_int_def sgn_if)

lemma in_int64_sdiv_mult:
  assumes "in_int64 a" "0 < b"
  shows "in_int64 (a sdiv b * b)"
proof -
  have "0 \<le> x div b * b" "x div b * b \<le> x" if "0 \<le> x" for x
    using that assms(2) div_mult_mod_eq[of x b] pos_mod_sign[OF assms(2), of x]
    by (simp add: pos_imp_zdiv_nonneg_iff, linarith)
  from this[of a] this[of "- a"] show ?thesis using assms by (auto simp: sdiv_pos_eq int64_bounds)
qed

section \<open>Properties\<close>

text \<open>Round trips of time spans. Every span survives the conversion to a \<open>timespec\<close> and back without overflow;
  the \<open>timespec\<close> is one the system accepts, with nanoseconds from 0 to below a second, exactly for spans that
  are not negative or a whole number of seconds. A span made from milliseconds or seconds is read back as the
  same number, and overflow is reported exactly when the nanoseconds do not fit.\<close>

theorem time_delta_round_trips:
  assumes "td_wf d"
  shows "FromTimespec (ToTimespec d) = Inr d
    \<and> (0 \<le> tv_nsec (ToTimespec d) \<and> tv_nsec (ToTimespec d) < 1000000000
        \<longleftrightarrow> 0 \<le> delta d \<or> 1000000000 dvd delta d)
    \<and> (case FromMilliseconds n of Inr e \<Rightarrow> ToMilliseconds e = n \<and> ToMicroseconds e = n * 1000
        | Inl f \<Rightarrow> f = SignedOverflow \<and> \<not> in_int64 (n * 1000000))
    \<and> (case FromSeconds n of Inr e \<Rightarrow> ToSeconds e = n \<and> ToMilliseconds e = n * 1000
        | Inl f \<Rightarrow> f = SignedOverflow \<and> \<not> in_int64 (n * 1000000000))"
proof -
  have d: "in_int64 (delta d)" using assms by (simp add: td_wf_def)
  have "FromTimespec (ToTimespec d) = Inr d"
    using d in_int64_sdiv_mult[OF d, of 1000000000] sdiv_smod_int[of "delta d" 1000000000]
    by (simp add: FromTimespec_def ToTimespec_def FromSeconds_eq To_eq time_simps)
  moreover have "0 \<le> tv_nsec (ToTimespec d) \<and> tv_nsec (ToTimespec d) < 1000000000
      \<longleftrightarrow> 0 \<le> delta d \<or> 1000000000 dvd delta d"
  proof (cases "0 \<le> delta d")
    case False
    define x where "x = - delta d mod 1000000000"
    have "0 \<le> x" "x < 1000000000" "tv_nsec (ToTimespec d) = - x" "1000000000 dvd delta d \<longleftrightarrow> x = 0"
      using False by (simp_all add: x_def ToTimespec_def smod_pos_eq flip: dvd_eq_mod_eq_0)
    then show ?thesis using False by auto
  qed (simp add: ToTimespec_def smod_pos_eq)
  moreover have "n * 1000000 sdiv 1000 = n * 1000" "n * 1000000000 sdiv 1000000 = n * 1000"
    using sdiv_mult_pos[of 1000 "n * 1000"] sdiv_mult_pos[of 1000000 "n * 1000"] by (simp_all add: mult.assoc)
  ultimately show ?thesis
    by (simp add: FromMilliseconds_eq FromSeconds_eq To_eq sdiv_mult_pos)
qed

theorem time_delta_round_trips_witness:
  "FromTimespec (ToTimespec (TimeDelta (- 1500000000))) = Inr (TimeDelta (- 1500000000))
   \<and> \<not> 0 \<le> tv_nsec (ToTimespec (TimeDelta (- 1500000000)))"
proof -
  have "td_wf (TimeDelta (- 1500000000))" by (simp add: td_wf_def int64_bounds)
  from time_delta_round_trips[OF this, of 0] show ?thesis by (simp add: ToTimespec_def smod_pos_eq)
qed

end
