(* ===== verification/Delayed_Tasks.thy ===== *)
theory Delayed_Tasks
  imports Time_Types
begin

text \<open>
  \<open>source/base/messageloop/delayed_task.h\<close> and \<open>delayed_task.cpp\<close>: a task with its registration
  order and target time, the comparison \<open>operator>\<close>, and the priority queue
  \<open>std::priority_queue<DelayedTask, std::deque<DelayedTask>, std::greater<DelayedTask>>\<close>.

  A \<open>std::function<void()>\<close> is an \<open>'c closure\<close>: \<open>None\<close> is the empty (null) function, \<open>Some c\<close> a
  callable named \<open>c\<close>. The library's priority queue is modelled by its contract: the list of
  stored tasks in the order in which \<open>top\<close> and \<open>pop\<close> would deliver them. The interface locale
  \<open>min_queue\<close> states that contract and what its clients derive from it.
\<close>

type_synonym 'c closure = "'c option"

record 'c DelayedTask =
  dt_order :: "64 word"
  dt_task :: "'c closure"
  dt_target_time :: TimePoint

definition GetTask :: "'c DelayedTask \<Rightarrow> 'c closure" where
  "GetTask t = dt_task t"

definition GetTargetTime :: "'c DelayedTask \<Rightarrow> TimePoint" where
  "GetTargetTime t = dt_target_time t"

definition dt_gt :: "'c DelayedTask \<Rightarrow> 'c DelayedTask \<Rightarrow> bool" where
  "dt_gt t other =
     (if dt_target_time t = dt_target_time other then dt_order t > dt_order other
      else dt_target_time t > dt_target_time other)"

type_synonym 'c DelayedTaskQueue = "'c DelayedTask list"

fun dtq_push :: "'c DelayedTask \<Rightarrow> 'c DelayedTaskQueue \<Rightarrow> 'c DelayedTaskQueue" where
  "dtq_push t [] = [t]"
| "dtq_push t (u # q) = (if dt_gt u t then t # u # q else u # dtq_push t q)"

fun dtq_top :: "'c DelayedTaskQueue \<Rightarrow> 'c DelayedTask res" where
  "dtq_top [] = Inl OutOfBounds"
| "dtq_top (t # q) = Inr t"

fun dtq_pop :: "'c DelayedTaskQueue \<Rightarrow> 'c DelayedTaskQueue res" where
  "dtq_pop [] = Inl OutOfBounds"
| "dtq_pop (t # q) = Inr q"

definition dtq_ok :: "'c DelayedTaskQueue \<Rightarrow> bool" where
  "dtq_ok q \<longleftrightarrow> sorted_wrt (\<lambda>t u. \<not> dt_gt t u) q"

section \<open>The contract of a priority queue\<close>

locale min_queue =
  fixes gt :: "'a \<Rightarrow> 'a \<Rightarrow> bool"
    and push :: "'a \<Rightarrow> 'q \<Rightarrow> 'q"
    and top :: "'q \<Rightarrow> 'a res"
    and pop :: "'q \<Rightarrow> 'q res"
    and elems :: "'q \<Rightarrow> 'a multiset"
    and ok :: "'q \<Rightarrow> bool"
  assumes gt_irrefl: "\<not> gt x x"
    and gt_trans: "gt x y \<Longrightarrow> gt y z \<Longrightarrow> gt x z"
    and ok_push: "ok q \<Longrightarrow> ok (push x q)"
    and ok_pop: "ok q \<Longrightarrow> pop q = Inr q' \<Longrightarrow> ok q'"
    and elems_push: "elems (push x q) = add_mset x (elems q)"
    and top_empty: "elems q = {#} \<Longrightarrow> \<exists>f. top q = Inl f"
    and top_least: "ok q \<Longrightarrow> elems q \<noteq> {#} \<Longrightarrow>
          \<exists>x. top q = Inr x \<and> x \<in># elems q \<and> (\<forall>y \<in># elems q. \<not> gt x y)"
    and pop_elems: "top q = Inr x \<Longrightarrow> \<exists>q'. pop q = Inr q' \<and> elems q = add_mset x (elems q')"
begin

lemma top_push_smallest:
  assumes "ok q" "\<And>y. y \<in># elems q \<Longrightarrow> gt y x"
  shows "top (push x q) = Inr x"
proof -
  obtain z where z: "top (push x q) = Inr z" "z \<in># elems (push x q)"
    "\<forall>y \<in># elems (push x q). \<not> gt z y"
    using top_least[OF ok_push[OF assms(1)], of x] by (auto simp: elems_push)
  then have "z = x \<or> gt z x" using assms(2) by (auto simp: elems_push)
  moreover have "\<not> gt z x" using z(3) by (simp add: elems_push)
  ultimately show ?thesis using z(1) by auto
qed

lemma top_of_push:
  assumes "ok q" "top (push x q) = Inr z"
  shows "z = x \<or> top q = Inr z \<or> (z \<in># elems q \<and> (\<forall>y \<in># elems q. \<not> gt z y))"
  using top_least[OF ok_push[OF assms(1)], of x] assms(2) by (auto simp: elems_push)

text \<open>Delivery is monotone: the element delivered after a pop is never smaller.\<close>

lemma pop_then_top_not_smaller:
  assumes "ok q" "top q = Inr x" "pop q = Inr q'" "top q' = Inr y"
  shows "\<not> gt x y"
proof -
  have e: "elems q = add_mset x (elems q')"
    using pop_elems[OF assms(2)] assms(3) by auto
  have "elems q' \<noteq> {#}" using top_empty[of q'] assms(4) by auto
  then have "y \<in># elems q'"
    using top_least[OF ok_pop[OF assms(1,3)]] assms(4) by auto
  moreover have "\<forall>y \<in># elems q. \<not> gt x y"
    using top_least[OF assms(1)] e assms(2) by auto
  ultimately show ?thesis using e by simp
qed

end

section \<open>The order on tasks\<close>

lemma dt_gt_irrefl: "\<not> dt_gt t t"
  by (simp add: dt_gt_def)

lemma dt_gt_trans: "dt_gt t u \<Longrightarrow> dt_gt u v \<Longrightarrow> dt_gt t v"
  by (auto simp: dt_gt_def split: if_splits)

lemma dt_gt_asym: "dt_gt t u \<Longrightarrow> \<not> dt_gt u t"
  using dt_gt_irrefl dt_gt_trans by blast

lemma dt_not_gt_trans: "\<not> dt_gt t u \<Longrightarrow> \<not> dt_gt u v \<Longrightarrow> \<not> dt_gt t v"
  by (auto simp: dt_gt_def split: if_splits)

lemma dt_not_gt_target: "\<not> dt_gt t u \<Longrightarrow> dt_target_time t \<le> dt_target_time u"
  by (auto simp: dt_gt_def split: if_splits)

lemma dt_gt_total: "dt_gt t u \<or> dt_gt u t \<or>
    (dt_target_time t = dt_target_time u \<and> dt_order t = dt_order u)"
  by (auto simp: dt_gt_def)

lemma mset_dtq_push [simp]: "mset (dtq_push t q) = add_mset t (mset q)"
  by (induction t q rule: dtq_push.induct) auto

lemma set_dtq_push [simp]: "set (dtq_push t q) = insert t (set q)"
  by (induction t q rule: dtq_push.induct) auto

lemma length_dtq_push [simp]: "length (dtq_push t q) = Suc (length q)"
  by (induction t q rule: dtq_push.induct) auto

lemma dtq_ok_push: "dtq_ok q \<Longrightarrow> dtq_ok (dtq_push t q)"
  unfolding dtq_ok_def
proof (induction t q rule: dtq_push.induct)
  case (2 t u q)
  show ?case
  proof (cases "dt_gt u t")
    case True
    then have "\<not> dt_gt t u" by (rule dt_gt_asym)
    with 2 True show ?thesis by (auto dest: dt_gt_trans)
  next
    case False
    with 2 show ?thesis by auto
  qed
qed simp

lemma dtq_pop_iff [simp]: "dtq_pop q = Inr q' \<longleftrightarrow> (\<exists>t. q = t # q')"
  by (cases q) auto

lemma dtq_top_iff [simp]: "dtq_top q = Inr t \<longleftrightarrow> (\<exists>q'. q = t # q')"
  by (cases q) auto

lemma dtq_ok_Cons: "dtq_ok (t # q) \<Longrightarrow> dtq_ok q"
  by (simp add: dtq_ok_def)

lemma dtq_ok_Nil [simp]: "dtq_ok []"
  by (simp add: dtq_ok_def)

interpretation dtq: min_queue dt_gt dtq_push dtq_top dtq_pop mset dtq_ok
proof (standard, goal_cases)
  case (1 x) show ?case by (rule dt_gt_irrefl)
next
  case (2 x y z) then show ?case by (rule dt_gt_trans)
next
  case (3 q x) then show ?case by (rule dtq_ok_push)
next
  case (4 q q') then show ?case by (auto dest: dtq_ok_Cons)
next
  case (5 x q) show ?case by simp
next
  case (6 q) then show ?case by simp
next
  case (7 q) then show ?case
    by (cases q) (auto simp: dtq_ok_def dt_gt_irrefl)
next
  case (8 q x) then show ?case by auto
qed

section \<open>Registration order and stability\<close>

text \<open>A queue in delivery order has non-decreasing target times, so the tasks due at \<open>now\<close> are a
  prefix.\<close>

lemma dtq_ok_sorted_target: "dtq_ok q \<Longrightarrow> sorted (map dt_target_time q)"
  unfolding dtq_ok_def by (induction q) (auto dest: dt_not_gt_target)

lemma takeWhile_sorted_filter:
  "sorted (map f q) \<Longrightarrow> takeWhile (\<lambda>t. f t \<le> c) q = filter (\<lambda>t. f t \<le> c) q"
proof (induction q)
  case (Cons t q)
  then have "\<forall>u \<in> set q. f t \<le> f u" by simp
  then have "\<not> f t \<le> c \<Longrightarrow> filter (\<lambda>t. f t \<le> c) q = []"
    by (auto simp: filter_empty_conv)
  with Cons show ?case by auto
qed simp

lemma dropWhile_sorted_filter:
  "sorted (map f q) \<Longrightarrow> dropWhile (\<lambda>t. f t \<le> c) q = filter (\<lambda>t. \<not> f t \<le> c) q"
proof (induction q)
  case (Cons t q)
  then show ?case
    by (auto intro!: sym[OF filter_True] dest: order_trans)
qed simp

text \<open>A task registered after every task in the queue goes behind all tasks with the same target
  time, so the queue stays the stable sort of the registrations.\<close>

lemma filter_target_push:
  assumes "dtq_ok q" "\<forall>u \<in> set q. dt_order u < dt_order t"
  shows "filter (\<lambda>u. dt_target_time u = c) (dtq_push t q)
    = filter (\<lambda>u. dt_target_time u = c) q @ (if dt_target_time t = c then [t] else [])"
  using assms
proof (induction t q rule: dtq_push.induct)
  case (2 t u q)
  show ?case
  proof (cases "dt_gt u t")
    case True
    have later: "dt_target_time t < dt_target_time u"
      using True 2(3) by (auto simp: dt_gt_def split: if_splits)
    have "dt_target_time u \<le> dt_target_time v" if "v \<in> set q" for v
      using 2(2) that by (auto simp: dtq_ok_def dest: dt_not_gt_target)
    with later have "filter (\<lambda>u. dt_target_time u = c) (u # q) = []"
      if "dt_target_time t = c"
      using that by (force simp: filter_empty_conv)
    with True show ?thesis by auto
  next
    case False
    with 2 show ?thesis by (auto dest: dtq_ok_Cons)
  qed
qed simp

lemma dtq_push_sort_key:
  assumes "dtq_ok (sort_key dt_target_time ts)" "\<forall>u \<in> set ts. dt_order u < dt_order t"
  shows "dtq_push t (sort_key dt_target_time ts) = sort_key dt_target_time (ts @ [t])"
proof (rule sym, rule properties_for_sort_key)
  let ?q = "sort_key dt_target_time ts"
  show "mset (dtq_push t ?q) = mset (ts @ [t])" by simp
  show "sorted (map dt_target_time (dtq_push t ?q))"
    using dtq_ok_sorted_target dtq_ok_push assms(1) by blast
  fix k
  have "filter (\<lambda>x. dt_target_time k = dt_target_time x) ?q
      = filter (\<lambda>x. dt_target_time k = dt_target_time x) ts"
    using sort_key_stable[of dt_target_time "dt_target_time k" ts]
    by (simp add: eq_commute[of "dt_target_time k"])
  then show "filter (\<lambda>x. dt_target_time k = dt_target_time x) (dtq_push t ?q)
      = filter (\<lambda>x. dt_target_time k = dt_target_time x) (ts @ [t])"
    using filter_target_push[of ?q t "dt_target_time k"] assms
    by (auto simp: eq_commute[of "dt_target_time k"])
qed

end
