(* ===== verification/Task_Queues.thy ===== *)
theory Task_Queues
  imports Delayed_Tasks
begin

text \<open>
  \<open>source/base/messageloop/message_loop_task_queues.h\<close> and \<open>.cpp\<close>: the process-wide registry of
  task queues. Every public operation runs under the mutex of its queue, so each is one atomic
  step on the registry; it returns the new registry, and where the code calls
  \<open>Wakeable::WakeUp\<close>, the list of those calls in order. \<open>TimePoint::Now()\<close> is the argument
  \<open>now\<close>.

  \<open>std::map<TaskQueueId, \<dots>>\<close> orders its keys with \<open>std::less\<close>, which uses the implicit conversion
  \<open>operator int()\<close>: two ids are the same key when their low 32 bits agree. The model keeps that
  conversion (\<open>tqid_key\<close>). \<open>'c\<close> names closures, \<open>'w\<close> the objects behind \<open>Wakeable*\<close>.
\<close>

datatype TaskQueueId = TaskQueueId (tqid_value: "64 word")

definition tqid_key :: "TaskQueueId \<Rightarrow> 32 word" where
  "tqid_key i = ucast (tqid_value i)"

definition kUnmerged :: TaskQueueId where
  "kUnmerged = TaskQueueId (- 1)"

datatype FlushType = FlushSingle | FlushAll

record ('c, 'w) TaskQueueEntry =
  task_observers :: "(int \<times> 'c closure) list"
  delayed_tasks :: "'c DelayedTaskQueue"
  wakeable :: "'w option"

record ('c, 'w) MessageLoopTaskQueues =
  queue_entries :: "32 word \<rightharpoonup> ('c, 'w) TaskQueueEntry"
  queue_locks :: "32 word set"
  task_queue_id_counter :: "64 word"
  order_counter :: "32 word"

type_synonym 'w wakes = "('w \<times> TimePoint) list"

definition new_TaskQueueEntry :: "('c, 'w) TaskQueueEntry" where
  "new_TaskQueueEntry = \<lparr>task_observers = [], delayed_tasks = [], wakeable = None\<rparr>"

section \<open>Life cycle\<close>

definition new_MessageLoopTaskQueues :: "('c, 'w) MessageLoopTaskQueues" where
  "new_MessageLoopTaskQueues =
     \<lparr>queue_entries = Map.empty, queue_locks = {}, task_queue_id_counter = 0, order_counter = 0\<rparr>"

definition GetInstance ::
  "('c, 'w) MessageLoopTaskQueues option \<Rightarrow> ('c, 'w) MessageLoopTaskQueues" where
  "GetInstance inst = (case inst of None \<Rightarrow> new_MessageLoopTaskQueues | Some tq \<Rightarrow> tq)"

definition CreateTaskQueue ::
  "('c, 'w) MessageLoopTaskQueues \<Rightarrow> ('c, 'w) MessageLoopTaskQueues \<times> TaskQueueId" where
  "CreateTaskQueue tq =
     (let loop_id = TaskQueueId (task_queue_id_counter tq) in
      (tq\<lparr>task_queue_id_counter := task_queue_id_counter tq + 1,
          queue_locks := insert (tqid_key loop_id) (queue_locks tq),
          queue_entries := (queue_entries tq)(tqid_key loop_id \<mapsto> new_TaskQueueEntry)\<rparr>,
       loop_id))"

definition GetMutex :: "('c, 'w) MessageLoopTaskQueues \<Rightarrow> TaskQueueId \<Rightarrow> unit res" where
  "GetMutex tq queue_id =
     (if tqid_key queue_id \<in> queue_locks tq then Inr () else Inl OutOfRange)"

definition set_entry ::
  "('c, 'w) MessageLoopTaskQueues \<Rightarrow> TaskQueueId \<Rightarrow> ('c, 'w) TaskQueueEntry
     \<Rightarrow> ('c, 'w) MessageLoopTaskQueues" where
  "set_entry tq queue_id e =
     tq\<lparr>queue_entries := (queue_entries tq)(tqid_key queue_id \<mapsto> e)\<rparr>"

abbreviation entry_at ::
  "('c, 'w) MessageLoopTaskQueues \<Rightarrow> TaskQueueId \<Rightarrow> ('c, 'w) TaskQueueEntry res" where
  "entry_at tq queue_id \<equiv> map_at (queue_entries tq) (tqid_key queue_id)"

abbreviation entry_deref ::
  "('c, 'w) MessageLoopTaskQueues \<Rightarrow> TaskQueueId \<Rightarrow> ('c, 'w) TaskQueueEntry res" where
  "entry_deref tq queue_id \<equiv> map_deref (queue_entries tq) (tqid_key queue_id)"

definition Dispose ::
  "('c, 'w) MessageLoopTaskQueues \<Rightarrow> TaskQueueId \<Rightarrow> ('c, 'w) MessageLoopTaskQueues res" where
  "Dispose tq queue_id =
     res_bind (GetMutex tq queue_id) (\<lambda>_.
       Inr (tq\<lparr>queue_entries := (queue_entries tq)(tqid_key queue_id := None)\<rparr>))"

definition DisposeTasks ::
  "('c, 'w) MessageLoopTaskQueues \<Rightarrow> TaskQueueId \<Rightarrow> ('c, 'w) MessageLoopTaskQueues res" where
  "DisposeTasks tq queue_id =
     res_bind (GetMutex tq queue_id) (\<lambda>_.
     res_bind (entry_at tq queue_id) (\<lambda>queue.
       Inr (set_entry tq queue_id (queue\<lparr>delayed_tasks := []\<rparr>))))"

section \<open>Private helpers\<close>

definition WakeUpUnlocked ::
  "('c, 'w) MessageLoopTaskQueues \<Rightarrow> TaskQueueId \<Rightarrow> TimePoint \<Rightarrow> 'w wakes res" where
  "WakeUpUnlocked tq queue_id t =
     res_bind (entry_at tq queue_id) (\<lambda>e.
       Inr (case wakeable e of None \<Rightarrow> [] | Some w \<Rightarrow> [(w, t)]))"

definition HasPendingTasksUnlocked ::
  "('c, 'w) MessageLoopTaskQueues \<Rightarrow> TaskQueueId \<Rightarrow> bool res" where
  "HasPendingTasksUnlocked tq queue_id =
     res_bind (entry_at tq queue_id) (\<lambda>e. Inr (delayed_tasks e \<noteq> []))"

text \<open>\<open>PeekNextTaskUnlocked(owner_id, top_queue_id)\<close> returns the task and the updated reference
  parameter.\<close>

definition PeekNextTaskUnlocked ::
  "('c, 'w) MessageLoopTaskQueues \<Rightarrow> TaskQueueId \<Rightarrow> TaskQueueId
     \<Rightarrow> ('c DelayedTask \<times> TaskQueueId) res" where
  "PeekNextTaskUnlocked tq owner_id top_queue_id =
     res_bind (entry_at tq owner_id) (\<lambda>owner_entry.
       let top_id = (if delayed_tasks owner_entry \<noteq> [] then owner_id else top_queue_id) in
       res_bind (entry_at tq top_id) (\<lambda>e.
       res_bind (dtq_top (delayed_tasks e)) (\<lambda>t. Inr (t, top_id))))"

definition GetNextWakeTimeUnlocked ::
  "('c, 'w) MessageLoopTaskQueues \<Rightarrow> TaskQueueId \<Rightarrow> TimePoint res" where
  "GetNextWakeTimeUnlocked tq queue_id =
     res_bind (PeekNextTaskUnlocked tq queue_id kUnmerged) (\<lambda>(t, _). Inr (GetTargetTime t))"

section \<open>Tasks\<close>

text \<open>\<open>now\<close> is the reading of the clock for the delay. A second reading, inside \<open>FF_LOG\<close>, goes to the log only; it is not
  counted here nor where readings of the clock are counted.\<close>

definition RegisterTask ::
  "('c, 'w) MessageLoopTaskQueues \<Rightarrow> TaskQueueId \<Rightarrow> 'c closure \<Rightarrow> TimePoint \<Rightarrow> TimePoint
     \<Rightarrow> (('c, 'w) MessageLoopTaskQueues \<times> 'w wakes) res" where
  "RegisterTask tq queue_id task target_time now =
     res_bind (GetMutex tq queue_id) (\<lambda>_.
     let order = order_counter tq; tq1 = tq\<lparr>order_counter := order + 1\<rparr> in
     res_bind (entry_deref tq1 queue_id) (\<lambda>e.
     let e' = e\<lparr>delayed_tasks := dtq_push
                 \<lparr>dt_order = scast order, dt_task = task, dt_target_time = target_time\<rparr>
                 (delayed_tasks e)\<rparr>;
         tq2 = set_entry tq1 queue_id e' in
     res_bind (dtq_top (delayed_tasks e')) (\<lambda>t.
     res_bind (tp_diff (GetTargetTime t) now) (\<lambda>wakeup_delay.
     res_bind (WakeUpUnlocked tq2 queue_id (GetTargetTime t)) (\<lambda>wk.
       Inr (tq2, wk))))))"

definition HasPendingTask ::
  "('c, 'w) MessageLoopTaskQueues \<Rightarrow> TaskQueueId \<Rightarrow> bool res" where
  "HasPendingTask tq queue_id =
     res_bind (GetMutex tq queue_id) (\<lambda>_. HasPendingTasksUnlocked tq queue_id)"

definition pop_task ::
  "('c, 'w) MessageLoopTaskQueues \<Rightarrow> TaskQueueId \<Rightarrow> ('c, 'w) MessageLoopTaskQueues res" where
  "pop_task tq queue_id =
     res_bind (entry_deref tq queue_id) (\<lambda>e.
     res_bind (dtq_pop (delayed_tasks e)) (\<lambda>q.
       Inr (set_entry tq queue_id (e\<lparr>delayed_tasks := q\<rparr>))))"

definition pending_count :: "('c, 'w) MessageLoopTaskQueues \<Rightarrow> TaskQueueId \<Rightarrow> nat" where
  "pending_count tq queue_id =
     (case queue_entries tq (tqid_key queue_id) of None \<Rightarrow> 0 | Some e \<Rightarrow> length (delayed_tasks e))"

lemma pop_task_after_peek:
  assumes "PeekNextTaskUnlocked tq queue_id kUnmerged = Inr (t, i)" "pop_task tq i = Inr tq'"
    and "HasPendingTasksUnlocked tq queue_id = Inr True"
  shows "pending_count tq' queue_id < pending_count tq queue_id"
  using assms
  by (auto simp: PeekNextTaskUnlocked_def pop_task_def HasPendingTasksUnlocked_def res_simps
      Let_def pending_count_def set_entry_def split: if_splits)

text \<open>The \<open>while\<close> loop of \<open>GetTasksToRunNow\<close>. Every iteration that continues has popped a task, so
  it terminates.\<close>

function get_tasks_loop ::
  "('c, 'w) MessageLoopTaskQueues \<Rightarrow> TaskQueueId \<Rightarrow> FlushType \<Rightarrow> TimePoint
     \<Rightarrow> 'c closure list \<Rightarrow> 'w wakes
     \<Rightarrow> (('c, 'w) MessageLoopTaskQueues \<times> 'c closure list \<times> 'w wakes) res" where
  "get_tasks_loop tq queue_id type now invocations wk =
     res_bind (HasPendingTasksUnlocked tq queue_id) (\<lambda>pending.
       if \<not> pending then Inr (tq, invocations, wk)
       else res_bind (PeekNextTaskUnlocked tq queue_id kUnmerged) (\<lambda>(top_task, top_queue_id).
         if GetTargetTime top_task > now then Inr (tq, invocations, wk)
         else res_bind (pop_task tq top_queue_id) (\<lambda>tq'.
           if type = FlushSingle then Inr (tq', invocations @ [GetTask top_task], wk)
           else res_bind (HasPendingTasksUnlocked tq' queue_id) (\<lambda>pending'.
             res_bind
               (if \<not> pending' then WakeUpUnlocked tq' queue_id TimePoint_Max
                else res_bind (GetNextWakeTimeUnlocked tq' queue_id)
                       (WakeUpUnlocked tq' queue_id)) (\<lambda>w.
               get_tasks_loop tq' queue_id type now
                 (invocations @ [GetTask top_task]) (wk @ w))))))"
  by pat_completeness auto
termination
  by (relation "measure (\<lambda>(tq, queue_id, _). pending_count tq queue_id)")
    (auto dest: pop_task_after_peek)

declare get_tasks_loop.simps [simp del]

definition GetTasksToRunNow ::
  "('c, 'w) MessageLoopTaskQueues \<Rightarrow> TaskQueueId \<Rightarrow> FlushType \<Rightarrow> TimePoint \<Rightarrow> 'c closure list
     \<Rightarrow> (('c, 'w) MessageLoopTaskQueues \<times> 'c closure list \<times> 'w wakes) res" where
  "GetTasksToRunNow tq queue_id type now invocations =
     res_bind (GetMutex tq queue_id) (\<lambda>_.
     res_bind (HasPendingTasksUnlocked tq queue_id) (\<lambda>pending.
       if \<not> pending then Inr (tq, invocations, [])
       else get_tasks_loop tq queue_id type now invocations []))"

definition GetNumPendingTasks ::
  "('c, 'w) MessageLoopTaskQueues \<Rightarrow> TaskQueueId \<Rightarrow> nat res" where
  "GetNumPendingTasks tq queue_id =
     res_bind (GetMutex tq queue_id) (\<lambda>_.
     res_bind (entry_at tq queue_id) (\<lambda>e. Inr (0 + length (delayed_tasks e))))"

section \<open>Observers\<close>

definition TQ_AddTaskObserver ::
  "('c, 'w) MessageLoopTaskQueues \<Rightarrow> TaskQueueId \<Rightarrow> int \<Rightarrow> 'c closure
     \<Rightarrow> ('c, 'w) MessageLoopTaskQueues res" where
  "TQ_AddTaskObserver tq queue_id key callback =
     res_bind (GetMutex tq queue_id) (\<lambda>_.
     res_bind (ff_check (callback \<noteq> None)) (\<lambda>_.
     res_bind (entry_deref tq queue_id) (\<lambda>e.
       Inr (set_entry tq queue_id
              (e\<lparr>task_observers := omap_set key callback (task_observers e)\<rparr>)))))"

definition TQ_RemoveTaskObserver ::
  "('c, 'w) MessageLoopTaskQueues \<Rightarrow> TaskQueueId \<Rightarrow> int
     \<Rightarrow> ('c, 'w) MessageLoopTaskQueues res" where
  "TQ_RemoveTaskObserver tq queue_id key =
     res_bind (GetMutex tq queue_id) (\<lambda>_.
     res_bind (entry_deref tq queue_id) (\<lambda>e.
       Inr (set_entry tq queue_id
              (e\<lparr>task_observers := omap_erase key (task_observers e)\<rparr>))))"

definition GetObserversToNotify ::
  "('c, 'w) MessageLoopTaskQueues \<Rightarrow> TaskQueueId \<Rightarrow> 'c closure list res" where
  "GetObserversToNotify tq queue_id =
     res_bind (GetMutex tq queue_id) (\<lambda>_.
     res_bind (entry_at tq queue_id) (\<lambda>e. Inr (map snd (task_observers e))))"

definition SetWakeable ::
  "('c, 'w) MessageLoopTaskQueues \<Rightarrow> TaskQueueId \<Rightarrow> 'w option
     \<Rightarrow> ('c, 'w) MessageLoopTaskQueues res" where
  "SetWakeable tq queue_id w =
     res_bind (GetMutex tq queue_id) (\<lambda>_.
     res_bind (entry_deref tq queue_id) (\<lambda>e.
     res_bind (ff_check (wakeable e = None)) (\<lambda>_.
     res_bind (entry_at tq queue_id) (\<lambda>e'.
       Inr (set_entry tq queue_id (e'\<lparr>wakeable := w\<rparr>))))))"

section \<open>Behaviour of the single operations\<close>

lemma set_entry_simps [simp]:
  "queue_entries (set_entry tq i e) = (queue_entries tq)(tqid_key i \<mapsto> e)"
  "queue_locks (set_entry tq i e) = queue_locks tq"
  "order_counter (set_entry tq i e) = order_counter tq"
  "task_queue_id_counter (set_entry tq i e) = task_queue_id_counter tq"
  "set_entry (set_entry tq i e) i e' = set_entry tq i e'"
  by (simp_all add: set_entry_def)

lemma set_entry_same [simp]: "queue_entries tq (tqid_key i) = Some e \<Longrightarrow> set_entry tq i e = tq"
  by (simp add: set_entry_def fun_upd_idem)

lemma set_entry_tasks_same:
  "queue_entries tq (tqid_key i) = Some e \<Longrightarrow> delayed_tasks e = q \<Longrightarrow>
     set_entry tq i (e\<lparr>delayed_tasks := q\<rparr>) = tq"
  by (auto simp: set_entry_def fun_upd_idem)

lemma GetMutex_simps [simp]:
  "GetMutex tq i = Inr u \<longleftrightarrow> tqid_key i \<in> queue_locks tq"
  "GetMutex tq i = Inl f \<longleftrightarrow> tqid_key i \<notin> queue_locks tq \<and> f = OutOfRange"
  "GetMutex (set_entry tq i' e) i = GetMutex tq i"
  by (auto simp: GetMutex_def)

lemma GetMutex_in [simp]: "tqid_key i \<in> queue_locks tq \<Longrightarrow> GetMutex tq i = Inr ()"
  by simp

definition wakes_for :: "('c, 'w) TaskQueueEntry \<Rightarrow> TimePoint list \<Rightarrow> 'w wakes" where
  "wakes_for e ts = (case wakeable e of None \<Rightarrow> [] | Some w \<Rightarrow> map (Pair w) ts)"

lemma wakes_for_simps [simp]:
  "wakes_for e [] = []"
  "wakes_for e (ts @ us) = wakes_for e ts @ wakes_for e us"
  "wakes_for (e\<lparr>delayed_tasks := q\<rparr>) ts = wakes_for e ts"
  by (auto simp: wakes_for_def split: option.splits)

lemma WakeUpUnlocked_eq [simp]:
  "queue_entries tq (tqid_key i) = Some e \<Longrightarrow> WakeUpUnlocked tq i t = Inr (wakes_for e [t])"
  by (auto simp: WakeUpUnlocked_def wakes_for_def split: option.splits)

lemma HasPendingTasksUnlocked_eq [simp]:
  "queue_entries tq (tqid_key i) = Some e \<Longrightarrow>
     HasPendingTasksUnlocked tq i = Inr (delayed_tasks e \<noteq> [])"
  by (simp add: HasPendingTasksUnlocked_def)

lemma PeekNextTaskUnlocked_eq [simp]:
  "queue_entries tq (tqid_key i) = Some e \<Longrightarrow> delayed_tasks e = t # q \<Longrightarrow>
     PeekNextTaskUnlocked tq i j = Inr (t, i)"
  by (simp add: PeekNextTaskUnlocked_def)

lemma GetNextWakeTimeUnlocked_eq [simp]:
  "queue_entries tq (tqid_key i) = Some e \<Longrightarrow> delayed_tasks e = t # q \<Longrightarrow>
     GetNextWakeTimeUnlocked tq i = Inr (dt_target_time t)"
  by (simp add: GetNextWakeTimeUnlocked_def GetTargetTime_def)

lemma pop_task_eq [simp]:
  "queue_entries tq (tqid_key i) = Some e \<Longrightarrow> delayed_tasks e = t # q \<Longrightarrow>
     pop_task tq i = Inr (set_entry tq i (e\<lparr>delayed_tasks := q\<rparr>))"
  by (simp add: pop_task_def)

text \<open>What the flush loop rearms: after each popped task the next target time, or the end of time
  when the queue ran empty.\<close>

fun rearm_times :: "TimePoint \<Rightarrow> 'c DelayedTaskQueue \<Rightarrow> TimePoint list" where
  "rearm_times now [] = []"
| "rearm_times now (t # q) =
     (if dt_target_time t \<le> now
      then (case q of [] \<Rightarrow> TimePoint_Max | u # _ \<Rightarrow> dt_target_time u) # rearm_times now q
      else [])"

lemma get_tasks_loop_all:
  assumes "queue_entries tq (tqid_key i) = Some e" "delayed_tasks e = q"
  shows "get_tasks_loop tq i FlushAll now ivs wk =
    Inr (set_entry tq i (e\<lparr>delayed_tasks := dropWhile (\<lambda>t. dt_target_time t \<le> now) q\<rparr>),
         ivs @ map dt_task (takeWhile (\<lambda>t. dt_target_time t \<le> now) q),
         wk @ wakes_for e (rearm_times now q))"
  using assms
proof (induction q arbitrary: tq e ivs wk)
  case Nil
  then show ?case
    by (subst get_tasks_loop.simps) (simp add: set_entry_tasks_same)
next
  case (Cons t q)
  show ?case
  proof (cases "dt_target_time t \<le> now")
    case False
    with Cons.prems show ?thesis
      by (subst get_tasks_loop.simps)
        (simp add: GetTargetTime_def set_entry_tasks_same not_le[symmetric] del: not_le)
  next
    case True
    let ?e = "e\<lparr>delayed_tasks := q\<rparr>" and ?tq = "set_entry tq i (e\<lparr>delayed_tasks := q\<rparr>)"
    let ?next = "case q of [] \<Rightarrow> TimePoint_Max | u # _ \<Rightarrow> dt_target_time u"
    have e: "queue_entries ?tq (tqid_key i) = Some ?e" by simp
    have due: "\<not> now < dt_target_time t" using True by simp
    have w: "(if \<not> (q \<noteq> []) then WakeUpUnlocked ?tq i TimePoint_Max
              else res_bind (GetNextWakeTimeUnlocked ?tq i) (WakeUpUnlocked ?tq i))
            = Inr (wakes_for e [?next])"
      by (cases q) auto
    have "get_tasks_loop tq i FlushAll now ivs wk
        = get_tasks_loop ?tq i FlushAll now (ivs @ [dt_task t]) (wk @ wakes_for e [?next])"
      using Cons.prems due w
      by (subst get_tasks_loop.simps) (simp add: GetTargetTime_def GetTask_def)
    also have "\<dots> = Inr (set_entry tq i
          (e\<lparr>delayed_tasks := dropWhile (\<lambda>t. dt_target_time t \<le> now) (t # q)\<rparr>),
         ivs @ map dt_task (takeWhile (\<lambda>t. dt_target_time t \<le> now) (t # q)),
         wk @ wakes_for e (rearm_times now (t # q)))"
      using Cons.IH[OF e] True wakes_for_simps(2)[of e "[?next]" "rearm_times now q"] by simp
    finally show ?thesis .
  qed
qed

lemma get_tasks_loop_single:
  assumes "queue_entries tq (tqid_key i) = Some e"
  shows "get_tasks_loop tq i FlushSingle now ivs wk =
    (case delayed_tasks e of
       [] \<Rightarrow> Inr (tq, ivs, wk)
     | t # q \<Rightarrow> if dt_target_time t \<le> now
               then Inr (set_entry tq i (e\<lparr>delayed_tasks := q\<rparr>), ivs @ [dt_task t], wk)
               else Inr (tq, ivs, wk))"
  using assms
  by (subst get_tasks_loop.simps)
    (auto simp: GetTargetTime_def GetTask_def not_less not_le split: list.splits)

lemma GetTasksToRunNow_all:
  assumes "tqid_key i \<in> queue_locks tq" "queue_entries tq (tqid_key i) = Some e"
  shows "GetTasksToRunNow tq i FlushAll now ivs =
    Inr (set_entry tq i
           (e\<lparr>delayed_tasks := dropWhile (\<lambda>t. dt_target_time t \<le> now) (delayed_tasks e)\<rparr>),
         ivs @ map dt_task (takeWhile (\<lambda>t. dt_target_time t \<le> now) (delayed_tasks e)),
         wakes_for e (rearm_times now (delayed_tasks e)))"
proof (cases "delayed_tasks e = []")
  case True
  then have "e\<lparr>delayed_tasks := []\<rparr> = e" by simp
  with True assms show ?thesis by (simp add: GetTasksToRunNow_def)
next
  case False
  with assms get_tasks_loop_all[OF assms(2) refl, of now ivs "[]"] show ?thesis
    by (simp add: GetTasksToRunNow_def)
qed

lemma GetTasksToRunNow_single:
  assumes "tqid_key i \<in> queue_locks tq" "queue_entries tq (tqid_key i) = Some e"
  shows "GetTasksToRunNow tq i FlushSingle now ivs =
    (case delayed_tasks e of
       [] \<Rightarrow> Inr (tq, ivs, [])
     | t # q \<Rightarrow> if dt_target_time t \<le> now
               then Inr (set_entry tq i (e\<lparr>delayed_tasks := q\<rparr>), ivs @ [dt_task t], [])
               else Inr (tq, ivs, []))"
  using assms get_tasks_loop_single[OF assms(2)]
  by (auto simp: GetTasksToRunNow_def split: list.splits)

text \<open>The task that \<open>RegisterTask\<close> enqueues.\<close>

definition task_for ::
  "('c, 'w) MessageLoopTaskQueues \<Rightarrow> 'c closure \<Rightarrow> TimePoint \<Rightarrow> 'c DelayedTask" where
  "task_for tq c t =
     \<lparr>dt_order = scast (order_counter tq), dt_task = c, dt_target_time = t\<rparr>"

lemma task_for_simps [simp]:
  "dt_task (task_for tq c t) = c" "dt_target_time (task_for tq c t) = t"
  "dt_order (task_for tq c t) = scast (order_counter tq)"
  by (simp_all add: task_for_def)

lemma dtq_push_hd:
  "\<exists>u q'. dtq_push t q = u # q'"
  by (metis dtq_push.elims)

lemma RegisterTask_eq:
  assumes "tqid_key i \<in> queue_locks tq" "queue_entries tq (tqid_key i) = Some e"
  shows "RegisterTask tq i c t now =
    (let q = dtq_push (task_for tq c t) (delayed_tasks e); first = dt_target_time (hd q) in
     if in_int64 (ticks first - ticks now)
     then Inr ((set_entry tq i (e\<lparr>delayed_tasks := q\<rparr>))\<lparr>order_counter := order_counter tq + 1\<rparr>,
               wakes_for e [first])
     else Inl SignedOverflow)"
proof -
  obtain u q' where q: "dtq_push (task_for tq c t) (delayed_tasks e) = u # q'"
    using dtq_push_hd by blast
  then show ?thesis
    using assms
    by (auto simp: RegisterTask_def task_for_def Let_def GetTargetTime_def set_entry_def
        tp_diff_def int64_def WakeUpUnlocked_def wakes_for_def split: option.splits)
qed

lemma RegisterTask_Inr_iff:
  "RegisterTask tq i c t now = Inr (tq', wk) \<longleftrightarrow>
     (\<exists>e. tqid_key i \<in> queue_locks tq \<and> queue_entries tq (tqid_key i) = Some e
        \<and> in_int64 (ticks (dt_target_time (hd (dtq_push (task_for tq c t) (delayed_tasks e))))
                    - ticks now)
        \<and> tq' = (set_entry tq i
                  (e\<lparr>delayed_tasks := dtq_push (task_for tq c t) (delayed_tasks e)\<rparr>))
                \<lparr>order_counter := order_counter tq + 1\<rparr>
        \<and> wk = wakes_for e [dt_target_time (hd (dtq_push (task_for tq c t) (delayed_tasks e)))])"
proof (cases "tqid_key i \<in> queue_locks tq")
  case True
  show ?thesis
  proof (cases "queue_entries tq (tqid_key i)")
    case None
    with True show ?thesis by (simp add: RegisterTask_def Let_def)
  next
    case (Some e)
    with True show ?thesis by (auto simp: RegisterTask_eq Let_def)
  qed
next
  case False
  then show ?thesis by (simp add: RegisterTask_def res_simps)
qed

end
