(* ===== verification/Task_Queue_Laws.thy ===== *)
theory Task_Queue_Laws
  imports Task_Queues
begin

text \<open>
  The invariant of the task-queue registry, the states its operations reach, and the properties
  of \<open>MessageLoopTaskQueues\<close>: delivery in stable target-time order, nothing lost and nothing
  early, wake-ups for the earliest pending task, isolation of the queues, observers, and what
  happens after \<open>Dispose\<close>.
\<close>

section \<open>The registration counter\<close>

text \<open>\<open>order_\<close> is an \<open>atomic_int\<close>; the task stores it as a \<open>size_t\<close>, so the value is sign-extended.
  The stored orders still increase for the first \<open>2^32\<close> registrations.\<close>

definition task_order :: "nat \<Rightarrow> 64 word" where
  "task_order i = scast (word_of_nat i :: 32 word)"

lemma sint_word_of_nat32:
  assumes "i < 2 ^ 32"
  shows "sint (word_of_nat i :: 32 word) = (if i < 2 ^ 31 then int i else int i - 2 ^ 32)"
proof (cases "i < 2 ^ 31")
  case True
  then show ?thesis
    using int_word_sint[of "int i", where 'a = 32] by simp
next
  case False
  have "sint (word_of_nat i :: 32 word) = (int i + 2 ^ 31) mod 2 ^ 32 - 2 ^ 31"
    using int_word_sint[of "int i", where 'a = 32] by simp
  also have "(int i + 2 ^ 31) mod 2 ^ 32 = (int i - 2 ^ 31 + 2 ^ 32) mod 2 ^ 32"
    by (rule arg_cong[of _ _ "\<lambda>x. x mod 2 ^ 32"]) simp
  also have "\<dots> = int i - 2 ^ 31"
    using False assms unfolding mod_add_self2 by (intro mod_pos_pos_trivial) auto
  finally show ?thesis using False by simp
qed

lemma uint_task_order:
  assumes "i < 2 ^ 32"
  shows "uint (task_order i) = (if i < 2 ^ 31 then int i else int i - 2 ^ 32 + 2 ^ 64)"
proof -
  have "uint (task_order i) = sint (word_of_nat i :: 32 word) mod 2 ^ 64"
    unfolding task_order_def scast_eq uint_word_of_int by simp
  also have "\<dots> = (if i < 2 ^ 31 then int i else int i - 2 ^ 32 + 2 ^ 64)"
  proof (cases "i < 2 ^ 31")
    case True
    then show ?thesis by (simp add: sint_word_of_nat32)
  next
    case False
    have "(int i - 2 ^ 32) mod 2 ^ 64 = (int i - 2 ^ 32 + 2 ^ 64) mod 2 ^ 64"
      by (simp only: mod_add_self2)
    also have "\<dots> = int i - 2 ^ 32 + 2 ^ 64"
      using assms by (intro mod_pos_pos_trivial) auto
    finally show ?thesis using assms False by (simp add: sint_word_of_nat32)
  qed
  finally show ?thesis .
qed

lemma task_order_mono: "i < j \<Longrightarrow> j < 2 ^ 32 \<Longrightarrow> task_order i < task_order j"
  using uint_task_order[of i] uint_task_order[of j] by (auto simp: word_less_alt)

lemma ucast_word_of_nat: "ucast (word_of_nat m :: 64 word) = (word_of_nat m :: 32 word)"
  by transfer simp

section \<open>Invariant and reachable states\<close>

text \<open>\<open>n\<close> counts the registrations, \<open>m\<close> the created queues.\<close>

definition entry_inv :: "nat \<Rightarrow> ('c, 'w) TaskQueueEntry \<Rightarrow> bool" where
  "entry_inv n e \<longleftrightarrow> omap_ok (task_observers e) \<and> dtq_ok (delayed_tasks e)
     \<and> (\<forall>t \<in> set (delayed_tasks e). \<exists>i<n. dt_order t = task_order i)"

definition tq_inv :: "nat \<Rightarrow> nat \<Rightarrow> ('c, 'w) MessageLoopTaskQueues \<Rightarrow> bool" where
  "tq_inv n m tq \<longleftrightarrow>
     order_counter tq = word_of_nat n \<and> task_queue_id_counter tq = word_of_nat m
     \<and> queue_locks tq = {word_of_nat j | j. j < m}
     \<and> dom (queue_entries tq) \<subseteq> queue_locks tq
     \<and> (\<forall>k e. queue_entries tq k = Some e \<longrightarrow> entry_inv n e)"

inductive tq_reach :: "nat \<Rightarrow> nat \<Rightarrow> ('c, 'w) MessageLoopTaskQueues \<Rightarrow> bool" where
  start: "tq_reach 0 0 new_MessageLoopTaskQueues"
| create: "tq_reach n m tq \<Longrightarrow> tq_reach n (Suc m) (fst (CreateTaskQueue tq))"
| register: "tq_reach n m tq \<Longrightarrow> RegisterTask tq i c t now = Inr (tq', wk) \<Longrightarrow>
    tq_reach (Suc n) m tq'"
| flush: "tq_reach n m tq \<Longrightarrow> GetTasksToRunNow tq i ty now ivs = Inr (tq', ivs', wk) \<Longrightarrow>
    tq_reach n m tq'"
| dispose: "tq_reach n m tq \<Longrightarrow> Dispose tq i = Inr tq' \<Longrightarrow> tq_reach n m tq'"
| dispose_tasks: "tq_reach n m tq \<Longrightarrow> DisposeTasks tq i = Inr tq' \<Longrightarrow> tq_reach n m tq'"
| add_observer: "tq_reach n m tq \<Longrightarrow> TQ_AddTaskObserver tq i key c = Inr tq' \<Longrightarrow>
    tq_reach n m tq'"
| remove_observer: "tq_reach n m tq \<Longrightarrow> TQ_RemoveTaskObserver tq i key = Inr tq' \<Longrightarrow>
    tq_reach n m tq'"
| set_wakeable: "tq_reach n m tq \<Longrightarrow> SetWakeable tq i w = Inr tq' \<Longrightarrow> tq_reach n m tq'"

lemma tq_inv_entry: "tq_inv n m tq \<Longrightarrow> queue_entries tq k = Some e \<Longrightarrow> entry_inv n e"
  by (simp add: tq_inv_def)

lemma tq_inv_lock: "tq_inv n m tq \<Longrightarrow> queue_entries tq k = Some e \<Longrightarrow> k \<in> queue_locks tq"
  by (auto simp: tq_inv_def)

text \<open>Replacing the entry of a locked queue by one that keeps the entry invariant keeps the whole
  invariant: all operations on one queue go through this.\<close>

lemma tq_inv_set_entry:
  assumes "tq_inv n m tq" "tqid_key i \<in> queue_locks tq" "entry_inv n e"
  shows "tq_inv n m (set_entry tq i e)"
  using assms by (auto simp: tq_inv_def)

lemma entry_inv_new: "entry_inv n new_TaskQueueEntry"
  by (simp add: entry_inv_def new_TaskQueueEntry_def)

lemma entry_inv_Suc: "entry_inv n e \<Longrightarrow> entry_inv (Suc n) e"
  by (auto simp: entry_inv_def less_Suc_eq)

lemma entry_inv_tasks:
  "entry_inv n e \<Longrightarrow> dtq_ok q \<Longrightarrow> set q \<subseteq> set (delayed_tasks e) \<Longrightarrow>
     entry_inv n (e\<lparr>delayed_tasks := q\<rparr>)"
  by (auto simp: entry_inv_def)

lemma dtq_ok_dropWhile: "dtq_ok q \<Longrightarrow> dtq_ok (dropWhile P q)"
  unfolding dtq_ok_def by (metis dropWhile_eq_drop sorted_wrt_drop)

lemma tq_inv_create:
  assumes "tq_inv n m tq"
  shows "tq_inv n (Suc m) (fst (CreateTaskQueue tq))"
proof -
  have key: "tqid_key (TaskQueueId (task_queue_id_counter tq)) = word_of_nat m"
    using assms by (simp add: tqid_key_def tq_inv_def ucast_word_of_nat)
  have "{word_of_nat j | j. j < Suc m} = insert (word_of_nat m) {word_of_nat j | j. j < m}"
    by (auto simp: less_Suc_eq)
  then show ?thesis
    using assms key entry_inv_new
    by (auto simp: tq_inv_def CreateTaskQueue_def Let_def ac_simps)
qed

lemma tq_inv_register:
  assumes "tq_inv n m tq" "RegisterTask tq i c t now = Inr (tq', wk)"
  shows "tq_inv (Suc n) m tq'"
proof -
  obtain e where e: "tqid_key i \<in> queue_locks tq" "queue_entries tq (tqid_key i) = Some e"
    and tq': "tq' = (set_entry tq i
        (e\<lparr>delayed_tasks := dtq_push (task_for tq c t) (delayed_tasks e)\<rparr>))
        \<lparr>order_counter := order_counter tq + 1\<rparr>"
    using assms(2) by (auto simp: RegisterTask_Inr_iff)
  have o: "dt_order (task_for tq c t) = task_order n"
    using assms(1) by (simp add: tq_inv_def task_order_def)
  have "entry_inv (Suc n) (e\<lparr>delayed_tasks := dtq_push (task_for tq c t) (delayed_tasks e)\<rparr>)"
    using tq_inv_entry[OF assms(1) e(2)] o dtq_ok_push
    by (auto simp: entry_inv_def less_Suc_eq)
  then show ?thesis
    using assms(1) e tq' by (auto simp: tq_inv_def intro: entry_inv_Suc)
qed

lemma flush_Inr_entry:
  assumes "GetTasksToRunNow tq i ty now ivs = Inr (tq', ivs', wk)"
  obtains e where "tqid_key i \<in> queue_locks tq" "queue_entries tq (tqid_key i) = Some e"
  using assms by (auto simp: GetTasksToRunNow_def HasPendingTasksUnlocked_def res_simps)

lemma tq_inv_flush:
  assumes "tq_inv n m tq" "GetTasksToRunNow tq i ty now ivs = Inr (tq', ivs', wk)"
  shows "tq_inv n m tq'"
proof -
  obtain e where e: "tqid_key i \<in> queue_locks tq" "queue_entries tq (tqid_key i) = Some e"
    using assms(2) by (rule flush_Inr_entry)
  have ei: "entry_inv n e" using tq_inv_entry[OF assms(1) e(2)] .
  show ?thesis
  proof (cases ty)
    case FlushAll
    have "tq' = set_entry tq i
        (e\<lparr>delayed_tasks := dropWhile (\<lambda>t. dt_target_time t \<le> now) (delayed_tasks e)\<rparr>)"
      using assms(2) FlushAll GetTasksToRunNow_all[OF e] by simp
    with ei show ?thesis
      by (auto simp: entry_inv_def intro!: tq_inv_set_entry[OF assms(1) e(1)] entry_inv_tasks
          dtq_ok_dropWhile dest: set_dropWhileD)
  next
    case FlushSingle
    from assms(2) FlushSingle e have "tq' = tq \<or>
        (\<exists>t q. delayed_tasks e = t # q \<and> tq' = set_entry tq i (e\<lparr>delayed_tasks := q\<rparr>))"
      by (auto simp: GetTasksToRunNow_single split: list.splits if_splits)
    with ei assms(1) show ?thesis
      by (auto simp: entry_inv_def intro!: tq_inv_set_entry[OF assms(1) e(1)] entry_inv_tasks
          dest: dtq_ok_Cons)
  qed
qed

lemma tq_reach_inv: "tq_reach n m tq \<Longrightarrow> tq_inv n m tq"
proof (induction rule: tq_reach.induct)
  case start
  show ?case by (simp add: tq_inv_def new_MessageLoopTaskQueues_def)
next
  case (create n m tq)
  from create.IH show ?case by (rule tq_inv_create)
next
  case (register n m tq i c t now tq' wk)
  from register.IH register.hyps(2) show ?case by (rule tq_inv_register)
next
  case (flush n m tq i ty now ivs tq' ivs' wk)
  from flush.IH flush.hyps(2) show ?case by (rule tq_inv_flush)
next
  case (dispose n m tq i tq')
  then show ?case by (fastforce simp: Dispose_def tq_inv_def res_simps split: if_splits)
next
  case (dispose_tasks n m tq i tq')
  then show ?case
    by (auto simp: DisposeTasks_def res_simps entry_inv_def
        intro!: tq_inv_set_entry dest: tq_inv_entry)
next
  case (add_observer n m tq i key c tq')
  then show ?case
    by (auto simp: TQ_AddTaskObserver_def res_simps entry_inv_def omap_ok_set
        intro!: tq_inv_set_entry dest: tq_inv_entry)
next
  case (remove_observer n m tq i key tq')
  then show ?case
    by (auto simp: TQ_RemoveTaskObserver_def res_simps entry_inv_def omap_ok_erase
        intro!: tq_inv_set_entry dest: tq_inv_entry)
next
  case (set_wakeable n m tq i w tq')
  then show ?case
    by (auto simp: SetWakeable_def res_simps entry_inv_def
        intro!: tq_inv_set_entry dest: tq_inv_entry)
qed

lemma tq_reach_live:
  assumes "tq_reach n m tq" "queue_entries tq (tqid_key i) = Some e"
  shows "dtq_ok (delayed_tasks e)" "tqid_key i \<in> queue_locks tq" "omap_ok (task_observers e)"
  using tq_inv_entry[OF tq_reach_inv[OF assms(1)] assms(2)]
    tq_inv_lock[OF tq_reach_inv[OF assms(1)] assms(2)]
  by (simp_all add: entry_inv_def)

section \<open>Runs of registrations\<close>

text \<open>A sequence of \<open>RegisterTask\<close> calls, to any queues, each with its own clock reading:
  \<open>(queue_id, task, target_time, now)\<close>.\<close>

type_synonym 'c registration = "TaskQueueId \<times> 'c closure \<times> TimePoint \<times> TimePoint"

fun register_all ::
  "('c, 'w) MessageLoopTaskQueues \<Rightarrow> 'c registration list
     \<Rightarrow> ('c, 'w) MessageLoopTaskQueues res" where
  "register_all tq [] = Inr tq"
| "register_all tq ((i, c, t, now) # rs) =
     res_bind (RegisterTask tq i c t now) (\<lambda>(tq', _). register_all tq' rs)"

text \<open>The abstract view of one queue: the closures registered for it, with their target times, in
  registration order.\<close>

definition regs_for :: "TaskQueueId \<Rightarrow> 'c registration list \<Rightarrow> ('c closure \<times> TimePoint) list" where
  "regs_for i rs =
     map (\<lambda>(j, c, t, now). (c, t)) (filter (\<lambda>(j, c, t, now). tqid_key j = tqid_key i) rs)"

lemma regs_for_simps [simp]:
  "regs_for i [] = []"
  "regs_for i ((j, c, t, now) # rs) =
     (if tqid_key j = tqid_key i then (c, t) # regs_for i rs else regs_for i rs)"
  by (auto simp: regs_for_def)

definition clock_ok :: "TimePoint \<Rightarrow> bool" where
  "clock_ok t \<longleftrightarrow> 0 \<le> ticks t \<and> ticks t \<le> int64_max"

definition times_ok :: "('c, 'w) MessageLoopTaskQueues \<Rightarrow> bool" where
  "times_ok tq \<longleftrightarrow> (\<forall>e \<in> ran (queue_entries tq). \<forall>t \<in> set (delayed_tasks e).
     clock_ok (dt_target_time t))"

lemma clock_ok_diff: "clock_ok t \<Longrightarrow> clock_ok u \<Longrightarrow> in_int64 (ticks t - ticks u)"
  by (auto simp: clock_ok_def int64_bounds)

lemma hd_dtq_push_clock_ok:
  "clock_ok (dt_target_time t) \<Longrightarrow> \<forall>u \<in> set q. clock_ok (dt_target_time u) \<Longrightarrow>
     clock_ok (dt_target_time (hd (dtq_push t q)))"
  by (induction t q rule: dtq_push.induct) auto

text \<open>Registering with non-negative times never faults, keeps the time condition, and changes only
  its own queue.\<close>

lemma register_step:
  fixes c :: "'c closure" and tq :: "('c, 'w) MessageLoopTaskQueues"
  assumes "tq_inv n m tq" "times_ok tq" "queue_entries tq (tqid_key i) = Some e"
    and "clock_ok t" "clock_ok now"
  defines "tq' \<equiv> (set_entry tq i
      (e\<lparr>delayed_tasks := dtq_push (task_for tq c t) (delayed_tasks e)\<rparr>))
      \<lparr>order_counter := order_counter tq + 1\<rparr>"
  shows "\<exists>wk. RegisterTask tq i c t now = Inr (tq', wk)" and "times_ok tq'"
proof -
  have l: "tqid_key i \<in> queue_locks tq" using tq_inv_lock[OF assms(1,3)] .
  have old: "\<forall>u \<in> set (delayed_tasks e). clock_ok (dt_target_time u)"
    using assms(2,3) by (auto simp: times_ok_def ran_def)
  have "clock_ok (dt_target_time (hd (dtq_push (task_for tq c t) (delayed_tasks e))))"
    using old assms(4) by (intro hd_dtq_push_clock_ok) auto
  then show "\<exists>wk. RegisterTask tq i c t now = Inr (tq', wk)"
    using l assms(3,5) clock_ok_diff by (auto simp: RegisterTask_Inr_iff tq'_def)
  show "times_ok tq'"
    using assms(2,4) old by (auto simp: times_ok_def tq'_def ran_def)
qed

text \<open>The queue \<open>i\<close> after a registration for any queue \<open>j\<close>: still the stable sort of what was registered for it.\<close>

lemma register_sorted_queue:
  assumes "tq_inv n m tq" "n < 2 ^ 32" "queue_entries tq (tqid_key j) = Some ej"
    and "queue_entries tq (tqid_key i) = Some e" "delayed_tasks e = sort_key dt_target_time ts"
  shows "queue_entries (set_entry tq j (ej\<lparr>delayed_tasks := dtq_push (task_for tq c t) (delayed_tasks ej)\<rparr>))
      (tqid_key i) = Some (e\<lparr>delayed_tasks := sort_key dt_target_time
        (if tqid_key j = tqid_key i then ts @ [task_for tq c t] else ts)\<rparr>)"
proof (cases "tqid_key j = tqid_key i")
  case True
  let ?x = "task_for tq c t"
  have ee: "ej = e" using True assms(3,4) by simp
  have "dt_order ?x = task_order n" using assms(1) by (simp add: tq_inv_def task_order_def)
  then have "\<forall>u \<in> set ts. dt_order u < dt_order ?x" "dtq_ok (sort_key dt_target_time ts)"
    using tq_inv_entry[OF assms(1,4)] assms(2,5) task_order_mono by (auto simp: entry_inv_def)
  then have "dtq_push ?x (delayed_tasks e) = sort_key dt_target_time (ts @ [?x])"
    unfolding assms(5) by (intro dtq_push_sort_key)
  then show ?thesis using True ee by simp
next
  case False
  then show ?thesis using assms(4) assms(5)[symmetric] by simp
qed

lemma register_all_queue:
  assumes "tq_inv n m tq" "times_ok tq"
    and "queue_entries tq (tqid_key i) = Some e"
    and "delayed_tasks e = sort_key dt_target_time ts"
    and "n + length rs \<le> 2 ^ 32"
    and "\<forall>(j, c, t, now) \<in> set rs.
           queue_entries tq (tqid_key j) \<noteq> None \<and> clock_ok t \<and> clock_ok now"
  shows "\<exists>tq' ts'. register_all tq rs = Inr tq' \<and> tq_inv (n + length rs) m tq'
    \<and> queue_entries tq' (tqid_key i) =
        Some (e\<lparr>delayed_tasks := sort_key dt_target_time (ts @ ts')\<rparr>)
    \<and> map (\<lambda>u. (dt_task u, dt_target_time u)) ts' = regs_for i rs"
  using assms
proof (induction rs arbitrary: n tq e ts)
  case Nil
  then have "e\<lparr>delayed_tasks := sort_key dt_target_time (ts @ [])\<rparr> = e" by simp
  with Nil show ?case by (intro exI[of _ tq] exI[of _ "[]"]) simp
next
  case (Cons r rs)
  obtain j c t now where r: "r = (j, c, t, now)" by (cases r) auto
  obtain ej where ej: "queue_entries tq (tqid_key j) = Some ej"
    using Cons.prems(6) r by auto
  have ct: "clock_ok t" "clock_ok now" using Cons.prems(6) r by auto
  let ?x = "task_for tq c t"
  let ?tq = "(set_entry tq j (ej\<lparr>delayed_tasks := dtq_push ?x (delayed_tasks ej)\<rparr>))
      \<lparr>order_counter := order_counter tq + 1\<rparr>"
  obtain wk where reg: "RegisterTask tq j c t now = Inr (?tq, wk)"
    using register_step(1)[OF Cons.prems(1,2) ej ct] by blast
  have inv': "tq_inv (Suc n) m ?tq" using tq_inv_register[OF Cons.prems(1) reg] .
  have times': "times_ok ?tq" using register_step(2)[OF Cons.prems(1,2) ej ct] .
  have live': "\<forall>(j, c, t, now) \<in> set rs.
      queue_entries ?tq (tqid_key j) \<noteq> None \<and> clock_ok t \<and> clock_ok now"
    using Cons.prems(6) by auto
  have len': "Suc n + length rs \<le> 2 ^ 32" using Cons.prems(5) by simp
  define ts1 where "ts1 = (if tqid_key j = tqid_key i then ts @ [?x] else ts)"
  define e1 where "e1 = e\<lparr>delayed_tasks := sort_key dt_target_time ts1\<rparr>"
  have "queue_entries ?tq (tqid_key i) = Some e1"
    using register_sorted_queue[OF Cons.prems(1) _ ej Cons.prems(3,4)] len' by (simp add: e1_def ts1_def)
  from Cons.IH[OF inv' times' this _ len' live', of ts1] obtain tq' ts' where
    IH: "register_all ?tq rs = Inr tq'" "tq_inv (Suc n + length rs) m tq'"
      "queue_entries tq' (tqid_key i) =
        Some (e1\<lparr>delayed_tasks := sort_key dt_target_time (ts1 @ ts')\<rparr>)"
      "map (\<lambda>u. (dt_task u, dt_target_time u)) ts' = regs_for i rs"
    by (auto simp: e1_def)
  show ?case
    using IH r reg
    by (intro exI[of _ tq']
        exI[of _ "if tqid_key j = tqid_key i then ?x # ts' else ts'"]) (auto simp: e1_def ts1_def)
qed

lemma map_sort_key: "map f (sort_key (\<lambda>x. g (f x)) xs) = sort_key g (map f xs)"
proof (induction xs)
  case (Cons x xs)
  have "map f (insort_key (\<lambda>x. g (f x)) x ys) = insort_key g (f x) (map f ys)" for ys
    by (induction ys) auto
  with Cons show ?case by simp
qed simp

lemma takeWhile_due:
  assumes "dtq_ok q"
  shows "takeWhile (\<lambda>t. dt_target_time t \<le> now) q = filter (\<lambda>t. dt_target_time t \<le> now) q"
    and "dropWhile (\<lambda>t. dt_target_time t \<le> now) q = filter (\<lambda>t. \<not> dt_target_time t \<le> now) q"
  using takeWhile_sorted_filter dropWhile_sorted_filter dtq_ok_sorted_target[OF assms] by blast+

lemma map_task_due_sorted:
  fixes ts :: "'c DelayedTask list"
  shows "map dt_task (filter (\<lambda>t. dt_target_time t \<le> now) (sort_key dt_target_time ts)) =
     map fst (sort_key snd (filter (\<lambda>(c, t). t \<le> now)
       (map (\<lambda>u. (dt_task u, dt_target_time u)) ts)))"
proof -
  let ?f = "\<lambda>u. (dt_task u, dt_target_time u)"
  have "sort_key snd (map ?f us) = map ?f (sort_key dt_target_time us)" for us :: "'c DelayedTask list"
    using map_sort_key[of ?f snd us] by simp
  then show ?thesis
    by (simp add: filter_map o_def filter_sort)
qed

section \<open>Properties\<close>

lemmas queue_eval =
  CreateTaskQueue_def new_MessageLoopTaskQueues_def new_TaskQueueEntry_def tqid_key_def
  clock_ok_def int64_max_def

text \<open>(C1) Tasks are delivered in a stable order. After any sequence of registrations (to any
  queues, fewer than \<open>2^32\<close> in the life of the registry, with times at or after the clock's
  zero), every registration succeeds, and flushing a queue that was empty before hands out
  exactly the closures registered for it whose target time has come, sorted by target time,
  and in registration order where target times are equal.\<close>

theorem flush_is_stable_sort:
  assumes "tq_reach n m tq" "times_ok tq"
    and "queue_entries tq (tqid_key i) = Some e" "delayed_tasks e = []"
    and "n + length rs \<le> 2 ^ 32"
    and "\<forall>(j, c, t, now) \<in> set rs.
           queue_entries tq (tqid_key j) \<noteq> None \<and> clock_ok t \<and> clock_ok now"
  shows "\<exists>tq' tq'' wk. register_all tq rs = Inr tq'
    \<and> GetTasksToRunNow tq' i FlushAll now [] =
        Inr (tq'', map fst (sort_key snd (filter (\<lambda>(c, t). t \<le> now) (regs_for i rs))), wk)"
proof -
  from register_all_queue[OF tq_reach_inv[OF assms(1)] assms(2,3), of "[]" rs] assms(4-6)
  obtain tq' ts' where
    1: "register_all tq rs = Inr tq'" "tq_inv (n + length rs) m tq'"
       "queue_entries tq' (tqid_key i) = Some (e\<lparr>delayed_tasks := sort_key dt_target_time ts'\<rparr>)"
       "map (\<lambda>u. (dt_task u, dt_target_time u)) ts' = regs_for i rs"
    by auto
  have "dtq_ok (sort_key dt_target_time ts')"
    using tq_inv_entry[OF 1(2,3)] by (simp add: entry_inv_def)
  with GetTasksToRunNow_all[OF tq_inv_lock[OF 1(2,3)] 1(3), of now "[]"] show ?thesis
    using 1(1) map_task_due_sorted[of now ts'] 1(4) by (auto simp: takeWhile_due)
qed

theorem flush_is_stable_sort_witness:
  "\<exists>tq' tq'' wk.
     register_all (fst (CreateTaskQueue (new_MessageLoopTaskQueues :: (string, nat) MessageLoopTaskQueues)))
       [(TaskQueueId 0, Some ''a'', TimePoint 5, TimePoint 1),
        (TaskQueueId 0, Some ''b'', TimePoint 3, TimePoint 1),
        (TaskQueueId 0, Some ''c'', TimePoint 5, TimePoint 2),
        (TaskQueueId 0, Some ''d'', TimePoint 50, TimePoint 2)] = Inr tq'
     \<and> GetTasksToRunNow tq' (TaskQueueId 0) FlushAll (TimePoint 10) [] =
         Inr (tq'', [Some ''b'', Some ''a'', Some ''c''], wk)"
proof -
  let ?tq = "fst (CreateTaskQueue (new_MessageLoopTaskQueues :: (string, nat) MessageLoopTaskQueues))"
  let ?rs = "[(TaskQueueId 0, Some ''a'', TimePoint 5, TimePoint 1),
        (TaskQueueId 0, Some ''b'', TimePoint 3, TimePoint 1),
        (TaskQueueId 0, Some ''c'', TimePoint 5, TimePoint 2),
        (TaskQueueId 0, Some ''d'', TimePoint 50, TimePoint 2)]"
  have r: "tq_reach 0 1 ?tq"
    using tq_reach.create[OF tq_reach.start] by simp
  have e: "queue_entries ?tq (tqid_key (TaskQueueId 0)) = Some new_TaskQueueEntry"
    "delayed_tasks new_TaskQueueEntry = []"
    by (simp_all add: queue_eval)
  have t: "times_ok ?tq" by (simp add: times_ok_def queue_eval)
  have l: "0 + length ?rs \<le> 2 ^ 32" by simp
  have a: "\<forall>(j, c, t, now) \<in> set ?rs.
      queue_entries ?tq (tqid_key j) \<noteq> None \<and> clock_ok t \<and> clock_ok now"
    by (simp add: queue_eval)
  have s: "map fst (sort_key snd (filter (\<lambda>(c, t). t \<le> TimePoint 10)
      (regs_for (TaskQueueId 0) ?rs))) = [Some ''b'', Some ''a'', Some ''c'']"
    by (simp add: time_simps)
  show ?thesis
    using flush_is_stable_sort[OF r t e l a, of "TimePoint 10"] unfolding s by blast
qed

text \<open>(C10) In every reachable registry a flush of a live queue returns without fault and splits
  its tasks exactly: it appends the closures of all due tasks, in delivery order, to the
  caller's vector; keeps exactly the tasks whose time has not come; and touches no other queue,
  no observer and no wakeable.\<close>

theorem flush_exactly_due:
  assumes "tq_reach n m tq" "queue_entries tq (tqid_key i) = Some e"
  shows "\<exists>tq' wk. GetTasksToRunNow tq i FlushAll now ivs =
      Inr (tq', ivs @ map dt_task (filter (\<lambda>t. dt_target_time t \<le> now) (delayed_tasks e)), wk)
    \<and> queue_entries tq' = (queue_entries tq)(tqid_key i \<mapsto>
        e\<lparr>delayed_tasks := filter (\<lambda>t. \<not> dt_target_time t \<le> now) (delayed_tasks e)\<rparr>)
    \<and> order_counter tq' = order_counter tq"
  using GetTasksToRunNow_all[OF tq_reach_live(2)[OF assms] assms(2), of now ivs]
    tq_reach_live(1)[OF assms]
  by (simp add: takeWhile_due)

text \<open>One registered task, not yet due and then due.\<close>

definition one_task_queue :: "(string, nat) MessageLoopTaskQueues" where
  "one_task_queue =
     \<lparr>queue_entries = [0 \<mapsto> \<lparr>task_observers = [],
        delayed_tasks = [\<lparr>dt_order = 0, dt_task = Some ''a'', dt_target_time = TimePoint 5\<rparr>],
        wakeable = Some 7\<rparr>],
      queue_locks = {0}, task_queue_id_counter = 1, order_counter = 1\<rparr>"

lemma one_task_queue_run:
  "SetWakeable (fst (CreateTaskQueue new_MessageLoopTaskQueues)) (TaskQueueId 0) (Some 7) =
     Inr (one_task_queue\<lparr>queue_entries := [0 \<mapsto> new_TaskQueueEntry\<lparr>wakeable := Some 7\<rparr>],
                         order_counter := 0\<rparr>)"
  "RegisterTask (one_task_queue\<lparr>queue_entries := [0 \<mapsto> new_TaskQueueEntry\<lparr>wakeable := Some 7\<rparr>],
                         order_counter := 0\<rparr>) (TaskQueueId 0) (Some ''a'') (TimePoint 5) (TimePoint 1)
     = Inr (one_task_queue, [(7, TimePoint 5)])"
  by (simp_all add: SetWakeable_def RegisterTask_def one_task_queue_def queue_eval Let_def
      set_entry_def GetMutex_def tp_diff_def int64_def in_int64_def int64_min_def
      GetTargetTime_def WakeUpUnlocked_def)

lemma one_task_queue_reach: "tq_reach 1 1 one_task_queue"
proof -
  have "tq_reach 0 1 (fst (CreateTaskQueue new_MessageLoopTaskQueues))"
    using tq_reach.create[OF tq_reach.start] by simp
  from tq_reach.register[OF tq_reach.set_wakeable[OF this one_task_queue_run(1)]
      one_task_queue_run(2)]
  show ?thesis by simp
qed

theorem flush_exactly_due_witness:
  "\<exists>tq' wk. GetTasksToRunNow one_task_queue (TaskQueueId 0) FlushAll (TimePoint 5) [] =
      Inr (tq', [Some ''a''], wk)"
proof -
  obtain e where e: "queue_entries one_task_queue (tqid_key (TaskQueueId 0)) = Some e"
    "delayed_tasks e = [\<lparr>dt_order = 0, dt_task = Some ''a'', dt_target_time = TimePoint 5\<rparr>]"
    by (simp add: one_task_queue_def queue_eval)
  show ?thesis
    using flush_exactly_due[OF one_task_queue_reach e(1), of "TimePoint 5" "[]"] e(2)
    by (auto simp: time_simps)
qed

text \<open>Registering a task on a queue with a wakeable calls \<open>WakeUp\<close> exactly once, with the
  earliest target time of all tasks then pending on that queue, and adds exactly that one task.\<close>

theorem register_wakes_earliest:
  assumes "tq_reach n m tq" "queue_entries tq (tqid_key i) = Some e" "wakeable e = Some w"
    and "RegisterTask tq i c t now = Inr (tq', wk)"
  shows "\<exists>e'. queue_entries tq' = (queue_entries tq)(tqid_key i \<mapsto> e')
    \<and> mset (delayed_tasks e') = add_mset
        \<lparr>dt_order = scast (order_counter tq), dt_task = c, dt_target_time = t\<rparr>
        (mset (delayed_tasks e))
    \<and> wk = [(w, Min (dt_target_time ` set (delayed_tasks e')))]"
proof -
  let ?q = "dtq_push (task_for tq c t) (delayed_tasks e)"
  have ok: "dtq_ok ?q" using tq_reach_live(1)[OF assms(1,2)] by (rule dtq_ok_push)
  obtain u q' where q: "?q = u # q'" using dtq_push_hd by blast
  have "Min (dt_target_time ` set ?q) = dt_target_time (hd ?q)"
    using dtq_ok_sorted_target[OF ok] unfolding q by (intro Min_eqI) auto
  moreover have "wk = wakes_for e [dt_target_time (hd ?q)]"
    "tq' = (set_entry tq i (e\<lparr>delayed_tasks := ?q\<rparr>))\<lparr>order_counter := order_counter tq + 1\<rparr>"
    using assms(2,4) by (auto simp: RegisterTask_Inr_iff)
  ultimately show ?thesis
    using assms(3) by (intro exI[of _ "e\<lparr>delayed_tasks := ?q\<rparr>"])
      (auto simp: wakes_for_def task_for_def)
qed

theorem register_wakes_earliest_witness:
  "\<exists>tq'. RegisterTask one_task_queue (TaskQueueId 0) (Some ''b'') (TimePoint 3) (TimePoint 1)
     = Inr (tq', [(7, TimePoint 3)])"
proof -
  obtain tq' wk where r: "RegisterTask one_task_queue (TaskQueueId 0) (Some ''b'') (TimePoint 3)
      (TimePoint 1) = Inr (tq', wk)"
    using register_step(1)[OF tq_reach_inv[OF one_task_queue_reach], of "TaskQueueId 0" _
        "TimePoint 3" "TimePoint 1" "Some ''b''"]
    by (auto simp: one_task_queue_def queue_eval times_ok_def)
  obtain e where e: "queue_entries one_task_queue (tqid_key (TaskQueueId 0)) = Some e"
    "wakeable e = Some 7"
    "delayed_tasks e = [\<lparr>dt_order = 0, dt_task = Some ''a'', dt_target_time = TimePoint 5\<rparr>]"
    by (simp add: one_task_queue_def queue_eval)
  from register_wakes_earliest[OF one_task_queue_reach e(1,2) r]
  obtain e' :: "(string, nat) TaskQueueEntry" where
    m: "mset (delayed_tasks e') = add_mset \<lparr>dt_order = scast (order_counter one_task_queue),
        dt_task = Some ''b'', dt_target_time = TimePoint 3\<rparr> (mset (delayed_tasks e))"
    and w: "wk = [(7, Min (dt_target_time ` set (delayed_tasks e')))]"
    by blast
  have "set (delayed_tasks e') = set_mset (mset (delayed_tasks e'))" by simp
  then have "dt_target_time ` set (delayed_tasks e') = {TimePoint 3, TimePoint 5}"
    unfolding m e(3) by simp
  then have "wk = [(7, TimePoint 3)]"
    using w by (simp add: min_def time_simps)
  with r show ?thesis by blast
qed

text \<open>A flush that ran at least one task leaves its wakeable armed for what is left: the last
  \<open>WakeUp\<close> it makes is for the earliest remaining target time, or \<open>TimePoint::Max()\<close> when the
  queue ran empty. A flush that found nothing due makes no call at all.\<close>

theorem flush_rearms_next:
  assumes "tq_reach n m tq" "queue_entries tq (tqid_key i) = Some e" "wakeable e = Some w"
    and "GetTasksToRunNow tq i FlushAll now ivs = Inr (tq', ivs', wk)"
    and "queue_entries tq' (tqid_key i) = Some e'"
  shows "if ivs' = ivs then wk = []
    else wk \<noteq> [] \<and> last wk = (w, if delayed_tasks e' = [] then TimePoint_Max
                              else Min (dt_target_time ` set (delayed_tasks e')))"
proof -
  note live = tq_reach_live[OF assms(1,2)]
  let ?due = "\<lambda>t. dt_target_time t \<le> now"
  let ?rest = "dropWhile ?due (delayed_tasks e)"
  have eq: "tq' = set_entry tq i (e\<lparr>delayed_tasks := ?rest\<rparr>)"
    "ivs' = ivs @ map dt_task (takeWhile ?due (delayed_tasks e))"
    "wk = wakes_for e (rearm_times now (delayed_tasks e))"
    using assms(4) GetTasksToRunNow_all[OF live(2) assms(2)] by auto
  have e': "delayed_tasks e' = ?rest" using assms(5) eq(1) by auto
  have last_rearm: "rearm_times now q \<noteq> [] \<and> last (rearm_times now q) =
      (case dropWhile ?due q of [] \<Rightarrow> TimePoint_Max | u # _ \<Rightarrow> dt_target_time u)"
    if "takeWhile ?due q \<noteq> []" for q :: "'a DelayedTaskQueue"
    using that
  proof (induction q)
    case (Cons t q)
    then show ?case by (cases q) (auto split: if_splits)
  qed simp
  have none: "rearm_times now q = []" if "takeWhile ?due q = []" for q :: "'a DelayedTaskQueue"
    using that by (cases q) (auto split: if_splits)
  have "Min (dt_target_time ` set (u # q)) = dt_target_time u" if "?rest = u # q" for u q
    using dtq_ok_sorted_target[OF dtq_ok_dropWhile[OF live(1), of ?due]] that
    by (intro Min_eqI) auto
  then show ?thesis
    unfolding e'
    using last_rearm[of "delayed_tasks e"] none[of "delayed_tasks e"] eq(2,3) assms(3)
    by (cases ?rest) (auto simp: wakes_for_def last_map simp del: dropWhile_eq_Nil_conv)
qed

theorem flush_rearms_next_witness:
  "\<exists>tq' ivs' wk. GetTasksToRunNow one_task_queue (TaskQueueId 0) FlushAll (TimePoint 5) [] =
     Inr (tq', ivs', wk) \<and> ivs' = [Some ''a''] \<and> wk \<noteq> [] \<and> last wk = (7, TimePoint_Max)"
proof -
  obtain e where e: "queue_entries one_task_queue (tqid_key (TaskQueueId 0)) = Some e"
    "wakeable e = Some 7"
    "delayed_tasks e = [\<lparr>dt_order = 0, dt_task = Some ''a'', dt_target_time = TimePoint 5\<rparr>]"
    by (simp add: one_task_queue_def queue_eval)
  have f: "GetTasksToRunNow one_task_queue (TaskQueueId 0) FlushAll (TimePoint 5) [] =
      Inr (set_entry one_task_queue (TaskQueueId 0) (e\<lparr>delayed_tasks := []\<rparr>), [Some ''a''],
           wakes_for e (rearm_times (TimePoint 5) (delayed_tasks e)))"
    using GetTasksToRunNow_all[OF tq_reach_live(2)[OF one_task_queue_reach e(1)] e(1),
        of "TimePoint 5" "[]"] e(3) by (simp add: time_simps)
  show ?thesis
    using flush_rearms_next[OF one_task_queue_reach e(1,2) f, of "e\<lparr>delayed_tasks := []\<rparr>"] f
    by simp
qed

text \<open>(C35) \<open>CreateTaskQueue\<close> returns an empty queue and leaves every other queue alone. Its key is
  fresh exactly as long as fewer than \<open>2^32\<close> queues have been created: the map key is the id
  converted to \<open>int\<close>, so the queue created next takes over the key of an existing one and
  replaces its tasks, observers and wakeable.\<close>

theorem create_queue_fresh_key:
  assumes "tq_reach n m tq" "CreateTaskQueue tq = (tq', i)"
  shows "(tqid_key i \<in> queue_locks tq \<longleftrightarrow> 2 ^ 32 \<le> m)
    \<and> queue_entries tq' = (queue_entries tq)(tqid_key i \<mapsto> new_TaskQueueEntry)
    \<and> GetNumPendingTasks tq' i = Inr 0 \<and> GetObserversToNotify tq' i = Inr []"
proof -
  have inv: "tq_inv n m tq" using tq_reach_inv assms(1) .
  have key: "tqid_key i = word_of_nat m"
    using inv assms(2)
    by (auto simp: CreateTaskQueue_def tqid_key_def tq_inv_def ucast_word_of_nat Let_def)
  have "(\<exists>j<m. (word_of_nat m :: 32 word) = word_of_nat j) \<longleftrightarrow> 2 ^ 32 \<le> m"
  proof
    assume "\<exists>j<m. (word_of_nat m :: 32 word) = word_of_nat j"
    then obtain j where j: "j < m" "m mod 2 ^ 32 = j mod 2 ^ 32"
      by (auto simp: word_of_nat_eq_iff take_bit_eq_mod)
    show "2 ^ 32 \<le> m"
    proof (rule ccontr)
      assume "\<not> 2 ^ 32 \<le> m"
      with j show False by simp
    qed
  next
    assume h: "2 ^ 32 \<le> m"
    have "m mod 2 ^ 32 < 2 ^ 32" by simp
    with h have "m mod 2 ^ 32 < m" by linarith
    moreover have "(word_of_nat m :: 32 word) = word_of_nat (m mod 2 ^ 32)"
      by (simp add: word_of_nat_eq_iff take_bit_eq_mod)
    ultimately show "\<exists>j<m. (word_of_nat m :: 32 word) = word_of_nat j" by blast
  qed
  then have "tqid_key i \<in> queue_locks tq \<longleftrightarrow> 2 ^ 32 \<le> m"
    using inv key by (auto simp: tq_inv_def)
  then show ?thesis
    using assms(2) by (auto simp: CreateTaskQueue_def Let_def GetNumPendingTasks_def
        GetObserversToNotify_def new_TaskQueueEntry_def)
qed

theorem create_queue_fresh_key_witness:
  "\<exists>(tq' :: (string, nat) MessageLoopTaskQueues) i. CreateTaskQueue one_task_queue = (tq', i)
    \<and> tqid_key i \<notin> queue_locks one_task_queue \<and> GetNumPendingTasks tq' i = Inr 0"
proof -
  obtain tq' i where c: "CreateTaskQueue one_task_queue = (tq', i)" by fastforce
  from create_queue_fresh_key[OF one_task_queue_reach c] c show ?thesis by auto
qed

text \<open>(C34) After \<open>Dispose\<close> a queue is gone but its mutex stays: queries throw
  \<open>std::out_of_range\<close>, while \<open>RegisterTask\<close> and the observer setters, which index with
  \<open>operator[]\<close>, dereference the null entry they just inserted. Disposing again is harmless.\<close>

theorem use_after_dispose:
  assumes "Dispose tq i = Inr tq'"
  shows "RegisterTask tq' i c t now = Inl NullDeref
    \<and> TQ_AddTaskObserver tq' i key (Some o1) = Inl NullDeref
    \<and> TQ_RemoveTaskObserver tq' i key = Inl NullDeref
    \<and> HasPendingTask tq' i = Inl OutOfRange
    \<and> GetTasksToRunNow tq' i ty now ivs = Inl OutOfRange
    \<and> GetNumPendingTasks tq' i = Inl OutOfRange
    \<and> GetObserversToNotify tq' i = Inl OutOfRange
    \<and> DisposeTasks tq' i = Inl OutOfRange
    \<and> Dispose tq' i = Inr tq'"
proof -
  have "tqid_key i \<in> queue_locks tq'" "queue_entries tq' (tqid_key i) = None"
    "(queue_entries tq')(tqid_key i := None) = queue_entries tq'"
    using assms by (auto simp: Dispose_def res_simps split: if_splits)
  then show ?thesis
    by (simp add: RegisterTask_def TQ_AddTaskObserver_def TQ_RemoveTaskObserver_def
        HasPendingTask_def HasPendingTasksUnlocked_def GetTasksToRunNow_def
        GetNumPendingTasks_def GetObserversToNotify_def DisposeTasks_def Dispose_def Let_def)
qed

theorem use_after_dispose_witness:
  "\<exists>tq'. Dispose one_task_queue (TaskQueueId 0) = Inr tq'
     \<and> RegisterTask tq' (TaskQueueId 0) (Some ''a'') (TimePoint 5) (TimePoint 1) = Inl NullDeref"
proof -
  obtain tq' where d: "Dispose one_task_queue (TaskQueueId 0) = Inr tq'"
    by (simp add: Dispose_def one_task_queue_def GetMutex_def tqid_key_def)
  with use_after_dispose[OF d] show ?thesis by blast
qed

text \<open>Observers are notified once per key, in ascending key order, and a later registration
  under the same key replaces the earlier one; adding an observer under a new key and removing
  it again restores the list that will be notified. Adding a null observer aborts.\<close>

theorem observers_by_key:
  assumes "tq_reach n m tq" "queue_entries tq (tqid_key i) = Some e"
  shows "TQ_AddTaskObserver tq i key None = Inl CheckFailed
    \<and> (\<exists>tq' obs. TQ_AddTaskObserver tq i key (Some c) = Inr tq'
        \<and> GetObserversToNotify tq' i = Inr (map snd obs)
        \<and> sorted_wrt (<) (map fst obs)
        \<and> map_of obs = (map_of (task_observers e))(key \<mapsto> Some c)
        \<and> (map_of (task_observers e) key = None \<longrightarrow>
             (\<exists>tq''. TQ_RemoveTaskObserver tq' i key = Inr tq''
               \<and> GetObserversToNotify tq'' i = GetObserversToNotify tq i)))"
proof -
  note live = tq_reach_live[OF assms]
  let ?obs = "omap_set key (Some c) (task_observers e)"
  let ?tq = "set_entry tq i (e\<lparr>task_observers := ?obs\<rparr>)"
  have add: "TQ_AddTaskObserver tq i key (Some c) = Inr ?tq"
    using assms(2) live(2) by (simp add: TQ_AddTaskObserver_def)
  have "GetObserversToNotify ?tq i = Inr (map snd ?obs)"
    using live(2) by (simp add: GetObserversToNotify_def)
  moreover have "sorted_wrt (<) (map fst ?obs)"
    using omap.entries_sorted[OF omap.ok_set[OF live(3)]] .
  moreover have "\<exists>tq''. TQ_RemoveTaskObserver ?tq i key = Inr tq''
      \<and> GetObserversToNotify tq'' i = GetObserversToNotify tq i"
    if "map_of (task_observers e) key = None"
    using live(2) assms(2) omap.entries_set_erase[OF live(3) that]
    by (simp add: TQ_RemoveTaskObserver_def GetObserversToNotify_def)
  moreover have "TQ_AddTaskObserver tq i key None = Inl CheckFailed"
    using live(2) by (simp add: TQ_AddTaskObserver_def)
  moreover have "map_of ?obs = (map_of (task_observers e))(key \<mapsto> Some c)"
    by (rule map_of_omap_set)
  ultimately show ?thesis
    using add by (intro conjI exI[of _ ?tq, OF exI[of _ ?obs]]) simp_all
qed

theorem observers_by_key_witness:
  "\<exists>tq' obs. TQ_AddTaskObserver one_task_queue (TaskQueueId 0) 3 (Some ''o'') = Inr tq'
     \<and> GetObserversToNotify tq' (TaskQueueId 0) = Inr (map snd obs)
     \<and> map_of obs = [(3::int) \<mapsto> Some ''o'']"
proof -
  obtain e where e: "queue_entries one_task_queue (tqid_key (TaskQueueId 0)) = Some e"
    "task_observers e = []"
    by (simp add: one_task_queue_def queue_eval)
  show ?thesis
    using observers_by_key[OF one_task_queue_reach e(1), of 3 "''o''"] e(2) by auto
qed

end
