(* ===== verification/Timer_Fd.thy ===== *)
theory Timer_Fd
  imports Time_Types
begin

text \<open>
  \<open>source/base/platform/linux/timerfd.cpp\<close>: \<open>TimerRearm\<close> programs a timer descriptor to an absolute
  \<open>TimePoint\<close>, \<open>TimerDrain\<close> reads its expiration count. The kernel's \<open>timerfd_settime\<close> and \<open>read\<close> are
  not part of the sources: the specification that \<open>TimerRearm\<close> passes is computed here, and the
  return values of the two calls are arguments.

  The lemmas show for which time points the programmed instant is the requested one.
\<close>

definition NSEC_PER_SEC :: int where
  "NSEC_PER_SEC = 1000000000"

record itimerspec =
  it_interval :: timespec
  it_value :: timespec

text \<open>The conversion of the nanosecond count to \<open>uint64_t\<close> is modulo \<open>2\<^sup>6\<^sup>4\<close>; the quotient is below
  \<open>2\<^sup>6\<^sup>3\<close>, so the cast to \<open>time_t\<close> keeps it.\<close>

definition rearm_spec :: "TimePoint \<Rightarrow> itimerspec" where
  "rearm_spec time_point =
     (let nano_secs = (word_of_int (ToNanoseconds (ToEpochDelta time_point)) :: 64 word);
          v = \<lparr>tv_sec = uint (nano_secs div word_of_int NSEC_PER_SEC),
               tv_nsec = uint (nano_secs mod word_of_int NSEC_PER_SEC)\<rparr>
      in \<lparr>it_interval = v, it_value = v\<rparr>)"

definition TimerRearm :: "(itimerspec \<Rightarrow> int) \<Rightarrow> TimePoint \<Rightarrow> bool \<times> itimerspec" where
  "TimerRearm timerfd_settime time_point =
     (let spec = rearm_spec time_point; r = timerfd_settime spec in (r = 0, spec))"

definition TimerDrain :: "int \<Rightarrow> 64 word \<Rightarrow> bool" where
  "TimerDrain sz fire_count = (if sz \<noteq> 8 then False else fire_count > 0)"

section \<open>What the kernel does with a specification\<close>

text \<open>\<open>timerfd_settime\<close> with \<open>TFD_TIMER_ABSTIME\<close>, as its manual page documents it: a zero
  \<open>it_value\<close> disarms the timer, otherwise it first expires at that absolute time.\<close>

definition spec_expiry :: "itimerspec \<Rightarrow> int option" where
  "spec_expiry spec =
     (if tv_sec (it_value spec) = 0 \<and> tv_nsec (it_value spec) = 0 then None
      else Some (tv_sec (it_value spec) * NSEC_PER_SEC + tv_nsec (it_value spec)))"

text \<open>What a message loop needs of its timer: programming it to a time in its range makes it expire
  then, and a later target makes it expire later.\<close>

locale alarm_clock =
  fixes program :: "TimePoint \<Rightarrow> 's"
    and expiry :: "'s \<Rightarrow> int option"
    and in_range :: "TimePoint \<Rightarrow> bool"
  assumes expires_at: "in_range t \<Longrightarrow> expiry (program t) = Some (ticks t)"
begin

lemma due_when_expired:
  assumes "in_range t" "expiry (program t) = Some x" "x \<le> ticks now"
  shows "t \<le> now"
  using expires_at[OF assms(1)] assms(2,3) by (simp add: less_eq_TimePoint_def)

lemma not_expired_before:
  assumes "in_range t" "ticks now < ticks t"
  shows "\<exists>x. expiry (program t) = Some x \<and> ticks now < x"
  using expires_at[OF assms(1)] assms(2) by simp

end

lemma rearm_spec_nonneg:
  assumes "tp_wf t" "0 \<le> ticks t"
  shows "rearm_spec t = (let v = \<lparr>tv_sec = ticks t div NSEC_PER_SEC, tv_nsec = ticks t mod NSEC_PER_SEC\<rparr>
    in \<lparr>it_interval = v, it_value = v\<rparr>)"
proof -
  have t: "ticks t mod 18446744073709551616 = ticks t"
    using assms by (intro mod_pos_pos_trivial) (auto simp: tp_wf_def int64_bounds)
  then show ?thesis
    by (simp add: rearm_spec_def ToEpochDelta_def ToNanoseconds_def FromNanoseconds_def NSEC_PER_SEC_def
        uint_div_distrib uint_mod_distrib uint_word_of_int Let_def)
qed

definition timer_range :: "TimePoint \<Rightarrow> bool" where
  "timer_range t \<longleftrightarrow> tp_wf t \<and> 0 < ticks t"

lemma spec_expiry_pos:
  assumes "timer_range t"
  shows "spec_expiry (rearm_spec t) = Some (ticks t)"
proof -
  have t: "tp_wf t" "0 < ticks t" using assms by (auto simp: timer_range_def)
  have "ticks t div NSEC_PER_SEC * NSEC_PER_SEC + ticks t mod NSEC_PER_SEC = ticks t"
    by (rule div_mult_mod_eq)
  moreover from this have "\<not> (ticks t div NSEC_PER_SEC = 0 \<and> ticks t mod NSEC_PER_SEC = 0)"
    using t(2) by (metis add_0 less_irrefl mult_zero_left)
  ultimately show ?thesis using t by (simp add: rearm_spec_nonneg spec_expiry_def Let_def)
qed

interpretation timer: alarm_clock rearm_spec spec_expiry timer_range
  by standard (rule spec_expiry_pos)

text \<open>A negative count becomes a time after every representable one.\<close>

lemma spec_expiry_neg:
  assumes "tp_wf t" "ticks t < 0"
  shows "spec_expiry (rearm_spec t) = Some (ticks t + 2 ^ 64)"
proof -
  let ?n = "ticks t + 2 ^ 64"
  have "(ticks t + 2 ^ 64) mod 2 ^ 64 = ?n"
    using assms by (intro mod_pos_pos_trivial) (auto simp: tp_wf_def int64_bounds)
  then have n: "ticks t mod 18446744073709551616 = ?n"
    by simp
  have pos: "0 < ?n" using assms by (auto simp: tp_wf_def int64_bounds)
  have "?n div NSEC_PER_SEC * NSEC_PER_SEC + ?n mod NSEC_PER_SEC = ?n"
    by (rule div_mult_mod_eq)
  moreover from this have "\<not> (?n div NSEC_PER_SEC = 0 \<and> ?n mod NSEC_PER_SEC = 0)"
    using pos by (metis add_0 less_irrefl mult_zero_left)
  ultimately show ?thesis
    using n by (simp add: rearm_spec_def ToEpochDelta_def ToNanoseconds_def FromNanoseconds_def
        spec_expiry_def uint_div_distrib uint_mod_distrib uint_word_of_int Let_def NSEC_PER_SEC_def)
qed

section \<open>Properties\<close>

text \<open>\<open>TimerRearm\<close> reports success exactly when the kernel accepts the specification, which is
  always normalised (nanoseconds below one second, no negative field). For a time point after the
  epoch of the clock the timer then expires exactly at that time; the epoch itself disarms the timer,
  and a time point before it is programmed \<open>2\<^sup>6\<^sup>4\<close> nanoseconds too late.\<close>

theorem timer_rearm_expiry:
  assumes "tp_wf t" "TimerRearm settime t = (ok, spec)"
  shows "(ok \<longleftrightarrow> settime spec = 0)
    \<and> 0 \<le> tv_sec (it_value spec) \<and> 0 \<le> tv_nsec (it_value spec) \<and> tv_nsec (it_value spec) < NSEC_PER_SEC
    \<and> spec_expiry spec =
        (if ticks t > 0 then Some (ticks t) else if ticks t = 0 then None else Some (ticks t + 2 ^ 64))"
proof -
  have spec: "spec = rearm_spec t" "ok \<longleftrightarrow> settime spec = 0"
    using assms(2) by (auto simp: TimerRearm_def Let_def)
  have "tv_nsec (it_value spec) < NSEC_PER_SEC" "0 \<le> tv_sec (it_value spec)" "0 \<le> tv_nsec (it_value spec)"
    using spec(1) by (auto simp: rearm_spec_def Let_def uint_mod_distrib NSEC_PER_SEC_def)
  moreover have "spec_expiry spec =
      (if ticks t > 0 then Some (ticks t) else if ticks t = 0 then None else Some (ticks t + 2 ^ 64))"
  proof (cases "ticks t" "0 :: int" rule: linorder_cases)
    case less
    with spec_expiry_neg[OF assms(1)] spec(1) show ?thesis by simp
  next
    case equal
    then show ?thesis
      using rearm_spec_nonneg[OF assms(1)] spec(1) by (simp add: spec_expiry_def Let_def)
  next
    case greater
    with timer.expires_at[of t] assms(1) spec(1) show ?thesis by (simp add: timer_range_def)
  qed
  ultimately show ?thesis using spec(2) by blast
qed

theorem timer_rearm_expiry_witness:
  "spec_expiry (snd (TimerRearm (\<lambda>_. 0) (TimePoint 5))) = Some 5
   \<and> spec_expiry (snd (TimerRearm (\<lambda>_. 0) (TimePoint 0))) = None"
  using timer_rearm_expiry[of "TimePoint 5" "\<lambda>_. 0" True "rearm_spec (TimePoint 5)"]
    timer_rearm_expiry[of "TimePoint 0" "\<lambda>_. 0" True "rearm_spec (TimePoint 0)"]
  by (simp add: tp_wf_def int64_bounds TimerRearm_def Let_def)

end
