(* ===== verification/Message_Loop.thy ===== *)
theory Message_Loop
  imports Task_Queue_Laws Timer_Fd
begin

text \<open>
  The message loop of a thread: \<open>MessageLoopImpl\<close> (\<open>message_loop_impl.h\<close>, \<open>.cpp\<close>), its Linux backend
  \<open>MessageLoopImplLinux\<close> (\<open>message_loop_impl_linux.cpp\<close>), \<open>MessageLoop\<close> (\<open>message_loop.cpp\<close>) and
  \<open>TaskRunner\<close> (\<open>task_runner.cpp\<close>).

  The state of the process holds the task-queue registry, the loops by number (a \<open>Wakeable*\<close> is the
  number of a loop), the thread-local loop of each thread, and the client's own state. What the system
  returns is part of the state or an argument: \<open>clock\<close> gives the successive readings of
  \<open>TimePoint::Now()\<close>, \<open>settime\<close> the return value of \<open>timerfd_settime\<close>, and \<open>RunForTime\<close> takes the list
  of responses of its \<open>epoll_wait\<close> calls; where that list ends the loop is blocked in the call. A
  closure is a client's code, so running one is the argument \<open>call\<close>.
\<close>

section \<open>State\<close>

record MessageLoopImpl =
  queue_id :: TaskQueueId
  terminated :: bool
  running :: bool
  timer_fd :: "itimerspec option"   \<comment> \<open>the specification last accepted by the kernel\<close>

record ('c, 'u) process =
  queues :: "('c, nat) MessageLoopTaskQueues"
  loops :: "nat \<rightharpoonup> MessageLoopImpl"
  num_loops :: nat
  tls_message_loop :: "nat \<rightharpoonup> nat"
  clock :: "nat \<Rightarrow> int"
  clock_reads :: nat
  settime :: "itimerspec \<Rightarrow> int"
  user :: 'u

definition Now :: "('c, 'u) process \<Rightarrow> TimePoint \<times> ('c, 'u) process" where
  "Now p = (TimePoint_Now (clock p (clock_reads p)), p\<lparr>clock_reads := clock_reads p + 1\<rparr>)"

definition set_loop :: "('c, 'u) process \<Rightarrow> nat \<Rightarrow> MessageLoopImpl \<Rightarrow> ('c, 'u) process" where
  "set_loop p l lp = p\<lparr>loops := (loops p)(l \<mapsto> lp)\<rparr>"

abbreviation loop_deref :: "('c, 'u) process \<Rightarrow> nat \<Rightarrow> MessageLoopImpl res" where
  "loop_deref p l \<equiv> map_deref (loops p) l"

section \<open>Wake-ups\<close>

text \<open>\<open>MessageLoopImplLinux::WakeUp\<close>, and the calls an operation on the registry makes.\<close>

definition WakeUp :: "('c, 'u) process \<Rightarrow> nat \<Rightarrow> TimePoint \<Rightarrow> ('c, 'u) process res" where
  "WakeUp p l time_point =
     res_bind (loop_deref p l) (\<lambda>lp.
       case TimerRearm (settime p) time_point of (ok, spec) \<Rightarrow>
         res_bind (ff_check ok) (\<lambda>_. Inr (set_loop p l (lp\<lparr>timer_fd := Some spec\<rparr>))))"

fun wake_all :: "('c, 'u) process \<Rightarrow> nat wakes \<Rightarrow> ('c, 'u) process res" where
  "wake_all p [] = Inr p"
| "wake_all p ((l, t) # ws) = res_bind (WakeUp p l t) (\<lambda>p. wake_all p ws)"

section \<open>Life cycle\<close>

text \<open>The Linux backend's constructor creates the two descriptors and adds the timer to the epoll set, the destructor
  removes it; \<open>ctl_result\<close> is what \<open>epoll_ctl\<close> returns.\<close>

definition AddOrRemoveTimerSource :: "int \<Rightarrow> bool" where
  [simp]: "AddOrRemoveTimerSource ctl_result \<longleftrightarrow> ctl_result = 0"

definition MessageLoopImplLinux_init :: "int \<Rightarrow> int \<Rightarrow> int \<Rightarrow> unit res" where
  [simp]: "MessageLoopImplLinux_init epoll_fd timerfd ctl_result =
     res_bind (ff_check (epoll_fd \<ge> 0)) (\<lambda>_.
     res_bind (ff_check (timerfd \<ge> 0)) (\<lambda>_. ff_check (AddOrRemoveTimerSource ctl_result)))"

definition MessageLoopImplLinux_finish :: "int \<Rightarrow> unit res" where
  [simp]: "MessageLoopImplLinux_finish ctl_result = ff_check (AddOrRemoveTimerSource ctl_result)"

text \<open>\<open>MessageLoopImpl::Create\<close> on Linux: the base constructor registers a queue and itself as its wakeable, then the
  derived one runs. \<open>running_\<close> has no initialiser; \<open>RunForTime\<close> sets it before it is read.\<close>

definition Create ::
  "('c, 'u) process \<Rightarrow> int \<Rightarrow> int \<Rightarrow> int \<Rightarrow> (nat \<times> ('c, 'u) process) res" where
  "Create p epoll_fd timerfd ctl_result =
     (case CreateTaskQueue (queues p) of (tq, qid) \<Rightarrow>
        let l = num_loops p in
        res_bind (SetWakeable tq qid (Some l)) (\<lambda>tq.
        res_bind (MessageLoopImplLinux_init epoll_fd timerfd ctl_result) (\<lambda>_.
          Inr (l, p\<lparr>queues := tq, num_loops := l + 1,
                    loops := (loops p)(l \<mapsto> \<lparr>queue_id = qid, terminated = False, running = False,
                                             timer_fd = None\<rparr>)\<rparr>))))"

text \<open>The destructors, the derived one first.\<close>

definition MessageLoopImpl_destroy ::
  "('c, 'u) process \<Rightarrow> nat \<Rightarrow> int \<Rightarrow> ('c, 'u) process res" where
  "MessageLoopImpl_destroy p l ctl_result =
     res_bind (loop_deref p l) (\<lambda>lp.
     res_bind (MessageLoopImplLinux_finish ctl_result) (\<lambda>_.
     res_bind (Dispose (queues p) (queue_id lp)) (\<lambda>tq.
       Inr (p\<lparr>queues := tq, loops := (loops p)(l := None)\<rparr>))))"

section \<open>Tasks and observers\<close>

definition PostTask ::
  "('c, 'u) process \<Rightarrow> nat \<Rightarrow> 'c closure \<Rightarrow> TimePoint \<Rightarrow> ('c, 'u) process res" where
  "PostTask p l task target_time =
     res_bind (loop_deref p l) (\<lambda>lp.
     res_bind (ff_check (task \<noteq> None)) (\<lambda>_.
       if terminated lp then Inr p
       else case Now p of (now, p) \<Rightarrow>
         res_bind (RegisterTask (queues p) (queue_id lp) task target_time now) (\<lambda>(tq, wk).
           wake_all (p\<lparr>queues := tq\<rparr>) wk)))"

definition GetCurrent :: "('c, 'u) process \<Rightarrow> nat \<Rightarrow> nat res" where
  "GetCurrent p th =
     (case tls_message_loop p th of None \<Rightarrow> Inl CheckFailed | Some l \<Rightarrow> Inr l)"

definition AddTaskObserver ::
  "('c, 'u) process \<Rightarrow> nat \<Rightarrow> nat \<Rightarrow> int \<Rightarrow> 'c closure \<Rightarrow> ('c, 'u) process res" where
  "AddTaskObserver p th l key callback =
     res_bind (loop_deref p l) (\<lambda>lp.
     res_bind (ff_check (callback \<noteq> None)) (\<lambda>_.
     res_bind (GetCurrent p th) (\<lambda>cur.
     res_bind (ff_check (cur = l)) (\<lambda>_.
       if callback \<noteq> None
       then res_bind (TQ_AddTaskObserver (queues p) (queue_id lp) key callback) (\<lambda>tq.
              Inr (p\<lparr>queues := tq\<rparr>))
       else Inr p))))"

definition RemoveTaskObserver ::
  "('c, 'u) process \<Rightarrow> nat \<Rightarrow> nat \<Rightarrow> int \<Rightarrow> ('c, 'u) process res" where
  "RemoveTaskObserver p th l key =
     res_bind (loop_deref p l) (\<lambda>lp.
     res_bind (GetCurrent p th) (\<lambda>cur.
     res_bind (ff_check (cur = l)) (\<lambda>_.
     res_bind (TQ_RemoveTaskObserver (queues p) (queue_id lp) key) (\<lambda>tq.
       Inr (p\<lparr>queues := tq\<rparr>)))))"

section \<open>Running tasks\<close>

type_synonym ('c, 'u) caller = "'c \<Rightarrow> ('c, 'u) process \<Rightarrow> ('c, 'u) process res"

definition invoke :: "('c, 'u) caller \<Rightarrow> 'c closure \<Rightarrow> ('c, 'u) process \<Rightarrow> ('c, 'u) process res" where
  "invoke call c p = (case c of None \<Rightarrow> Inl BadFunctionCall | Some f \<Rightarrow> call f p)"

fun invoke_all ::
  "('c, 'u) caller \<Rightarrow> 'c closure list \<Rightarrow> ('c, 'u) process \<Rightarrow> ('c, 'u) process res" where
  "invoke_all call [] p = Inr p"
| "invoke_all call (c # cs) p = res_bind (invoke call c p) (invoke_all call cs)"

text \<open>\<open>FlushTasks\<close>: first everything that is due leaves the queue, then each task runs, followed by
  the observers registered at that moment.\<close>

fun run_invocations ::
  "('c, 'u) caller \<Rightarrow> TaskQueueId \<Rightarrow> 'c closure list \<Rightarrow> ('c, 'u) process \<Rightarrow> ('c, 'u) process res" where
  "run_invocations call qid [] p = Inr p"
| "run_invocations call qid (c # cs) p =
     res_bind (invoke call c p) (\<lambda>p.
     res_bind (GetObserversToNotify (queues p) qid) (\<lambda>observers.
     res_bind (invoke_all call observers p) (run_invocations call qid cs)))"

text \<open>The clock is read once for \<open>GetTasksToRunNow\<close>; the function itself reads it after it has found that tasks are pending, so
  on an empty queue the reading here is one that the code leaves out.\<close>

definition grab_tasks ::
  "('c, 'u) process \<Rightarrow> TaskQueueId \<Rightarrow> FlushType \<Rightarrow> ('c closure list \<times> ('c, 'u) process) res" where
  "grab_tasks p qid type =
     (case Now p of (now, p) \<Rightarrow>
        res_bind (GetTasksToRunNow (queues p) qid type now []) (\<lambda>(tq, invocations, wk).
        res_bind (wake_all (p\<lparr>queues := tq\<rparr>) wk) (\<lambda>p. Inr (invocations, p))))"

definition FlushTasks ::
  "('c, 'u) caller \<Rightarrow> ('c, 'u) process \<Rightarrow> nat \<Rightarrow> FlushType \<Rightarrow> ('c, 'u) process res" where
  "FlushTasks call p l type =
     res_bind (loop_deref p l) (\<lambda>lp.
     res_bind (grab_tasks p (queue_id lp) type) (\<lambda>(invocations, p).
       run_invocations call (queue_id lp) invocations p))"

definition RunExpiredTasksNow ::
  "('c, 'u) caller \<Rightarrow> ('c, 'u) process \<Rightarrow> nat \<Rightarrow> ('c, 'u) process res" where
  "RunExpiredTasksNow call p l = FlushTasks call p l FlushAll"

definition RunSingleExpiredTaskNow ::
  "('c, 'u) caller \<Rightarrow> ('c, 'u) process \<Rightarrow> nat \<Rightarrow> ('c, 'u) process res" where
  "RunSingleExpiredTaskNow call p l = FlushTasks call p l FlushSingle"

section \<open>The Linux loop\<close>

text \<open>One return of \<open>epoll_wait\<close>: the error bits of the event, the result, whether \<open>errno\<close> is
  \<open>EINTR\<close>, whether the event's descriptor is the timer, what \<open>read\<close> on the timer then returns, and the
  closures other threads ran while this one was blocked.\<close>

record 'c epoll_response =
  ev_error :: bool
  epoll_result :: int
  errno_eintr :: bool
  ev_is_timer :: bool
  read_size :: int
  read_count :: "64 word"
  others :: "'c list"

definition OnEventFired ::
  "('c, 'u) caller \<Rightarrow> ('c, 'u) process \<Rightarrow> nat \<Rightarrow> 'c epoll_response \<Rightarrow> ('c, 'u) process res" where
  "OnEventFired call p l r =
     (if TimerDrain (read_size r) (read_count r) then RunExpiredTasksNow call p l else Inr p)"

definition set_running :: "('c, 'u) process \<Rightarrow> nat \<Rightarrow> bool \<Rightarrow> ('c, 'u) process res" where
  "set_running p l b = res_bind (loop_deref p l) (\<lambda>lp. Inr (set_loop p l (lp\<lparr>running := b\<rparr>)))"

text \<open>The \<open>int\<close> that \<open>epoll_wait\<close> receives as its timeout.\<close>

definition epoll_timeout :: "int \<Rightarrow> int" where
  "epoll_timeout left_milliseconds = sint (word_of_int left_milliseconds :: 32 word)"

text \<open>The \<open>while\<close> loop; the result says whether it was left (\<open>True\<close>) or is blocked (\<open>False\<close>).\<close>

fun run_loop ::
  "('c, 'u) caller \<Rightarrow> nat \<Rightarrow> TimePoint \<Rightarrow> int \<Rightarrow> 'c epoll_response list \<Rightarrow> ('c, 'u) process
     \<Rightarrow> (bool \<times> ('c, 'u) process) res" where
  "run_loop call l start_time left_milliseconds [] p =
     res_bind (loop_deref p l) (\<lambda>lp. Inr (\<not> running lp, p))"
| "run_loop call l start_time left_milliseconds (r # rs) p =
     res_bind (loop_deref p l) (\<lambda>lp.
     if \<not> running lp then Inr (True, p) else
     res_bind (invoke_all call (map Some (others r)) p) (\<lambda>p.
     if ev_error r \<or> (epoll_result r \<noteq> 1 \<and> \<not> errno_eintr r)
     then res_bind (set_running p l False) (\<lambda>p. run_loop call l start_time left_milliseconds rs p)
     else
     res_bind (if ev_is_timer r then OnEventFired call p l r else Inr p) (\<lambda>p.
     case Now p of (now, p) \<Rightarrow>
     res_bind (tp_diff now start_time) (\<lambda>d.
     res_bind (int64 (left_milliseconds - ToMilliseconds d)) (\<lambda>left_milliseconds.
     res_bind (if left_milliseconds \<le> 0 then set_running p l False else Inr p) (\<lambda>p.
       run_loop call l start_time left_milliseconds rs p))))))"

definition RunForTime ::
  "('c, 'u) caller \<Rightarrow> ('c, 'u) process \<Rightarrow> nat \<Rightarrow> TimeDelta \<Rightarrow> 'c epoll_response list
     \<Rightarrow> (bool \<times> ('c, 'u) process) res" where
  "RunForTime call p l duration rs =
     res_bind (set_running p l True) (\<lambda>p.
     case Now p of (start_time, p) \<Rightarrow> run_loop call l start_time (ToMilliseconds duration) rs p)"

definition Run ::
  "('c, 'u) caller \<Rightarrow> ('c, 'u) process \<Rightarrow> nat \<Rightarrow> 'c epoll_response list
     \<Rightarrow> (bool \<times> ('c, 'u) process) res" where
  "Run call p l rs = RunForTime call p l TimeDelta_Max rs"

definition Terminate :: "('c, 'u) process \<Rightarrow> nat \<Rightarrow> ('c, 'u) process res" where
  "Terminate p l =
     res_bind (set_running p l False) (\<lambda>p.
     case Now p of (now, p) \<Rightarrow> WakeUp p l now)"

definition DisposeTasks_of :: "('c, 'u) process \<Rightarrow> nat \<Rightarrow> ('c, 'u) process res" where
  "DisposeTasks_of p l =
     res_bind (loop_deref p l) (\<lambda>lp.
     res_bind (DisposeTasks (queues p) (queue_id lp)) (\<lambda>tq. Inr (p\<lparr>queues := tq\<rparr>)))"

definition set_terminated :: "('c, 'u) process \<Rightarrow> nat \<Rightarrow> ('c, 'u) process res" where
  "set_terminated p l = res_bind (loop_deref p l) (\<lambda>lp. Inr (set_loop p l (lp\<lparr>terminated := True\<rparr>)))"

definition DoRun ::
  "('c, 'u) caller \<Rightarrow> ('c, 'u) process \<Rightarrow> nat \<Rightarrow> 'c epoll_response list
     \<Rightarrow> (bool \<times> ('c, 'u) process) res" where
  "DoRun call p l rs =
     res_bind (loop_deref p l) (\<lambda>lp.
     if terminated lp then Inr (True, p) else
     res_bind (Run call p l rs) (\<lambda>(finished, p).
     if \<not> finished then Inr (False, p) else
     res_bind (set_terminated p l) (\<lambda>p.
     res_bind (RunExpiredTasksNow call p l) (\<lambda>p.
     res_bind (DisposeTasks_of p l) (\<lambda>p. Inr (True, p))))))"

definition DoRunForTime ::
  "('c, 'u) caller \<Rightarrow> ('c, 'u) process \<Rightarrow> nat \<Rightarrow> TimeDelta \<Rightarrow> 'c epoll_response list
     \<Rightarrow> (bool \<times> ('c, 'u) process) res" where
  "DoRunForTime call p l delay rs =
     res_bind (loop_deref p l) (\<lambda>lp.
     if terminated lp then Inr (True, p) else
     res_bind (RunForTime call p l delay rs) (\<lambda>(finished, p).
     if \<not> finished then Inr (False, p) else
     res_bind (RunExpiredTasksNow call p l) (\<lambda>p.
     res_bind (DisposeTasks_of p l) (\<lambda>p. Inr (True, p)))))"

definition DoTerminate :: "('c, 'u) process \<Rightarrow> nat \<Rightarrow> ('c, 'u) process res" where
  "DoTerminate p l = res_bind (set_terminated p l) (\<lambda>p. Terminate p l)"

section \<open>MessageLoop\<close>

text \<open>A \<open>MessageLoop\<close> holds its implementation and one task runner for it; both are the number of the loop here. The
  constructor checks both pointers, which are not null on Linux.\<close>

definition MessageLoop_create ::
  "('c, 'u) process \<Rightarrow> int \<Rightarrow> int \<Rightarrow> int \<Rightarrow> (nat \<times> ('c, 'u) process) res" where
  [simp]: "MessageLoop_create p epoll_fd timerfd ctl_result = Create p epoll_fd timerfd ctl_result"

definition EnsureInitializedForCurrentThread ::
  "('c, 'u) process \<Rightarrow> nat \<Rightarrow> int \<Rightarrow> int \<Rightarrow> int \<Rightarrow> ('c, 'u) process res" where
  "EnsureInitializedForCurrentThread p th epoll_fd timerfd ctl_result =
     (if tls_message_loop p th \<noteq> None then Inr p
      else res_bind (MessageLoop_create p epoll_fd timerfd ctl_result) (\<lambda>(l, p).
             Inr (p\<lparr>tls_message_loop := (tls_message_loop p)(th \<mapsto> l)\<rparr>)))"

definition IsInitializedForCurrentThread :: "('c, 'u) process \<Rightarrow> nat \<Rightarrow> bool" where
  "IsInitializedForCurrentThread p th \<longleftrightarrow> tls_message_loop p th \<noteq> None"

definition GetCurrentTaskQueueId :: "('c, 'u) process \<Rightarrow> nat \<Rightarrow> TaskQueueId res" where
  "GetCurrentTaskQueueId p th =
     (case tls_message_loop p th of
        None \<Rightarrow> Inl CheckFailed
      | Some l \<Rightarrow> res_bind (loop_deref p l) (\<lambda>lp. Inr (queue_id lp)))"

definition GetLoopImpl :: "nat \<Rightarrow> nat" where
  "GetLoopImpl loop = loop"

definition GetTaskRunner :: "nat \<Rightarrow> nat" where
  "GetTaskRunner loop = GetLoopImpl loop"

definition MessageLoop_Run ::
  "('c, 'u) caller \<Rightarrow> ('c, 'u) process \<Rightarrow> nat \<Rightarrow> 'c epoll_response list \<Rightarrow> (bool \<times> ('c, 'u) process) res" where
  "MessageLoop_Run call p loop rs = DoRun call p (GetLoopImpl loop) rs"

definition MessageLoop_RunForTime ::
  "('c, 'u) caller \<Rightarrow> ('c, 'u) process \<Rightarrow> nat \<Rightarrow> TimeDelta \<Rightarrow> 'c epoll_response list
     \<Rightarrow> (bool \<times> ('c, 'u) process) res" where
  "MessageLoop_RunForTime call p loop delay rs = DoRunForTime call p (GetLoopImpl loop) delay rs"

definition IsRunning :: "('c, 'u) process \<Rightarrow> nat \<Rightarrow> bool" where
  "IsRunning p loop \<longleftrightarrow> True"

definition MessageLoop_Terminate :: "('c, 'u) process \<Rightarrow> nat \<Rightarrow> ('c, 'u) process res" where
  "MessageLoop_Terminate p loop = DoTerminate p (GetLoopImpl loop)"

definition MessageLoop_AddTaskObserver ::
  "('c, 'u) process \<Rightarrow> nat \<Rightarrow> nat \<Rightarrow> int \<Rightarrow> 'c closure \<Rightarrow> ('c, 'u) process res" where
  "MessageLoop_AddTaskObserver p th loop key callback = AddTaskObserver p th (GetLoopImpl loop) key callback"

definition RemoveObserver :: "('c, 'u) process \<Rightarrow> nat \<Rightarrow> nat \<Rightarrow> int \<Rightarrow> ('c, 'u) process res" where
  "RemoveObserver p th loop key = RemoveTaskObserver p th (GetLoopImpl loop) key"

definition MessageLoop_RunExpiredTasksNow ::
  "('c, 'u) caller \<Rightarrow> ('c, 'u) process \<Rightarrow> nat \<Rightarrow> ('c, 'u) process res" where
  "MessageLoop_RunExpiredTasksNow call p loop = RunExpiredTasksNow call p (GetLoopImpl loop)"

section \<open>TaskRunner\<close>

text \<open>A task runner is the number of its loop.\<close>

definition TaskRunner_PostTask ::
  "('c, 'u) process \<Rightarrow> nat \<Rightarrow> 'c closure \<Rightarrow> ('c, 'u) process res" where
  "TaskRunner_PostTask p l task = (case Now p of (now, p) \<Rightarrow> PostTask p l task now)"

definition PostTaskForTime ::
  "('c, 'u) process \<Rightarrow> nat \<Rightarrow> 'c closure \<Rightarrow> TimePoint \<Rightarrow> ('c, 'u) process res" where
  "PostTaskForTime p l task target_time = PostTask p l task target_time"

definition PostDelayTask ::
  "('c, 'u) process \<Rightarrow> nat \<Rightarrow> 'c closure \<Rightarrow> TimeDelta \<Rightarrow> ('c, 'u) process res" where
  "PostDelayTask p l task delay =
     (case Now p of (now, p) \<Rightarrow>
        res_bind (tp_plus now delay) (\<lambda>target_time. PostTask p l task target_time))"

text \<open>\<open>TaskQueueId\<close> has no comparison of its own: \<open>==\<close> compares the converted \<open>int\<close> values.\<close>

definition RunTasksOnCurrentThread :: "('c, 'u) process \<Rightarrow> nat \<Rightarrow> nat \<Rightarrow> bool res" where
  "RunTasksOnCurrentThread p th l =
     (if \<not> IsInitializedForCurrentThread p th then Inr False
      else res_bind (GetCurrentTaskQueueId p th) (\<lambda>current_queue_id.
           res_bind (loop_deref p l) (\<lambda>lp.
             Inr (tqid_key current_queue_id = tqid_key (queue_id lp)))))"

definition RunNowOrPostTask ::
  "('c, 'u) caller \<Rightarrow> ('c, 'u) process \<Rightarrow> nat \<Rightarrow> nat \<Rightarrow> 'c closure \<Rightarrow> ('c, 'u) process res" where
  "RunNowOrPostTask call p th runner task =
     res_bind (RunTasksOnCurrentThread p th runner) (\<lambda>here.
       if here then invoke call task p else TaskRunner_PostTask p runner task)"

end
