(* ===== verification/Message_Loop_Laws.thy ===== *)
theory Message_Loop_Laws
  imports Message_Loop
begin

text \<open>
  The invariant that ties each message loop to its task queue and its timer, its preservation by every
  atomic step any thread can take, and the properties of the message loop: no task waits without a
  wake-up for it, the order in which tasks and observers run, what remains after a loop ends, and when
  the timed loop ends.
\<close>

section \<open>Wake-ups\<close>

lemma set_loop_simps [simp]:
  "queues (set_loop p l lp) = queues p" "loops (set_loop p l lp) = (loops p)(l \<mapsto> lp)"
  "num_loops (set_loop p l lp) = num_loops p" "settime (set_loop p l lp) = settime p"
  "user (set_loop p l lp) = user p" "clock (set_loop p l lp) = clock p"
  "clock_reads (set_loop p l lp) = clock_reads p"
  "tls_message_loop (set_loop p l lp) = tls_message_loop p"
  "set_loop (set_loop p l lp) l lp' = set_loop p l lp'"
  by (simp_all add: set_loop_def)

lemma set_loop_same [simp]: "loops p l = Some lp \<Longrightarrow> set_loop p l lp = p"
  by (simp add: set_loop_def fun_upd_idem)

lemma WakeUp_Inr:
  "loops p l = Some lp \<Longrightarrow> WakeUp p l t = Inr p' \<longleftrightarrow>
     settime p (rearm_spec t) = 0 \<and> p' = set_loop p l (lp\<lparr>timer_fd := Some (rearm_spec t)\<rparr>)"
  by (auto simp: WakeUp_def TimerRearm_def Let_def res_simps)

lemma wake_all_loop:
  assumes "loops p l = Some lp" "wake_all p (map (Pair l) ts) = Inr p'"
  shows "p' = (if ts = [] then p else set_loop p l (lp\<lparr>timer_fd := Some (rearm_spec (last ts))\<rparr>))"
  using assms
proof (induction ts arbitrary: p lp)
  case (Cons t ts)
  let ?lp = "lp\<lparr>timer_fd := Some (rearm_spec t)\<rparr>"
  from Cons.prems have "wake_all (set_loop p l ?lp) (map (Pair l) ts) = Inr p'"
    by (auto simp: res_simps WakeUp_Inr)
  from Cons.IH[OF _ this] show ?case by simp
qed simp

lemma wake_all_ok:
  assumes "loops p l = Some lp" "\<forall>s. settime p s = 0"
  shows "\<exists>p'. wake_all p (map (Pair l) ts) = Inr p'"
  using assms
proof (induction ts arbitrary: p lp)
  case (Cons t ts)
  let ?p = "set_loop p l (lp\<lparr>timer_fd := Some (rearm_spec t)\<rparr>)"
  have w: "WakeUp p l t = Inr ?p" using Cons.prems by (simp add: WakeUp_Inr)
  have "\<exists>p'. wake_all ?p (map (Pair l) ts) = Inr p'"
    by (rule Cons.IH) (use Cons.prems(2) in simp_all)
  with w show ?case by simp
qed simp

text \<open>The last rearm of a flush is for what remains in the queue.\<close>

definition next_wake :: "'c DelayedTaskQueue \<Rightarrow> TimePoint" where
  "next_wake q = (case q of [] \<Rightarrow> TimePoint_Max | u # _ \<Rightarrow> dt_target_time u)"

lemma last_rearm_times:
  "rearm_times now q \<noteq> [] \<Longrightarrow>
     last (rearm_times now q) = next_wake (dropWhile (\<lambda>t. dt_target_time t \<le> now) q)"
proof (induction q)
  case (Cons t q)
  have due: "dt_target_time t \<le> now" using Cons.prems by (auto split: if_splits)
  show ?case
  proof (cases "rearm_times now q = []")
    case True
    then have "q = [] \<or> \<not> dt_target_time (hd q) \<le> now" by (cases q) (auto split: if_splits)
    with True due show ?thesis by (cases q) (auto simp: next_wake_def)
  next
    case False
    with Cons.IH due show ?thesis by simp
  qed
qed simp

lemma rearm_times_Nil:
  "rearm_times now q = [] \<longleftrightarrow> dropWhile (\<lambda>t. dt_target_time t \<le> now) q = q"
  by (cases q) (auto split: if_splits simp: dropWhile_eq_Cons_conv)

section \<open>The invariant\<close>

text \<open>A loop that was not terminated has its timer programmed to the target time at the front of its
  queue whenever the queue is not empty.\<close>

definition timer_tracks :: "MessageLoopImpl \<Rightarrow> 'c DelayedTaskQueue \<Rightarrow> bool" where
  "timer_tracks lp q \<longleftrightarrow>
     (\<not> terminated lp \<and> q \<noteq> [] \<longrightarrow> timer_fd lp = Some (rearm_spec (dt_target_time (hd q))))"

definition loop_inv :: "('c, nat) MessageLoopTaskQueues \<Rightarrow> nat \<Rightarrow> MessageLoopImpl \<Rightarrow> bool" where
  "loop_inv tq l lp \<longleftrightarrow>
     (\<exists>e. queue_entries tq (tqid_key (queue_id lp)) = Some e \<and> wakeable e = Some l
        \<and> timer_tracks lp (delayed_tasks e))"

definition proc_inv :: "nat \<Rightarrow> ('c, 'u) process \<Rightarrow> bool" where
  "proc_inv m p \<longleftrightarrow>
     (\<exists>n. tq_inv n m (queues p)) \<and> m \<le> 2 ^ 32
     \<and> (\<forall>l lp. loops p l = Some lp \<longrightarrow> l < num_loops p \<and> loop_inv (queues p) l lp)
     \<and> (\<forall>l l' lp lp'. loops p l = Some lp \<and> loops p l' = Some lp'
          \<and> tqid_key (queue_id lp) = tqid_key (queue_id lp') \<longrightarrow> l = l')"

lemma proc_inv_loop:
  assumes "proc_inv m p" "loops p l = Some lp"
  obtains e n where "queue_entries (queues p) (tqid_key (queue_id lp)) = Some e" "wakeable e = Some l"
    "timer_tracks lp (delayed_tasks e)" "tqid_key (queue_id lp) \<in> queue_locks (queues p)"
    "tq_inv n m (queues p)" "dtq_ok (delayed_tasks e)"
proof -
  obtain n where n: "tq_inv n m (queues p)" using assms(1) by (auto simp: proc_inv_def)
  have "loop_inv (queues p) l lp" using assms by (simp add: proc_inv_def)
  then obtain e :: "('a, nat) TaskQueueEntry" where
    e: "queue_entries (queues p) (tqid_key (queue_id lp)) = Some e" "wakeable e = Some l"
    "timer_tracks lp (delayed_tasks e)"
    by (auto simp: loop_inv_def)
  show thesis
    using that[OF e tq_inv_lock[OF n e(1)] n] tq_inv_entry[OF n e(1)] by (simp add: entry_inv_def)
qed

text \<open>Every step on one loop's queue and timer goes through this lemma.\<close>

lemma proc_inv_update:
  assumes inv: "proc_inv m p" and l: "loops p l = Some lp"
    and tq: "tq_inv n m tq" "queue_entries tq = (queue_entries (queues p))(tqid_key (queue_id lp) \<mapsto> e)"
    and lp': "queue_id lp' = queue_id lp" "wakeable e = Some l" "timer_tracks lp' (delayed_tasks e)"
  shows "proc_inv m (set_loop (p\<lparr>queues := tq\<rparr>) l lp')"
proof -
  have other: "loop_inv tq l' lp''" if "loops p l' = Some lp''" "l' \<noteq> l" for l' lp''
  proof -
    have "tqid_key (queue_id lp'') \<noteq> tqid_key (queue_id lp)"
      using inv l that unfolding proc_inv_def by metis
    moreover have "loop_inv (queues p) l' lp''" using inv that(1) by (simp add: proc_inv_def)
    ultimately show ?thesis using tq(2) by (simp add: loop_inv_def)
  qed
  have "loop_inv tq l lp'" using tq(2) lp' by (simp add: loop_inv_def)
  with other inv l lp'(1) tq(1) show ?thesis
    unfolding proc_inv_def by (auto split: if_splits)
qed

lemma proc_inv_loop_only:
  assumes inv: "proc_inv m p" and l: "loops p l = Some lp"
    and lp': "queue_id lp' = queue_id lp" "timer_fd lp' = timer_fd lp \<or> terminated lp'"
      "terminated lp \<longrightarrow> terminated lp'"
  shows "proc_inv m (set_loop p l lp')"
proof -
  obtain e n where e: "queue_entries (queues p) (tqid_key (queue_id lp)) = Some e" "wakeable e = Some l"
    "timer_tracks lp (delayed_tasks e)" "tq_inv n m (queues p)"
    using proc_inv_loop[OF inv l] by metis
  have "timer_tracks lp' (delayed_tasks e)" using e(3) lp' by (auto simp: timer_tracks_def)
  from proc_inv_update[OF inv l e(4) _ lp'(1) e(2) this] e(1) show ?thesis
    by (simp add: fun_upd_idem)
qed

lemma proc_inv_cong:
  "queues p' = queues p \<Longrightarrow> loops p' = loops p \<Longrightarrow> num_loops p' = num_loops p \<Longrightarrow>
     proc_inv m p \<Longrightarrow> proc_inv m p'"
  by (simp add: proc_inv_def)

section \<open>Preservation\<close>

lemma Now_simps [simp]:
  "queues (snd (Now p)) = queues p" "loops (snd (Now p)) = loops p"
  "num_loops (snd (Now p)) = num_loops p" "settime (snd (Now p)) = settime p"
  "user (snd (Now p)) = user p" "tls_message_loop (snd (Now p)) = tls_message_loop p"
  "clock (snd (Now p)) = clock p" "clock_reads (snd (Now p)) = clock_reads p + 1"
  by (simp_all add: Now_def)

lemma case_Now: "(case Now p of (now, p') \<Rightarrow> f now p') = f (fst (Now p)) (snd (Now p))"
  by (simp add: case_prod_beta)

lemma proc_inv_create:
  assumes inv: "proc_inv m p" and m: "m < 2 ^ 32" and c: "Create p a b c = Inr (l, p')"
  shows "proc_inv (Suc m) p' \<and> l = num_loops p \<and> loops p l = None"
proof -
  obtain n where n: "tq_inv n m (queues p)" using inv by (auto simp: proc_inv_def)
  let ?qid = "TaskQueueId (task_queue_id_counter (queues p))"
  let ?tq = "fst (CreateTaskQueue (queues p))"
  let ?e = "new_TaskQueueEntry\<lparr>wakeable := Some (num_loops p)\<rparr> :: ('a, nat) TaskQueueEntry"
  have key: "tqid_key ?qid = word_of_nat m"
    using n by (simp add: tqid_key_def tq_inv_def ucast_word_of_nat)
  have fresh: "tqid_key ?qid \<notin> queue_locks (queues p)"
  proof
    assume "tqid_key ?qid \<in> queue_locks (queues p)"
    then obtain j where "j < m" "(word_of_nat m :: 32 word) = word_of_nat j"
      using n key by (auto simp: tq_inv_def)
    then show False using m unat_of_nat_small[of m, where 'a = 32] unat_of_nat_small[of j, where 'a = 32]
      by simp
  qed
  have tq: "tq_inv n (Suc m) ?tq" by (rule tq_inv_create[OF n])
  have lock: "tqid_key ?qid \<in> queue_locks ?tq" by (simp add: CreateTaskQueue_def Let_def)
  have p': "p' = p\<lparr>queues := set_entry ?tq ?qid ?e, num_loops := num_loops p + 1,
      loops := (loops p)(num_loops p \<mapsto> \<lparr>queue_id = ?qid, terminated = False, running = False,
        timer_fd = None\<rparr>)\<rparr>" and l: "l = num_loops p"
    using c lock by (auto simp: Create_def CreateTaskQueue_def SetWakeable_def res_simps Let_def
        new_TaskQueueEntry_def split: prod.splits)
  have "tq_inv n (Suc m) (set_entry ?tq ?qid ?e)"
    using tq_inv_set_entry[OF tq lock] by (simp add: entry_inv_def new_TaskQueueEntry_def)
  moreover have "tqid_key (queue_id lp) \<noteq> tqid_key ?qid" "loop_inv (set_entry ?tq ?qid ?e) l' lp"
    if lp: "loops p l' = Some lp" for l' lp
  proof -
    obtain e where e: "queue_entries (queues p) (tqid_key (queue_id lp)) = Some e" "wakeable e = Some l'"
      "timer_tracks lp (delayed_tasks e)" "tqid_key (queue_id lp) \<in> queue_locks (queues p)"
      using proc_inv_loop[OF inv lp] by metis
    then show ne: "tqid_key (queue_id lp) \<noteq> tqid_key ?qid" using fresh by metis
    show "loop_inv (set_entry ?tq ?qid ?e) l' lp"
      using e ne by (simp add: loop_inv_def CreateTaskQueue_def Let_def)
  qed
  moreover have "loop_inv (set_entry ?tq ?qid ?e) (num_loops p)
      \<lparr>queue_id = ?qid, terminated = False, running = False, timer_fd = None\<rparr>"
    by (simp add: loop_inv_def timer_tracks_def new_TaskQueueEntry_def)
  moreover have "loops p (num_loops p) = None"
    using inv by (cases "loops p (num_loops p)") (auto simp: proc_inv_def)
  ultimately show ?thesis
    using inv m l unfolding p' proc_inv_def by (auto split: if_splits simp: less_Suc_eq) blast+
qed

lemma proc_inv_destroy:
  assumes inv: "proc_inv m p" and d: "MessageLoopImpl_destroy p l c = Inr p'"
  shows "proc_inv m p'"
proof -
  obtain lp tq where l: "loops p l = Some lp" and tq: "Dispose (queues p) (queue_id lp) = Inr tq"
    and p': "p' = p\<lparr>queues := tq, loops := (loops p)(l := None)\<rparr>"
    using d by (auto simp: MessageLoopImpl_destroy_def res_simps)
  have q: "tq = (queues p)\<lparr>queue_entries := (queue_entries (queues p))(tqid_key (queue_id lp) := None)\<rparr>"
    using tq by (auto simp: Dispose_def res_simps)
  obtain n where "tq_inv n m (queues p)" using inv by (auto simp: proc_inv_def)
  then have "tq_inv n m tq" unfolding q tq_inv_def by (auto split: if_splits)
  moreover have "loop_inv tq l' lp'" if "loops p l' = Some lp'" "l' \<noteq> l" for l' lp'
  proof -
    have "tqid_key (queue_id lp') \<noteq> tqid_key (queue_id lp)"
      using inv l that unfolding proc_inv_def by metis
    moreover have "loop_inv (queues p) l' lp'" using inv that(1) by (simp add: proc_inv_def)
    ultimately show ?thesis unfolding q by (simp add: loop_inv_def)
  qed
  ultimately show ?thesis
    using inv unfolding p' proc_inv_def by (auto split: if_splits)
qed

lemma proc_inv_post:
  assumes inv: "proc_inv m p" and post: "PostTask p l c t = Inr p'"
  shows "proc_inv m p'"
proof -
  obtain lp where l: "loops p l = Some lp" using post by (auto simp: PostTask_def res_simps)
  show ?thesis
  proof (cases "terminated lp")
    case True
    with post l inv show ?thesis by (auto simp: PostTask_def res_simps)
  next
    case False
    let ?p = "snd (Now p)"
    obtain tq wk where r: "RegisterTask (queues p) (queue_id lp) c t (fst (Now p)) = Inr (tq, wk)"
      and w: "wake_all (?p\<lparr>queues := tq\<rparr>) wk = Inr p'"
      using post l False by (auto simp: PostTask_def res_simps case_Now)
    obtain e n where e: "queue_entries (queues p) (tqid_key (queue_id lp)) = Some e" "wakeable e = Some l"
      "tq_inv n m (queues p)"
      using proc_inv_loop[OF inv l] by metis
    let ?q = "dtq_push (task_for (queues p) c t) (delayed_tasks e)"
    let ?e = "e\<lparr>delayed_tasks := ?q\<rparr>"
    let ?lp = "lp\<lparr>timer_fd := Some (rearm_spec (dt_target_time (hd ?q)))\<rparr>"
    have tq: "queue_entries tq = (queue_entries (queues p))(tqid_key (queue_id lp) \<mapsto> ?e)"
      "wk = map (Pair l) [dt_target_time (hd ?q)]"
      using r e(1,2) by (auto simp: RegisterTask_Inr_iff wakes_for_def)
    have "p' = set_loop (?p\<lparr>queues := tq\<rparr>) l ?lp"
      using wake_all_loop[of "?p\<lparr>queues := tq\<rparr>" l lp "[dt_target_time (hd ?q)]" p'] l w tq(2) by simp
    moreover have "proc_inv m (set_loop (?p\<lparr>queues := tq\<rparr>) l ?lp)"
    proof (rule proc_inv_update[where lp = lp and e = ?e])
      show "proc_inv m ?p" using inv by (rule proc_inv_cong[rotated 3]) simp_all
      show "tq_inv (Suc n) m tq" by (rule tq_inv_register[OF e(3) r])
    qed (use l tq e in \<open>simp_all add: timer_tracks_def\<close>)
    ultimately show ?thesis by simp
  qed
qed

lemma grab_tasks_all:
  assumes inv: "proc_inv m p" and l: "loops p l = Some lp"
    and g: "grab_tasks p (queue_id lp) FlushAll = Inr (cs, p')"
    and e: "queue_entries (queues p) (tqid_key (queue_id lp)) = Some e"
  shows "cs = map dt_task (takeWhile (\<lambda>t. dt_target_time t \<le> fst (Now p)) (delayed_tasks e))"
    "queues p' = set_entry (queues p) (queue_id lp)
       (e\<lparr>delayed_tasks := dropWhile (\<lambda>t. dt_target_time t \<le> fst (Now p)) (delayed_tasks e)\<rparr>)"
    "proc_inv m p'" "user p' = user p"
proof -
  let ?now = "fst (Now p)" and ?p = "snd (Now p)"
  let ?rest = "dropWhile (\<lambda>t. dt_target_time t \<le> ?now) (delayed_tasks e)"
  let ?e = "e\<lparr>delayed_tasks := ?rest\<rparr>"
  let ?tq = "set_entry (queues p) (queue_id lp) ?e"
  let ?ts = "rearm_times ?now (delayed_tasks e)"
  obtain n where e': "wakeable e = Some l" "timer_tracks lp (delayed_tasks e)"
    "tqid_key (queue_id lp) \<in> queue_locks (queues p)" "tq_inv n m (queues p)" "dtq_ok (delayed_tasks e)"
    using proc_inv_loop[OF inv l] e by (metis option.inject)
  note G = GetTasksToRunNow_all[OF e'(3) e, of ?now "[]"]
  have w: "wakes_for e ?ts = map (Pair l) ?ts" using e'(1) by (simp add: wakes_for_def)
  have wk: "wake_all (?p\<lparr>queues := ?tq\<rparr>) (map (Pair l) ?ts) = Inr p'"
    and cs: "cs = map dt_task (takeWhile (\<lambda>t. dt_target_time t \<le> ?now) (delayed_tasks e))"
    using g unfolding w[symmetric] by (auto simp: grab_tasks_def case_Now G res_simps)
  show "cs = map dt_task (takeWhile (\<lambda>t. dt_target_time t \<le> ?now) (delayed_tasks e))" by (rule cs)
  have p': "p' = (if ?ts = [] then ?p\<lparr>queues := ?tq\<rparr>
      else set_loop (?p\<lparr>queues := ?tq\<rparr>) l (lp\<lparr>timer_fd := Some (rearm_spec (last ?ts))\<rparr>))"
    using wake_all_loop[OF _ wk, of lp] l by simp
  then show "queues p' = ?tq" "user p' = user p" by auto
  let ?lp = "if ?ts = [] then lp else lp\<lparr>timer_fd := Some (rearm_spec (last ?ts))\<rparr>"
  have p'': "p' = set_loop (?p\<lparr>queues := ?tq\<rparr>) l ?lp" using p' l by simp
  show "proc_inv m p'"
    unfolding p''
  proof (rule proc_inv_update[where lp = lp and e = ?e])
    show "proc_inv m ?p" using inv by (rule proc_inv_cong[rotated 3]) simp_all
    show "tq_inv n m ?tq"
      using tq_inv_entry[OF e'(4) e] e'(5)
      by (intro tq_inv_set_entry[OF e'(4,3)] entry_inv_tasks dtq_ok_dropWhile)
        (auto dest: set_dropWhileD)
    show "timer_tracks ?lp (delayed_tasks ?e)"
      using e'(2) last_rearm_times[of ?now "delayed_tasks e"] rearm_times_Nil[of ?now "delayed_tasks e"]
      by (auto simp: timer_tracks_def next_wake_def split: list.splits)
  qed (use l e' in simp_all)
qed

lemma proc_inv_queue_op:
  assumes inv: "proc_inv m p" and l: "loops p l = Some lp"
    and e: "queue_entries (queues p) (tqid_key (queue_id lp)) = Some e"
    and e': "wakeable e' = wakeable e" "delayed_tasks e' = delayed_tasks e \<or> delayed_tasks e' = []"
      "omap_ok (task_observers e')"
  shows "proc_inv m (p\<lparr>queues := set_entry (queues p) (queue_id lp) e'\<rparr>)"
proof -
  obtain n where n: "wakeable e = Some l" "timer_tracks lp (delayed_tasks e)"
    "tqid_key (queue_id lp) \<in> queue_locks (queues p)" "tq_inv n m (queues p)" "dtq_ok (delayed_tasks e)"
    using proc_inv_loop[OF inv l] e by (metis option.inject)
  have "entry_inv n e'"
    using tq_inv_entry[OF n(4) e] e'(2,3) by (auto simp: entry_inv_def)
  then have tq: "tq_inv n m (set_entry (queues p) (queue_id lp) e')"
    by (rule tq_inv_set_entry[OF n(4,3)])
  have "timer_tracks lp (delayed_tasks e')" using n(2) e'(2) by (auto simp: timer_tracks_def)
  from proc_inv_update[OF inv l tq _ refl _ this] e'(1) n(1) l show ?thesis by simp
qed

text \<open>The atomic steps of the threads of the process: creating and destroying loops, posting from any
  thread, observer changes, taking the due tasks out of a queue, the steps of \<open>DoRun\<close>, \<open>DoRunForTime\<close>
  and \<open>DoTerminate\<close>, clock readings, and whatever the client does to its own state. \<open>m\<close> counts the
  queues ever created.\<close>

definition new_process :: "(nat \<Rightarrow> int) \<Rightarrow> (itimerspec \<Rightarrow> int) \<Rightarrow> 'u \<Rightarrow> ('c, 'u) process" where
  "new_process ck st u =
     \<lparr>queues = new_MessageLoopTaskQueues, loops = Map.empty, num_loops = 0, tls_message_loop = Map.empty,
      clock = ck, clock_reads = 0, settime = st, user = u\<rparr>"

inductive ml_step :: "nat \<Rightarrow> ('c, 'u) process \<Rightarrow> nat \<Rightarrow> ('c, 'u) process \<Rightarrow> bool" where
  create: "m < 2 ^ 32 \<Longrightarrow> Create p a b c = Inr (l, p') \<Longrightarrow> ml_step m p (Suc m) p'"
| destroy: "MessageLoopImpl_destroy p l c = Inr p' \<Longrightarrow> ml_step m p m p'"
| post: "PostTask p l c t = Inr p' \<Longrightarrow> ml_step m p m p'"
| add_observer: "AddTaskObserver p th l key c = Inr p' \<Longrightarrow> ml_step m p m p'"
| remove_observer: "RemoveTaskObserver p th l key = Inr p' \<Longrightarrow> ml_step m p m p'"
| grab: "loops p l = Some lp \<Longrightarrow> grab_tasks p (queue_id lp) FlushAll = Inr (cs, p') \<Longrightarrow> ml_step m p m p'"
| dispose: "DisposeTasks_of p l = Inr p' \<Longrightarrow> ml_step m p m p'"
| terminated: "set_terminated p l = Inr p' \<Longrightarrow> ml_step m p m p'"
| running: "set_running p l b = Inr p' \<Longrightarrow> ml_step m p m p'"
| wake: "loops p l = Some lp \<Longrightarrow> terminated lp \<Longrightarrow> WakeUp p l t = Inr p' \<Longrightarrow> ml_step m p m p'"
| now: "ml_step m p m (snd (Now p))"
| client: "ml_step m p m (p\<lparr>user := u\<rparr>)"
| tls: "ml_step m p m (p\<lparr>tls_message_loop := f\<rparr>)"

inductive ml_reach :: "nat \<Rightarrow> ('c, 'u) process \<Rightarrow> bool" where
  start: "ml_reach 0 (new_process ck st u)"
| step: "ml_reach m p \<Longrightarrow> ml_step m p m' p' \<Longrightarrow> ml_reach m' p'"

lemma proc_inv_observers:
  "proc_inv m p \<Longrightarrow> queue_entries (queues p) k = Some e \<Longrightarrow> omap_ok (task_observers e)"
  by (auto simp: proc_inv_def entry_inv_def dest: tq_inv_entry)

lemma proc_inv_step:
  assumes "ml_step m p m' p'" "proc_inv m p"
  shows "proc_inv m' p'"
  using assms
proof (induction rule: ml_step.induct)
  case (create m p a b c l p')
  then show ?case using proc_inv_create by blast
next
  case (destroy p l c p' m)
  then show ?case using proc_inv_destroy by blast
next
  case (post p l c t p' m)
  then show ?case using proc_inv_post by blast
next
  case (add_observer p th l key c p' m)
  then obtain lp e where "loops p l = Some lp"
    "queue_entries (queues p) (tqid_key (queue_id lp)) = Some e"
    "p' = p\<lparr>queues := set_entry (queues p) (queue_id lp)
       (e\<lparr>task_observers := omap_set key c (task_observers e)\<rparr>)\<rparr>"
    by (auto simp: AddTaskObserver_def TQ_AddTaskObserver_def res_simps split: if_splits)
  with proc_inv_observers[OF add_observer.prems] show ?case
    by (auto intro!: proc_inv_queue_op[OF add_observer.prems] omap_ok_set omap_ok_erase)
next
  case (remove_observer p th l key p' m)
  then obtain lp e where "loops p l = Some lp"
    "queue_entries (queues p) (tqid_key (queue_id lp)) = Some e"
    "p' = p\<lparr>queues := set_entry (queues p) (queue_id lp)
       (e\<lparr>task_observers := omap_erase key (task_observers e)\<rparr>)\<rparr>"
    by (auto simp: RemoveTaskObserver_def TQ_RemoveTaskObserver_def res_simps)
  with proc_inv_observers[OF remove_observer.prems] show ?case
    by (auto intro!: proc_inv_queue_op[OF remove_observer.prems] omap_ok_set omap_ok_erase)
next
  case (grab p l lp cs p' m)
  then show ?case using grab_tasks_all(3) proc_inv_loop by metis
next
  case (dispose p l p' m)
  then obtain lp e where "loops p l = Some lp"
    "queue_entries (queues p) (tqid_key (queue_id lp)) = Some e"
    "p' = p\<lparr>queues := set_entry (queues p) (queue_id lp) (e\<lparr>delayed_tasks := []\<rparr>)\<rparr>"
    by (auto simp: DisposeTasks_of_def DisposeTasks_def res_simps)
  with proc_inv_observers[OF dispose.prems] show ?case
    by (auto intro!: proc_inv_queue_op[OF dispose.prems] omap_ok_set omap_ok_erase)
next
  case (terminated p l p' m)
  then show ?case by (auto simp: set_terminated_def res_simps intro: proc_inv_loop_only)
next
  case (running p l b p' m)
  then show ?case by (auto simp: set_running_def res_simps intro: proc_inv_loop_only)
next
  case (wake p l lp t p' m)
  then show ?case by (auto simp: WakeUp_Inr intro: proc_inv_loop_only)
qed (auto intro: proc_inv_cong[rotated 3])

lemma ml_reach_inv: "ml_reach m p \<Longrightarrow> proc_inv m p"
proof (induction rule: ml_reach.induct)
  case (start ck st u)
  have "tq_inv 0 0 (new_MessageLoopTaskQueues :: ('a, nat) MessageLoopTaskQueues)"
    by (rule tq_reach_inv[OF tq_reach.start])
  then show ?case by (auto simp: proc_inv_def new_process_def)
next
  case (step m p m' p')
  then show ?case using proc_inv_step by blast
qed

section \<open>Lemmas for the properties\<close>

text \<open>A client's closures that record that they ran and leave the observers of the queue alone; they
  may post tasks and do anything else.\<close>

definition logging :: "('c, 'c list) caller \<Rightarrow> TaskQueueId \<Rightarrow> bool" where
  "logging call qid \<longleftrightarrow>
     (\<forall>c p. \<exists>p'. call c p = Inr p' \<and> user p' = user p @ [c]
        \<and> GetObserversToNotify (queues p') qid = GetObserversToNotify (queues p) qid)"

lemma invoke_all_logging:
  assumes "logging call qid" "None \<notin> set cs"
  shows "\<exists>p'. invoke_all call cs p = Inr p' \<and> user p' = user p @ map the cs
    \<and> GetObserversToNotify (queues p') qid = GetObserversToNotify (queues p) qid"
  using assms(2)
proof (induction cs arbitrary: p)
  case (Cons c cs)
  then obtain f where c: "c = Some f" by (cases c) auto
  obtain p1 where p1: "call f p = Inr p1" "user p1 = user p @ [f]"
    "GetObserversToNotify (queues p1) qid = GetObserversToNotify (queues p) qid"
    using assms(1) unfolding logging_def by blast
  obtain p' where "invoke_all call cs p1 = Inr p'" "user p' = user p1 @ map the cs"
    "GetObserversToNotify (queues p') qid = GetObserversToNotify (queues p1) qid"
    using Cons.IH[of p1] Cons.prems by auto
  with p1 c show ?case by (simp add: invoke_def)
qed simp

lemma run_invocations_logging:
  assumes "logging call qid" "None \<notin> set cs" "None \<notin> set obs"
    and "GetObserversToNotify (queues p) qid = Inr obs"
  shows "\<exists>p'. run_invocations call qid cs p = Inr p'
    \<and> user p' = user p @ concat (map (\<lambda>c. the c # map the obs) cs)"
  using assms(2,4)
proof (induction cs arbitrary: p)
  case (Cons c cs)
  then obtain f where c: "c = Some f" by (cases c) auto
  obtain p1 where p1: "call f p = Inr p1" "user p1 = user p @ [f]"
    "GetObserversToNotify (queues p1) qid = Inr obs"
    using assms(1) Cons.prems(2) unfolding logging_def by metis
  obtain p2 where p2: "invoke_all call obs p1 = Inr p2" "user p2 = user p1 @ map the obs"
    "GetObserversToNotify (queues p2) qid = Inr obs"
    using invoke_all_logging[OF assms(1,3), of p1] p1(3) by auto
  obtain p' where "run_invocations call qid cs p2 = Inr p'"
    "user p' = user p2 @ concat (map (\<lambda>c. the c # map the obs) cs)"
    using Cons.IH[of p2] Cons.prems(1) p2(3) by auto
  with p1 p2 c show ?case by (simp add: invoke_def)
qed simp

lemma grab_tasks_ok:
  assumes "proc_inv m p" "loops p l = Some lp" "\<forall>s. settime p s = 0"
  shows "\<exists>cs p'. grab_tasks p (queue_id lp) FlushAll = Inr (cs, p')"
proof -
  obtain e where e: "queue_entries (queues p) (tqid_key (queue_id lp)) = Some e" "wakeable e = Some l"
    "tqid_key (queue_id lp) \<in> queue_locks (queues p)"
    using proc_inv_loop[OF assms(1,2)] by metis
  let ?now = "fst (Now p)"
  note G = GetTasksToRunNow_all[OF e(3,1), of ?now "[]"]
  let ?tq = "set_entry (queues p) (queue_id lp)
     (e\<lparr>delayed_tasks := dropWhile (\<lambda>t. dt_target_time t \<le> ?now) (delayed_tasks e)\<rparr>)"
  obtain p' where "wake_all ((snd (Now p))\<lparr>queues := ?tq\<rparr>)
      (map (Pair l) (rearm_times ?now (delayed_tasks e))) = Inr p'"
    using wake_all_ok[of "(snd (Now p))\<lparr>queues := ?tq\<rparr>" l lp] assms(2,3) by auto
  then show ?thesis
    using e(2) by (simp add: grab_tasks_def case_Now G wakes_for_def)
qed

lemma DisposeTasks_of_empty:
  assumes "DisposeTasks_of p l = Inr p'"
  shows "\<exists>lp. loops p' l = Some lp \<and> loops p l = Some lp
    \<and> GetNumPendingTasks (queues p') (queue_id lp) = Inr 0"
  using assms by (auto simp: DisposeTasks_of_def DisposeTasks_def res_simps GetNumPendingTasks_def)

section \<open>Properties\<close>

text \<open>(C2) No lost wake-up: in every state that any interleaving of the threads reaches, a loop that
  has pending tasks and was not terminated has its timer programmed, and the timer expires exactly at
  the earliest target time among the pending tasks (for target times after the epoch of the clock).\<close>

theorem no_lost_wakeup:
  assumes "ml_reach m p" "loops p l = Some lp" "\<not> terminated lp"
    and "queue_entries (queues p) (tqid_key (queue_id lp)) = Some e" "delayed_tasks e \<noteq> []"
    and "\<forall>t\<in>set (delayed_tasks e). timer_range (dt_target_time t)"
  shows "\<exists>spec. timer_fd lp = Some spec
    \<and> spec_expiry spec = Some (ticks (Min (dt_target_time ` set (delayed_tasks e))))"
proof -
  have tr: "timer_tracks lp (delayed_tasks e)" and ok: "dtq_ok (delayed_tasks e)"
    using proc_inv_loop[OF ml_reach_inv[OF assms(1)] assms(2)] assms(4) by (metis option.inject)+
  obtain t q where q: "delayed_tasks e = t # q" using assms(5) by (cases "delayed_tasks e") auto
  have "Min (dt_target_time ` set (delayed_tasks e)) = dt_target_time t"
    using dtq_ok_sorted_target[OF ok] unfolding q by (intro Min_eqI) auto
  then show ?thesis
    using tr assms(3,6) q timer.expires_at[of "dt_target_time t"] by (simp add: timer_tracks_def)
qed

text \<open>A process with one loop, whose clock counts its readings, and one task posted for time 5.\<close>

definition demo_start :: "(string, string list) process" where
  "demo_start = new_process (\<lambda>i. 10 * int i) (\<lambda>_. 0) []"

definition demo_loop :: "(string, string list) process" where
  "demo_loop = demo_start
     \<lparr>queues := set_entry (fst (CreateTaskQueue new_MessageLoopTaskQueues)) (TaskQueueId 0)
        (new_TaskQueueEntry\<lparr>wakeable := Some 0\<rparr>),
      loops := [0 \<mapsto> \<lparr>queue_id = TaskQueueId 0, terminated = False, running = False, timer_fd = None\<rparr>],
      num_loops := 1\<rparr>"

definition demo_entry :: "(string, nat) TaskQueueEntry" where
  "demo_entry = \<lparr>task_observers = [],
     delayed_tasks = [\<lparr>dt_order = 0, dt_task = Some ''a'', dt_target_time = TimePoint 5\<rparr>],
     wakeable = Some 0\<rparr>"

definition demo_posted :: "(string, string list) process" where
  "demo_posted = demo_loop
     \<lparr>queues := (set_entry (queues demo_loop) (TaskQueueId 0) demo_entry)\<lparr>order_counter := 1\<rparr>,
      loops := [0 \<mapsto> \<lparr>queue_id = TaskQueueId 0, terminated = False, running = False,
                      timer_fd = Some (rearm_spec (TimePoint 5))\<rparr>],
      clock_reads := 1\<rparr>"

lemma demo_create: "Create demo_start 3 4 0 = Inr (0, demo_loop)"
  by (simp add: Create_def CreateTaskQueue_def demo_start_def demo_loop_def new_process_def Let_def
      SetWakeable_def new_MessageLoopTaskQueues_def new_TaskQueueEntry_def set_entry_def tqid_key_def)

lemma demo_post: "PostTask demo_loop 0 (Some ''a'') (TimePoint 5) = Inr demo_posted"
proof -
  have e: "queue_entries (queues demo_loop) (tqid_key (TaskQueueId 0))
      = Some (new_TaskQueueEntry\<lparr>wakeable := Some 0\<rparr>)"
    and k: "tqid_key (TaskQueueId 0) \<in> queue_locks (queues demo_loop)"
    by (simp_all add: demo_loop_def CreateTaskQueue_def new_MessageLoopTaskQueues_def Let_def)
  have r: "RegisterTask (queues demo_loop) (TaskQueueId 0) (Some ''a'') (TimePoint 5) (TimePoint 0)
     = Inr ((set_entry (queues demo_loop) (TaskQueueId 0) demo_entry)\<lparr>order_counter := 1\<rparr>, [(0, TimePoint 5)])"
    unfolding RegisterTask_eq[OF k e]
    by (simp add: demo_entry_def new_TaskQueueEntry_def task_for_def Let_def wakes_for_def int64_bounds
        demo_loop_def CreateTaskQueue_def new_MessageLoopTaskQueues_def)
  show ?thesis
    using r by (simp add: PostTask_def demo_loop_def demo_posted_def case_Now Now_def TimePoint_Now_def
        demo_start_def new_process_def WakeUp_def TimerRearm_def Let_def set_loop_def)
qed

lemma demo_reach: "ml_reach 1 demo_loop" "ml_reach 1 demo_posted"
proof -
  have "ml_reach 0 demo_start" unfolding demo_start_def by (rule ml_reach.start)
  from ml_reach.step[OF this ml_step.create[OF _ demo_create]] show "ml_reach 1 demo_loop" by simp
  from ml_reach.step[OF this ml_step.post[OF demo_post]] show "ml_reach 1 demo_posted" .
qed

lemma demo_facts:
  "loops demo_posted 0 = Some \<lparr>queue_id = TaskQueueId 0, terminated = False, running = False,
                      timer_fd = Some (rearm_spec (TimePoint 5))\<rparr>"
  "queue_entries (queues demo_posted) (tqid_key (TaskQueueId 0)) = Some demo_entry"
  "settime demo_posted s = 0" "user demo_posted = []" "fst (Now demo_posted) = TimePoint 10"
  "tqid_key (TaskQueueId 0) \<in> queue_locks (queues demo_posted)"
  by (simp_all add: demo_posted_def demo_loop_def demo_start_def new_process_def CreateTaskQueue_def
      new_MessageLoopTaskQueues_def Let_def Now_def TimePoint_Now_def)

theorem no_lost_wakeup_witness:
  "\<exists>lp spec. loops demo_posted 0 = Some lp \<and> timer_fd lp = Some spec \<and> spec_expiry spec = Some 5"
  using no_lost_wakeup[OF demo_reach(2) demo_facts(1) _ _ , of demo_entry] demo_facts(1,2)
  by (simp add: demo_entry_def timer_range_def tp_wf_def int64_bounds)

text \<open>(C11) Running expired tasks: with closures that may post further tasks, one call of
  \<open>RunExpiredTasksNow\<close> on a live loop runs exactly the tasks that were due when it was called, in
  queue order (target time, then registration), each followed by all observers in key order; tasks
  posted meanwhile do not run in the same call.\<close>

theorem run_expired_order:
  assumes "ml_reach m p" "loops p l = Some lp" "\<forall>s. settime p s = 0" "logging call (queue_id lp)"
    and "queue_entries (queues p) (tqid_key (queue_id lp)) = Some e"
    and "\<forall>t\<in>set (delayed_tasks e). dt_task t \<noteq> None" "None \<notin> snd ` set (task_observers e)"
  shows "\<exists>p'. RunExpiredTasksNow call p l = Inr p'
    \<and> user p' = user p @ concat (map (\<lambda>t. the (dt_task t) # map (the \<circ> snd) (task_observers e))
        (filter (\<lambda>t. dt_target_time t \<le> fst (Now p)) (delayed_tasks e)))"
proof -
  note inv = ml_reach_inv[OF assms(1)]
  have lock: "tqid_key (queue_id lp) \<in> queue_locks (queues p)" and ok: "dtq_ok (delayed_tasks e)"
    using proc_inv_loop[OF inv assms(2)] assms(5) by (metis option.inject)+
  obtain cs p1 where g: "grab_tasks p (queue_id lp) FlushAll = Inr (cs, p1)"
    using grab_tasks_ok[OF inv assms(2,3)] by blast
  note G = grab_tasks_all[OF inv assms(2) g assms(5)]
  have cs: "cs = map dt_task (filter (\<lambda>t. dt_target_time t \<le> fst (Now p)) (delayed_tasks e))"
    using G(1) ok by (simp add: takeWhile_due)
  have obs: "GetObserversToNotify (queues p1) (queue_id lp) = Inr (map snd (task_observers e))"
    using G(2) lock by (simp add: GetObserversToNotify_def)
  have "\<exists>p'. run_invocations call (queue_id lp) cs p1 = Inr p'
    \<and> user p' = user p1 @ concat (map (\<lambda>c. the c # map the (map snd (task_observers e))) cs)"
    by (rule run_invocations_logging[OF assms(4) _ _ obs]) (use assms(6,7) cs in auto)
  then show ?thesis
    using g assms(2) G(4) by (simp add: RunExpiredTasksNow_def FlushTasks_def cs comp_def)
qed

text \<open>A closure that posts a task to the loop for a time long past and records itself.\<close>

definition demo_call :: "(string, string list) caller" where
  "demo_call c p =
     Inr ((case PostTask p 0 (Some ''late'') (TimePoint 1) of Inr p' \<Rightarrow> p' | Inl f \<Rightarrow> p)\<lparr>user := user p @ [c]\<rparr>)"

lemma wake_all_queues: "wake_all p ws = Inr p' \<Longrightarrow> queues p' = queues p"
proof (induction ws arbitrary: p)
  case (Cons w ws)
  obtain l t where w: "w = (l, t)" by (cases w)
  from Cons.prems obtain p1 where "WakeUp p l t = Inr p1" "wake_all p1 ws = Inr p'"
    unfolding w by (auto simp: res_simps)
  moreover from this(1) have "queues p1 = queues p"
    by (auto simp: WakeUp_def TimerRearm_def Let_def res_simps)
  ultimately show ?case using Cons.IH[of p1] by simp
qed simp

lemma PostTask_observers:
  assumes "PostTask p l c t = Inr p'"
  shows "GetObserversToNotify (queues p') qid = GetObserversToNotify (queues p) qid"
proof -
  obtain lp where l: "loops p l = Some lp" using assms by (auto simp: PostTask_def res_simps)
  show ?thesis
  proof (cases "terminated lp")
    case True
    with assms l show ?thesis by (auto simp: PostTask_def res_simps)
  next
    case False
    obtain tq wk where r: "RegisterTask (queues p) (queue_id lp) c t (fst (Now p)) = Inr (tq, wk)"
      and w: "wake_all ((snd (Now p))\<lparr>queues := tq\<rparr>) wk = Inr p'"
      using assms l False by (auto simp: PostTask_def res_simps case_Now)
    have "queues p' = tq" using wake_all_queues[OF w] by simp
    moreover have "GetObserversToNotify tq qid = GetObserversToNotify (queues p) qid"
      using r by (auto simp: RegisterTask_Inr_iff GetObserversToNotify_def GetMutex_def map_at_def)
    ultimately show ?thesis by simp
  qed
qed

lemma demo_logging: "logging demo_call qid"
  unfolding logging_def demo_call_def using PostTask_observers by (auto split: sum.splits)

theorem run_expired_order_witness:
  "\<exists>p'. RunExpiredTasksNow demo_call demo_posted 0 = Inr p' \<and> user p' = [''a'']"
  using run_expired_order[OF demo_reach(2) demo_facts(1) _ demo_logging, of demo_entry] demo_facts
  by (simp add: demo_entry_def less_eq_TimePoint_def)

text \<open>\<open>DoTerminate\<close> stops the loop for good: afterwards the loop is marked terminated, its timer is
  programmed to the current time so that a blocked \<open>epoll_wait\<close> returns, \<open>RunForTime\<close>'s loop is left at
  its next test whatever it was doing, \<open>DoRun\<close> returns at once, and posting a task changes nothing.\<close>

theorem terminate_stops_loop:
  assumes "DoTerminate p l = Inr p'"
  shows "\<exists>lp. loops p' l = Some lp \<and> terminated lp
    \<and> timer_fd lp = Some (rearm_spec (fst (Now p)))
    \<and> (\<forall>call start left_ms rs. run_loop call l start left_ms rs p' = Inr (True, p'))
    \<and> (\<forall>call rs. DoRun call p' l rs = Inr (True, p'))
    \<and> (\<forall>c t. PostTask p' l (Some c) t = Inr p')"
proof -
  obtain lp where l: "loops p l = Some lp"
    using assms by (auto simp: DoTerminate_def set_terminated_def res_simps)
  let ?lp = "lp\<lparr>terminated := True, running := False\<rparr>"
  have now: "fst (Now (set_loop p l ?lp)) = fst (Now p)" by (simp add: Now_def)
  have w: "WakeUp (snd (Now (set_loop p l ?lp))) l (fst (Now (set_loop p l ?lp))) = Inr p'"
    using assms l
    by (auto simp: DoTerminate_def set_terminated_def Terminate_def set_running_def res_simps case_Now)
  have p': "loops p' l = Some (?lp\<lparr>timer_fd := Some (rearm_spec (fst (Now p)))\<rparr>)"
    using w WakeUp_Inr[of "snd (Now (set_loop p l ?lp))" l ?lp "fst (Now (set_loop p l ?lp))" p'] now by simp
  have "run_loop call l start left_ms rs p' = Inr (True, p')" for call start left_ms rs
    using p' by (cases rs) simp_all
  moreover have "DoRun call p' l rs = Inr (True, p')" for call rs
    using p' by (simp add: DoRun_def)
  moreover have "PostTask p' l (Some c) t = Inr p'" for c t
    using p' by (simp add: PostTask_def)
  ultimately show ?thesis using p' by simp
qed

theorem terminate_stops_loop_witness:
  "\<exists>p'. DoTerminate demo_posted 0 = Inr p' \<and> PostTask p' 0 (Some ''b'') (TimePoint 1) = Inr p'"
proof -
  have "\<exists>p'. DoTerminate demo_posted 0 = Inr p'"
    using demo_facts(1,3)
    by (simp add: DoTerminate_def set_terminated_def Terminate_def set_running_def case_Now WakeUp_def
        TimerRearm_def Let_def)
  then show ?thesis using terminate_stops_loop by blast
qed

text \<open>Closures that never undo the termination of the loop; no operation of the library does.\<close>

definition keeps_terminated :: "('c, 'u) caller \<Rightarrow> nat \<Rightarrow> bool" where
  "keeps_terminated call l \<longleftrightarrow>
     (\<forall>c p p' lp. call c p = Inr p' \<and> loops p l = Some lp \<and> terminated lp \<longrightarrow>
        (\<exists>lp'. loops p' l = Some lp' \<and> terminated lp'))"

abbreviation is_terminated :: "('c, 'u) process \<Rightarrow> nat \<Rightarrow> bool" where
  "is_terminated p l \<equiv> (\<exists>lp. loops p l = Some lp \<and> terminated lp)"

lemma invoke_all_keeps:
  "keeps_terminated call l \<Longrightarrow> invoke_all call cs p = Inr p' \<Longrightarrow> is_terminated p l \<Longrightarrow> is_terminated p' l"
proof (induction cs arbitrary: p)
  case (Cons c cs)
  obtain p1 f where "c = Some f" "call f p = Inr p1" "invoke_all call cs p1 = Inr p'"
    using Cons.prems(2) by (auto simp: invoke_def res_simps split: option.splits)
  moreover have "is_terminated p1 l"
    using calculation(2) Cons.prems(1,3) unfolding keeps_terminated_def by blast
  ultimately show ?case using Cons.IH[of p1] Cons.prems(1) by blast
qed simp

lemma run_invocations_keeps:
  "keeps_terminated call l \<Longrightarrow> run_invocations call qid cs p = Inr p' \<Longrightarrow> is_terminated p l
     \<Longrightarrow> is_terminated p' l"
proof (induction cs arbitrary: p)
  case (Cons c cs)
  obtain f p1 obs p2 where f: "c = Some f" "call f p = Inr p1" "invoke_all call obs p1 = Inr p2"
    "run_invocations call qid cs p2 = Inr p'"
    using Cons.prems(2) by (auto simp: invoke_def res_simps split: option.splits)
  have "is_terminated p1 l" using f(2) Cons.prems(1,3) unfolding keeps_terminated_def by blast
  then have "is_terminated p2 l" by (rule invoke_all_keeps[OF Cons.prems(1) f(3)])
  then show ?case by (rule Cons.IH[OF Cons.prems(1) f(4)])
qed simp

lemma wake_all_keeps: "wake_all p ws = Inr p' \<Longrightarrow> is_terminated p l \<Longrightarrow> is_terminated p' l"
proof (induction ws arbitrary: p)
  case (Cons w ws)
  obtain l' t where w: "w = (l', t)" by (cases w)
  from Cons.prems obtain p1 where p1: "WakeUp p l' t = Inr p1" "wake_all p1 ws = Inr p'"
    unfolding w by (auto simp: res_simps)
  from p1(1) Cons.prems(2) have "is_terminated p1 l"
    by (auto simp: WakeUp_def TimerRearm_def Let_def res_simps)
  then show ?case by (rule Cons.IH[OF p1(2)])
qed simp

lemma RunExpiredTasksNow_keeps:
  assumes "keeps_terminated call l" "RunExpiredTasksNow call p l = Inr p'" "is_terminated p l"
  shows "is_terminated p' l"
proof -
  obtain lp :: MessageLoopImpl and cs p1 where g: "grab_tasks p (queue_id lp) FlushAll = Inr (cs, p1)"
    "run_invocations call (queue_id lp) cs p1 = Inr p'"
    using assms(2) by (auto simp: RunExpiredTasksNow_def FlushTasks_def res_simps)
  obtain tq wk where "wake_all ((snd (Now p))\<lparr>queues := tq\<rparr>) wk = Inr p1"
    using g(1) by (auto simp: grab_tasks_def case_Now res_simps)
  then have "is_terminated p1 l" by (rule wake_all_keeps) (use assms(3) in simp)
  with run_invocations_keeps[OF assms(1) g(2)] show ?thesis .
qed

text \<open>(C30) Leaving \<open>Run\<close>: when \<open>DoRun\<close> returns on a loop that was not terminated, the loop is
  terminated, tasks that were due have been given their chance, and whatever else was pending is
  discarded: nothing remains in the queue, no later post adds to it, and running the loop again does
  nothing.\<close>

theorem do_run_exit:
  assumes "keeps_terminated call l" "DoRun call p l rs = Inr (True, p')"
    and "loops p l = Some lp" "\<not> terminated lp"
  shows "\<exists>lp'. loops p' l = Some lp' \<and> terminated lp'
    \<and> GetNumPendingTasks (queues p') (queue_id lp') = Inr 0
    \<and> (\<forall>c t. PostTask p' l (Some c) t = Inr p') \<and> (\<forall>rs. DoRun call p' l rs = Inr (True, p'))"
proof -
  obtain p1 p2 p3 where p: "set_terminated p1 l = Inr p2" "RunExpiredTasksNow call p2 l = Inr p3"
    "DisposeTasks_of p3 l = Inr p'"
    using assms(2-4) by (auto simp: DoRun_def res_simps split: if_splits)
  have "is_terminated p2 l" using p(1) by (auto simp: set_terminated_def res_simps)
  then have "is_terminated p3 l" by (rule RunExpiredTasksNow_keeps[OF assms(1) p(2)])
  with DisposeTasks_of_empty[OF p(3)] obtain lp' where "loops p' l = Some lp'" "terminated lp'"
    "GetNumPendingTasks (queues p') (queue_id lp') = Inr 0" by auto
  then show ?thesis by (simp add: PostTask_def DoRun_def)
qed

text \<open>A response of \<open>epoll_wait\<close> with a fatal event, and one interrupted by a signal.\<close>

definition fatal_event :: "'c epoll_response" where
  "fatal_event = \<lparr>ev_error = True, epoll_result = 1, errno_eintr = False, ev_is_timer = False,
     read_size = 0, read_count = 0, others = []\<rparr>"

definition interrupted :: "'c epoll_response" where
  "interrupted = \<lparr>ev_error = False, epoll_result = - 1, errno_eintr = True, ev_is_timer = False,
     read_size = 0, read_count = 0, others = []\<rparr>"

text \<open>The process above with a clock that stands still: its task is not yet due when the loop ends.\<close>

definition demo_early :: "(string, string list) process" where
  "demo_early = demo_posted\<lparr>clock := \<lambda>_. 0\<rparr>"

lemma demo_early_flush:
  "GetTasksToRunNow (queues demo_posted) (TaskQueueId 0) FlushAll (TimePoint 0) []
     = Inr (queues demo_posted, [], [])"
  unfolding GetTasksToRunNow_all[OF demo_facts(6,2)]
  using demo_facts(2) by (simp add: demo_entry_def less_eq_TimePoint_def set_entry_tasks_same)

lemma demo_early_run:
  "\<exists>p'. DoRun call demo_early 0 [fatal_event] = Inr (True, p')"
  "\<exists>p'. DoRunForTime call demo_early 0 d [fatal_event] = Inr (True, p')"
  using demo_facts(1,2,6) demo_early_flush
  by (simp_all add: demo_early_def DoRun_def DoRunForTime_def Run_def RunForTime_def set_running_def
      case_Now fatal_event_def set_terminated_def RunExpiredTasksNow_def FlushTasks_def grab_tasks_def
      DisposeTasks_of_def DisposeTasks_def Now_def TimePoint_Now_def)

theorem do_run_exit_witness:
  "\<exists>p' lp'. DoRun (\<lambda>_ p. Inr p) demo_early 0 [fatal_event] = Inr (True, p') \<and> loops p' 0 = Some lp'
    \<and> terminated lp' \<and> GetNumPendingTasks (queues p') (queue_id lp') = Inr 0"
proof -
  have k: "keeps_terminated (\<lambda>_ p. Inr p) 0" by (auto simp: keeps_terminated_def)
  have l: "loops demo_early 0 = Some \<lparr>queue_id = TaskQueueId 0, terminated = False, running = False,
      timer_fd = Some (rearm_spec (TimePoint 5))\<rparr>"
    using demo_facts(1) by (simp add: demo_early_def)
  obtain p' where "DoRun (\<lambda>_ p. Inr p) demo_early 0 [fatal_event] = Inr (True, p')"
    using demo_early_run(1) by blast
  from do_run_exit[OF k this l] this show ?thesis by auto
qed

text \<open>Leaving \<open>RunForTime\<close> discards too: when \<open>DoRunForTime\<close> returns on a loop that was not
  terminated, the queue is empty, also of tasks whose time had not come, although the loop can be run
  again.\<close>

theorem do_run_for_time_discards:
  assumes "DoRunForTime call p l d rs = Inr (True, p')" "loops p l = Some lp" "\<not> terminated lp"
  shows "\<exists>lp'. loops p' l = Some lp' \<and> GetNumPendingTasks (queues p') (queue_id lp') = Inr 0"
proof -
  obtain p3 where "DisposeTasks_of p3 l = Inr p'"
    using assms by (auto simp: DoRunForTime_def res_simps split: if_splits)
  from DisposeTasks_of_empty[OF this] show ?thesis by blast
qed

theorem do_run_for_time_discards_witness:
  "\<exists>p' lp'. DoRunForTime (\<lambda>_ p. Inr p) demo_early 0 (TimeDelta 1) [fatal_event] = Inr (True, p')
    \<and> loops p' 0 = Some lp' \<and> GetNumPendingTasks (queues p') (queue_id lp') = Inr 0"
proof -
  have l: "loops demo_early 0 = Some \<lparr>queue_id = TaskQueueId 0, terminated = False, running = False,
      timer_fd = Some (rearm_spec (TimePoint 5))\<rparr>"
    using demo_facts(1) by (simp add: demo_early_def)
  obtain p' where "DoRunForTime (\<lambda>_ p. Inr p) demo_early 0 (TimeDelta 1) [fatal_event] = Inr (True, p')"
    using demo_early_run(2) by blast
  from do_run_for_time_discards[OF this l] this show ?thesis by auto
qed

text \<open>Milliseconds between the start of the loop and its \<open>i\<close>-th next clock reading.\<close>

definition elapsed_ms :: "('c, 'u) process \<Rightarrow> TimePoint \<Rightarrow> nat \<Rightarrow> int" where
  "elapsed_ms p start i = (clock p (clock_reads p + i) - ticks start) div 1000000"

lemma elapsed_bounds:
  assumes "0 \<le> d"
  shows "ToMilliseconds (TimeDelta d) = d div 1000000" "0 \<le> d div 1000000" "d div 1000000 \<le> d"
  using assms by (simp_all add: To_eq sdiv_pos_eq pos_imp_zdiv_nonneg_iff)

text \<open>The first partial sums to reach a bound, and those without the first summand.\<close>

lemma sum_reached_Suc:
  fixes f :: "nat \<Rightarrow> int"
  assumes "f 0 < c"
  shows "(\<exists>k\<le>Suc n. 0 < k \<and> c \<le> (\<Sum>i<k. f i)) \<longleftrightarrow> (\<exists>k\<le>n. 0 < k \<and> c - f 0 \<le> (\<Sum>i<k. f (Suc i)))"
    (is "?L \<longleftrightarrow> ?R")
proof
  assume ?L
  then obtain k where k: "k \<le> Suc n" "0 < k" "c \<le> (\<Sum>i<k. f i)" by blast
  then obtain j where j: "k = Suc j" by (cases k) auto
  have "0 < j" using k(3) assms unfolding j by (cases j) auto
  with k show ?R unfolding j sum.lessThan_Suc_shift by (intro exI[of _ j]) auto
next
  assume ?R
  then obtain k where "k \<le> n" "c - f 0 \<le> (\<Sum>i<k. f (Suc i))" by blast
  then show ?L by (intro exI[of _ "Suc k"]) (simp add: sum.lessThan_Suc_shift del: sum.lessThan_Suc)
qed

lemma run_loop_interrupted:
  assumes "loops p l = Some lp" "running lp" "0 < left_ms" "left_ms \<le> int64_max"
    and "\<forall>i. 0 \<le> clock p i - ticks start \<and> clock p i - ticks start \<le> int64_max"
  shows "\<exists>p'. run_loop call l start left_ms (replicate n interrupted) p =
    Inr ((\<exists>k\<le>n. 0 < k \<and> left_ms \<le> (\<Sum>i<k. elapsed_ms p start i)), p')"
  using assms
proof (induction n arbitrary: p left_ms)
  case 0
  then show ?case by simp
next
  case (Suc n)
  let ?d = "clock p (clock_reads p) - ticks start"
  let ?p = "p\<lparr>clock_reads := clock_reads p + 1\<rparr>"
  let ?left = "left_ms - ?d div 1000000"
  have d: "0 \<le> ?d" "?d \<le> int64_max" using Suc.prems(5) by auto
  have diff: "tp_diff (TimePoint (clock p (clock_reads p))) start = Inr (TimeDelta ?d)"
    using d by (simp add: tp_diff_def FromNanoseconds_def int64_bounds)
  note ms = elapsed_bounds(1)[OF d(1)] and dd = elapsed_bounds(2,3)[OF d(1)]
  have left: "in_int64 ?left" "?left \<le> int64_max"
    using Suc.prems(3,4) d dd by (auto simp: int64_bounds)
  have e0: "elapsed_ms p start 0 = ?d div 1000000" and eS: "elapsed_ms p start (Suc i) = elapsed_ms ?p start i" for i
    by (simp_all add: elapsed_ms_def)
  have step: "run_loop call l start left_ms (replicate (Suc n) interrupted) p =
      res_bind (if ?left \<le> 0 then set_running ?p l False else Inr ?p)
        (run_loop call l start ?left (replicate n interrupted))"
    using Suc.prems(1,2) left(1)
    by (simp add: interrupted_def case_Now Now_def TimePoint_Now_def diff ms)
  show ?case
  proof (cases "?left \<le> 0")
    case True
    then have "\<exists>k\<le>Suc n. 0 < k \<and> left_ms \<le> (\<Sum>i<k. elapsed_ms p start i)"
      by (intro exI[of _ 1]) (simp add: e0)
    moreover have "\<exists>p'. run_loop call l start ?left (replicate n interrupted)
        (set_loop ?p l (lp\<lparr>running := False\<rparr>)) = Inr (True, p')"
      by (cases n) simp_all
    ultimately show ?thesis
      unfolding step using True Suc.prems(1) by (simp add: set_running_def)
  next
    case False
    then have "(\<exists>k\<le>Suc n. 0 < k \<and> left_ms \<le> (\<Sum>i<k. elapsed_ms p start i)) \<longleftrightarrow>
        (\<exists>k\<le>n. 0 < k \<and> ?left \<le> (\<Sum>i<k. elapsed_ms ?p start i))"
      using sum_reached_Suc[of "elapsed_ms p start" left_ms n] unfolding e0 eS by simp
    moreover have "\<exists>p'. run_loop call l start ?left (replicate n interrupted) ?p =
      Inr ((\<exists>k\<le>n. 0 < k \<and> ?left \<le> (\<Sum>i<k. elapsed_ms ?p start i)), p')"
      by (rule Suc.IH) (use Suc.prems False left in simp_all)
    ultimately show ?thesis unfolding step using False by simp
  qed
qed

text \<open>(C31) When the timed loop ends: with nothing but interrupted waits, \<open>RunForTime\<close>'s loop is left
  after the first \<open>k\<close> wake-ups whose elapsed times since the start \<^emph>\<open>add up\<close> to the duration, because
  every wake-up subtracts the whole time since the start and not the time since the last wake-up. With
  several wake-ups it therefore ends before the duration has passed.\<close>

theorem run_for_time_exit:
  assumes "loops p l = Some lp" "running lp" "0 < left_ms" "left_ms \<le> int64_max"
    and "\<forall>i. 0 \<le> clock p i - ticks start \<and> clock p i - ticks start \<le> int64_max"
  shows "\<exists>p'. run_loop call l start left_ms (replicate n interrupted) p =
    Inr ((\<exists>k\<le>n. 0 < k \<and> left_ms \<le> (\<Sum>i<k. elapsed_ms p start i)), p')"
  using assms by (rule run_loop_interrupted)

text \<open>A loop of 100 ms that is interrupted after 40 ms and after 60 ms is left at 60 ms.\<close>

definition demo_clock :: "nat \<Rightarrow> int" where
  "demo_clock i = (if i = 0 then 0 else if i = 1 then 40000000 else 60000000)"

definition demo_running :: "(string, string list) process" where
  "demo_running = new_process demo_clock (\<lambda>_. 0) []
     \<lparr>loops := [0 \<mapsto> \<lparr>queue_id = TaskQueueId 0, terminated = False, running = True, timer_fd = None\<rparr>],
      clock_reads := 1\<rparr>"

theorem run_for_time_exit_witness:
  "\<exists>p'. run_loop (\<lambda>_ p. Inr p) 0 (TimePoint 0) 100 (replicate 2 interrupted) demo_running = Inr (True, p')
    \<and> elapsed_ms demo_running (TimePoint 0) 1 = 60"
proof -
  have l: "loops demo_running 0 = Some \<lparr>queue_id = TaskQueueId 0, terminated = False, running = True,
      timer_fd = None\<rparr>" by (simp add: demo_running_def)
  have c: "\<forall>i. 0 \<le> clock demo_running i - ticks (TimePoint 0)
      \<and> clock demo_running i - ticks (TimePoint 0) \<le> int64_max"
    by (simp add: demo_running_def new_process_def demo_clock_def int64_bounds)
  have e: "elapsed_ms demo_running (TimePoint 0) 0 = 40" "elapsed_ms demo_running (TimePoint 0) 1 = 60"
    by (simp_all add: elapsed_ms_def demo_running_def new_process_def demo_clock_def)
  have "\<exists>k\<le>2. 0 < k \<and> 100 \<le> (\<Sum>i<k. elapsed_ms demo_running (TimePoint 0) i)"
    using e by (intro exI[of _ 2]) (simp add: numeral_2_eq_2)
  then show ?thesis
    using run_for_time_exit[OF l _ _ _ c, of 100 "\<lambda>_ p. Inr p" 2] e(2) by (auto simp: int64_bounds)
qed

text \<open>The timeout passed to \<open>epoll_wait\<close> is the \<open>int\<close> conversion of the remaining milliseconds:
  exact while they fit, and otherwise the value modulo \<open>2\<^sup>3\<^sup>2\<close>, which for \<open>Run()\<close> (\<open>TimeDelta::Max()\<close>) is
  2077252342 ms, about 24 days, and for some long durations negative, which makes the wait unbounded.\<close>

theorem epoll_timeout_conversion:
  "(epoll_timeout ms = ms \<longleftrightarrow> - (2 ^ 31) \<le> ms \<and> ms < 2 ^ 31)
   \<and> (\<exists>k. epoll_timeout ms = ms + k * 2 ^ 32)
   \<and> epoll_timeout (ToMilliseconds TimeDelta_Max) = 2077252342
   \<and> epoll_timeout (2 ^ 31) < 0"
proof -
  have eq: "epoll_timeout x = (x + 2 ^ 31) mod 2 ^ 32 - 2 ^ 31" for x
    by (simp add: epoll_timeout_def int_word_sint)
  have r: "- (2 ^ 31) \<le> epoll_timeout ms" "epoll_timeout ms < 2 ^ 31"
    using pos_mod_bound[of "2 ^ 32 :: int" "ms + 2 ^ 31"] pos_mod_sign[of "2 ^ 32 :: int" "ms + 2 ^ 31"]
    unfolding eq by auto
  have "epoll_timeout ms = ms" if "- (2 ^ 31) \<le> ms" "ms < 2 ^ 31"
    using that unfolding eq by (subst mod_pos_pos_trivial) auto
  moreover have "epoll_timeout ms = ms + (- ((ms + 2 ^ 31) div 2 ^ 32)) * 2 ^ 32"
    unfolding eq using div_mult_mod_eq[of "ms + 2 ^ 31" "2 ^ 32"] by (simp add: algebra_simps)
  moreover have "ToMilliseconds TimeDelta_Max = 9223372036854"
    by (simp add: To_eq TimeDelta_Max_def int64_max_def sdiv_pos_eq)
  moreover have "epoll_timeout 9223372036854 = 2077252342" "epoll_timeout (2 ^ 31) < 0"
    unfolding eq by simp_all
  ultimately show ?thesis using r by metis
qed

text \<open>A task runner knows its own thread: in every reachable state, for a thread whose loop is
  alive, \<open>RunTasksOnCurrentThread\<close> of a live runner is true exactly when the runner's loop is that
  thread's loop; so \<open>RunNowOrPostTask\<close> runs the closure in place there and posts it everywhere else.\<close>

theorem runs_on_current_thread:
  assumes "ml_reach m p" "tls_message_loop p th = Some l" "loops p l = Some lp" "loops p r = Some rp"
  shows "RunTasksOnCurrentThread p th r = Inr (r = l)
    \<and> RunNowOrPostTask call p th r (Some c) = (if r = l then call c p else TaskRunner_PostTask p r (Some c))"
proof -
  have "tqid_key (queue_id lp) = tqid_key (queue_id rp) \<longleftrightarrow> r = l"
    using ml_reach_inv[OF assms(1)] assms(3,4) unfolding proc_inv_def by (metis option.inject)
  then have "RunTasksOnCurrentThread p th r = Inr (r = l)"
    using assms(2-4)
    by (simp add: RunTasksOnCurrentThread_def IsInitializedForCurrentThread_def GetCurrentTaskQueueId_def)
  then show ?thesis by (simp add: RunNowOrPostTask_def invoke_def)
qed

theorem runs_on_current_thread_witness:
  "RunTasksOnCurrentThread (demo_posted\<lparr>tls_message_loop := [5 \<mapsto> 0]\<rparr>) 5 0 = Inr True"
  using runs_on_current_thread[OF ml_reach.step[OF demo_reach(2) ml_step.tls], of "[5 \<mapsto> 0]" 5 0 _ 0]
    demo_facts(1) by simp

end
