(* ===== verification/Message_Buffer.thy ===== *)
theory Message_Buffer
  imports FF_Prelude
begin

text \<open>
  \<open>ffbase::Message\<close> (\<open>source/base/messageloop/message.h\<close>, \<open>message.cpp\<close>): a growable byte buffer
  that values are appended to and read back from in order. \<open>size_t\<close> is a 64-bit word, the
  parameter of \<open>NextOfTwoSize\<close> a 32-bit word. The heap block is a list of bytes in which
  \<open>None\<close> is a byte that was allocated and never written; \<open>malloc\<close> and \<open>realloc\<close> are a
  parameter \<open>heap\<close> that says for which sizes they return a block. \<open>FF_DCHECK\<close> is \<open>FF_CHECK\<close>
  in a build without \<open>DEBUG\<close> (\<open>logging.h\<close>), which is the build modelled here.

  The lemmas show that the growth arithmetic computes the least power of two, that every
  operation keeps the message well formed, that values read back are the values written, how
  many values a message can hold, and what a read past the written data returns.
\<close>

unbundle bit_operations_syntax

type_synonym uint8 = "8 word"
type_synonym uint32 = "32 word"
type_synonym size_t = "64 word"

section \<open>Model\<close>

definition NextOfTwoSize :: "uint32 \<Rightarrow> uint32" where
  "NextOfTwoSize x =
     (if x = 0 then 1 else
      let x = x - 1;
          x = x OR drop_bit 1 x;
          x = x OR drop_bit 2 x;
          x = x OR drop_bit 4 x;
          x = x OR drop_bit 8 x;
          x = x OR drop_bit 16 x
      in x + 1)"

record Message =
  buffer :: "uint8 option list option"
  buffer_length :: size_t
  data_length :: size_t
  size_read :: size_t

definition new_Message :: Message where
  "new_Message = \<lparr>buffer = None, buffer_length = 0, data_length = 0, size_read = 0\<rparr>"

definition GetBuffer :: "Message \<Rightarrow> uint8 option list option" where
  "GetBuffer m = buffer m"

definition GetBufferSize :: "Message \<Rightarrow> size_t" where
  "GetBufferSize m = buffer_length m"

definition GetDataLength :: "Message \<Rightarrow> size_t" where
  "GetDataLength m = data_length m"

definition GetSizeRead :: "Message \<Rightarrow> size_t" where
  "GetSizeRead m = size_read m"

definition ResetRead :: "Message \<Rightarrow> Message" where
  "ResetRead m = m\<lparr>size_read := 0\<rparr>"

text \<open>\<open>realloc\<close> keeps the bytes both blocks have; the rest of a block is not written.\<close>

definition realloc_block :: "uint8 option list \<Rightarrow> nat \<Rightarrow> uint8 option list" where
  "realloc_block bs n = take n bs @ replicate (n - length bs) None"

definition Resize :: "(size_t \<Rightarrow> bool) \<Rightarrow> Message \<Rightarrow> size_t \<Rightarrow> (bool \<times> Message) res" where
  "Resize heap m sz =
     (case buffer m of
        None \<Rightarrow>
          res_bind (ff_check (buffer_length m = 0)) (\<lambda>_.
            if heap sz
            then Inr (True, m\<lparr>buffer := Some (realloc_block [] (unat sz)), buffer_length := sz\<rparr>)
            else Inr (False, m))
      | Some bs \<Rightarrow>
          res_bind (ff_check (sz > buffer_length m)) (\<lambda>_.
            if heap sz
            then Inr (True, m\<lparr>buffer := Some (realloc_block bs (unat sz)), buffer_length := sz\<rparr>)
            else Inr (False, m)))"

definition Reserve :: "(size_t \<Rightarrow> bool) \<Rightarrow> Message \<Rightarrow> size_t \<Rightarrow> (bool \<times> Message) res" where
  "Reserve heap m sz =
     (if buffer_length m \<ge> sz then Inr (True, m)
      else Resize heap m (ucast (NextOfTwoSize (ucast sz))))"

text \<open>\<open>PrepareEncode\<close> and \<open>PrepareDecode\<close> return a pointer into the block or null: here the
  offset from \<open>buffer_\<close>, or \<open>None\<close>, also where \<open>buffer_\<close> itself is null and the offset 0.\<close>

definition buffer_plus :: "Message \<Rightarrow> size_t \<Rightarrow> size_t option" where
  "buffer_plus m off = (if buffer m = None \<and> off = 0 then None else Some off)"

definition PrepareEncode ::
  "(size_t \<Rightarrow> bool) \<Rightarrow> Message \<Rightarrow> size_t \<Rightarrow> (size_t option \<times> Message) res" where
  "PrepareEncode heap m sz =
     res_bind (Reserve heap m (buffer_length m + sz)) (\<lambda>(ok, m).
       if \<not> ok then Inr (None, m)
       else let old_length = data_length m in
            Inr (buffer_plus m old_length, m\<lparr>data_length := data_length m + sz\<rparr>))"

definition PrepareDecode :: "Message \<Rightarrow> size_t \<Rightarrow> size_t option \<times> Message" where
  "PrepareDecode m sz =
     (if sz + size_read m > buffer_length m then (None, m)
      else (buffer_plus m (size_read m), m\<lparr>size_read := size_read m + sz\<rparr>))"

text \<open>\<open>memcpy\<close> to and from the block; an access outside the block is a fault.\<close>

definition block_write ::
  "uint8 option list option \<Rightarrow> nat \<Rightarrow> uint8 list \<Rightarrow> uint8 option list option res" where
  "block_write b off vs =
     (case b of
        None \<Rightarrow> Inl NullDeref
      | Some bs \<Rightarrow>
          if off + length vs \<le> length bs
          then Inr (Some (take off bs @ map Some vs @ drop (off + length vs) bs))
          else Inl OutOfBounds)"

definition block_read ::
  "uint8 option list option \<Rightarrow> nat \<Rightarrow> nat \<Rightarrow> uint8 option list res" where
  "block_read b off n =
     (case b of
        None \<Rightarrow> Inl NullDeref
      | Some bs \<Rightarrow>
          if off + n \<le> length bs then Inr (take n (drop off bs)) else Inl OutOfBounds)"

text \<open>\<open>Encode\<close> and \<open>Decode\<close> for a trivially copyable \<open>T\<close>: the argument is the object
  representation, \<open>sizeof(T)\<close> bytes.\<close>

definition Encode :: "(size_t \<Rightarrow> bool) \<Rightarrow> Message \<Rightarrow> uint8 list \<Rightarrow> (bool \<times> Message) res" where
  "Encode heap m vs =
     res_bind (PrepareEncode heap m (of_nat (length vs))) (\<lambda>(p, m).
       case p of
         None \<Rightarrow> Inr (False, m)
       | Some off \<Rightarrow>
           res_bind (block_write (buffer m) (unat off) vs) (\<lambda>b.
             Inr (True, m\<lparr>buffer := b\<rparr>)))"

definition Decode :: "Message \<Rightarrow> nat \<Rightarrow> (uint8 option list option \<times> Message) res" where
  "Decode m n =
     (case PrepareDecode m (of_nat n) of
        (None, m) \<Rightarrow> Inr (None, m)
      | (Some off, m) \<Rightarrow>
          res_bind (block_read (buffer m) (unat off) n) (\<lambda>bs. Inr (Some bs, m)))"

text \<open>\<open>Encode(const MessageSerializable &)\<close> hands the message to the object's own
  \<open>Serialize\<close>, a parameter here.\<close>

definition Encode_Serializable ::
  "('v \<Rightarrow> Message \<Rightarrow> (bool \<times> Message) res) \<Rightarrow> Message \<Rightarrow> 'v \<Rightarrow> (bool \<times> Message) res" where
  "Encode_Serializable serialize m v = serialize v m"

text \<open>A sequence of \<open>Encode\<close> calls that stops at the first failure, and of \<open>Decode\<close> calls.\<close>

fun Encode_all :: "(size_t \<Rightarrow> bool) \<Rightarrow> Message \<Rightarrow> uint8 list list \<Rightarrow> (bool \<times> Message) res" where
  "Encode_all heap m [] = Inr (True, m)"
| "Encode_all heap m (v # vs) =
     res_bind (Encode heap m v) (\<lambda>(ok, m). if ok then Encode_all heap m vs else Inr (False, m))"

fun Decode_all :: "Message \<Rightarrow> nat list \<Rightarrow> (uint8 option list list option \<times> Message) res" where
  "Decode_all m [] = Inr (Some [], m)"
| "Decode_all m (n # ns) =
     res_bind (Decode m n) (\<lambda>(r, m).
       case r of
         None \<Rightarrow> Inr (None, m)
       | Some v \<Rightarrow>
           res_bind (Decode_all m ns) (\<lambda>(rs, m). Inr (map_option ((#) v) rs, m)))"

section \<open>The least power of two\<close>

lemma smear_step:
  fixes a y :: "'a::len word"
  assumes "\<And>i. bit a i \<longleftrightarrow> (\<exists>d<w. bit y (i + d))"
    and v: "v = w + w"
  shows "bit (a OR drop_bit w a) i \<longleftrightarrow> (\<exists>d<v. bit y (i + d))"
proof -
  have "(\<exists>d<v. bit y (i + d)) \<longleftrightarrow> (\<exists>d<w. bit y (i + d)) \<or> (\<exists>d<w. bit y (i + w + d))"
  proof -
    have "\<exists>d'<w. bit y (i + w + d')" if "d < w + w" "bit y (i + d)" "\<not> d < w" for d
      using that by (intro exI[of _ "d - w"]) auto
    then show ?thesis
      unfolding v by (metis add.assoc nat_add_left_cancel_less trans_less_add1)
  qed
  then show ?thesis
    by (simp add: bit_or_iff bit_drop_bit_eq assms add.commute)
qed

definition smear :: "uint32 \<Rightarrow> uint32" where
  "smear x =
     (let x = x OR drop_bit 1 x;
          x = x OR drop_bit 2 x;
          x = x OR drop_bit 4 x;
          x = x OR drop_bit 8 x
      in x OR drop_bit 16 x)"

lemma bit_smear: "bit (smear y) i \<longleftrightarrow> (\<exists>j\<ge>i. bit y j)"
proof -
  have 1: "bit y i \<longleftrightarrow> (\<exists>d<1. bit y (i + d))" for i by simp
  have "bit (smear y) i \<longleftrightarrow> (\<exists>d<32. bit y (i + d))"
    unfolding smear_def Let_def
    by (rule smear_step[where w = 16], rule smear_step[where w = 8], rule smear_step[where w = 4],
        rule smear_step[where w = 2], rule smear_step[where w = 1], rule 1) simp_all
  also have "\<dots> \<longleftrightarrow> (\<exists>j\<ge>i. bit y j)"
  proof
    assume "\<exists>j\<ge>i. bit y j"
    then obtain j where "i \<le> j" "bit y j" by blast
    moreover have "j < 32" using \<open>bit y j\<close> bit_imp_le_length[of y j] by simp
    ultimately show "\<exists>d<32. bit y (i + d)" by (intro exI[of _ "j - i"]) auto
  qed (use le_add1 in blast)
  finally show ?thesis .
qed

lemma NextOfTwoSize_smear: "x \<noteq> 0 \<Longrightarrow> NextOfTwoSize x = smear (x - 1) + 1"
  by (simp add: NextOfTwoSize_def smear_def Let_def)

lemma smear_mask:
  assumes "2 ^ k \<le> unat y" "unat y < 2 ^ Suc k"
  shows "smear y = mask (Suc k)"
proof (rule bit_word_eqI)
  fix i assume "i < LENGTH(32)"
  have bit_nat: "bit y j \<longleftrightarrow> odd (unat y div 2 ^ j)" for j
    using bit_iff_odd[of "unat y" j] by (simp add: bit_unsigned_iff)
  have "unat y div 2 ^ k = 1"
    using assms by (intro div_nat_eqI) simp_all
  then have "bit y k" by (simp add: bit_nat)
  moreover have "j \<le> k" if "bit y j" for j
  proof (rule ccontr)
    assume "\<not> j \<le> k"
    then have "(2::nat) ^ Suc k \<le> 2 ^ j" by (intro power_increasing) auto
    with assms(2) have "unat y div 2 ^ j = 0" by (metis div_less less_le_trans)
    with that show False by (simp add: bit_nat)
  qed
  ultimately show "bit (smear y) i \<longleftrightarrow> bit (mask (Suc k) :: uint32) i"
    using \<open>i < LENGTH(32)\<close> by (auto simp: bit_smear bit_mask_iff less_Suc_eq_le dest: order_trans)
qed

lemma log2_cover:
  assumes "1 < (n::nat)"
  obtains k where "2 ^ k < n" "n \<le> 2 ^ Suc k"
proof -
  obtain k where "2 ^ k \<le> n - 1" "n - 1 < 2 ^ (k + 1)"
    using ex_power_ivl1[of 2 "n - 1"] assms by force
  with assms that[of k] show thesis by simp
qed

text \<open>Up to \<open>2\<^sup>3\<^sup>1\<close> the result is the least power of two not below the argument; above, the last
  increment wraps to 0.\<close>

lemma unat_NextOfTwoSize:
  assumes "2 ^ k < unat x" "unat x \<le> 2 ^ Suc k"
  shows "unat (NextOfTwoSize x) = (if k < 31 then 2 ^ Suc k else 0)"
proof -
  have "(2::nat) ^ k < 2 ^ 32"
    using less_trans[OF assms(1) unsigned_less] by simp
  then have "k < 32" by (rule power_less_imp_less_exp[rotated]) simp
  have x0: "x \<noteq> 0" using assms(1) by auto
  then have "unat (x - 1) = unat x - 1" by (rule unat_minus_one)
  with assms have "smear (x - 1) = mask (Suc k)" by (intro smear_mask) linarith+
  then have *: "NextOfTwoSize x = 2 ^ Suc k"
    using x0 by (simp add: NextOfTwoSize_smear mask_eq_exp_minus_1 del: power_Suc)
  show ?thesis
  proof (cases "k = 31")
    case True
    then show ?thesis unfolding * by simp
  next
    case False
    with \<open>k < 32\<close> have "Suc k < LENGTH(32)" by simp
    with False \<open>k < 32\<close> show ?thesis
      unfolding * by (simp add: unat_exp del: power_Suc)
  qed
qed

text \<open>The reference: the least power of two not below a number.\<close>

fun np2 :: "nat \<Rightarrow> nat" where
  "np2 n = (if n \<le> 1 then 1 else 2 * np2 ((n + 1) div 2))"

declare np2.simps [simp del]

lemma np2_le_1 [simp]: "n \<le> 1 \<Longrightarrow> np2 n = 1"
  by (simp add: np2.simps)

lemma np2_eq: "2 ^ k < n \<Longrightarrow> n \<le> 2 ^ Suc k \<Longrightarrow> np2 n = 2 ^ Suc k"
proof (induction k arbitrary: n)
  case 0
  then have "n = 2" by simp
  then show ?case by (simp add: np2.simps[of 2])
next
  case (Suc k)
  then have "np2 ((n + 1) div 2) = 2 ^ Suc k" by (intro Suc.IH) auto
  moreover have "1 < n" using Suc.prems(1) one_le_power[of "2::nat" "Suc k"] by linarith
  ultimately show ?case by (simp add: np2.simps[of n])
qed

lemma np2_cases:
  obtains "n \<le> 1" "np2 n = 1" | k where "2 ^ k < n" "n \<le> 2 ^ Suc k" "np2 n = 2 ^ Suc k"
  by (metis linorder_not_le log2_cover np2_eq np2_le_1)

lemma np2_ge: "n \<le> np2 n"
  by (cases n rule: np2_cases) auto

lemma np2_power: "\<exists>k. np2 n = 2 ^ k"
  by (cases n rule: np2_cases) (metis power_0, blast)

lemma np2_least: "n \<le> 2 ^ j \<Longrightarrow> np2 n \<le> 2 ^ j"
proof (cases n rule: np2_cases)
  case (2 k)
  assume "n \<le> 2 ^ j"
  with 2(1) have "(2::nat) ^ k < 2 ^ j" by (rule less_le_trans)
  then have "Suc k \<le> j" by (simp add: Suc_le_eq)
  then show ?thesis unfolding 2(3) by (intro power_increasing) auto
qed simp

lemma NextOfTwoSize_np2:
  "unat (NextOfTwoSize x) = (if unat x \<le> 2 ^ 31 then np2 (unat x) else 0)"
proof (cases "unat x" rule: np2_cases)
  case 1
  then consider "x = 0" | "x = 1"
    by (metis One_nat_def le_Suc_eq le_zero_eq unat_0_iff unat_1 word_unat_eq_iff)
  then show ?thesis using 1 by cases (simp_all add: NextOfTwoSize_def)
next
  case (2 k)
  have "k < 31 \<longleftrightarrow> unat x \<le> 2 ^ 31"
  proof
    assume "k < 31"
    then have "(2::nat) ^ Suc k \<le> 2 ^ 31" by (intro power_increasing) auto
    with 2(2) show "unat x \<le> 2 ^ 31" by (rule order_trans)
  next
    assume "unat x \<le> 2 ^ 31"
    with 2(1) have "(2::nat) ^ k < 2 ^ 31" by (rule less_le_trans)
    then show "k < 31" by (rule power_less_imp_less_exp[rotated]) simp
  qed
  then show ?thesis using unat_NextOfTwoSize[OF 2(1,2)] 2(3) by simp
qed

section \<open>Representation\<close>

text \<open>\<open>msg_rep m vs\<close>: the message holds the written bytes \<open>vs\<close>, followed by bytes that were never
  written up to the end of the block.\<close>

definition msg_rep :: "Message \<Rightarrow> uint8 list \<Rightarrow> bool" where
  "msg_rep m vs \<longleftrightarrow>
     unat (data_length m) = length vs \<and> length vs \<le> unat (buffer_length m)
     \<and> size_read m \<le> buffer_length m \<and> unat (buffer_length m) \<le> 2 ^ 31
     \<and> (if buffer_length m = 0 then buffer m = None
        else buffer m = Some (map Some vs @ replicate (unat (buffer_length m) - length vs) None))"

lemma msg_rep_new [simp]: "msg_rep new_Message []"
  by (simp add: msg_rep_def new_Message_def)

lemma msg_rep_ResetRead: "msg_rep m vs \<Longrightarrow> msg_rep (ResetRead m) vs"
  by (simp add: msg_rep_def ResetRead_def)

definition grown :: "Message \<Rightarrow> uint8 list \<Rightarrow> uint8 list \<Rightarrow> Message" where
  "grown m vs v =
     (let n = np2 (unat (buffer_length m) + length v) in
      m\<lparr>buffer := Some (map Some (vs @ v) @ replicate (n - length (vs @ v)) None),
        buffer_length := word_of_nat n,
        data_length := data_length m + word_of_nat (length v)\<rparr>)"

section \<open>Growth\<close>

lemma unat_size_add:
  assumes "unat (b :: size_t) \<le> 2 ^ 31" "n \<le> 2 ^ 31"
  shows "unat (b + word_of_nat n) = unat b + n"
proof -
  have n: "unat (word_of_nat n :: size_t) = n"
    using assms(2) by (intro unat_of_nat_small) simp
  show ?thesis
    using unat_add_small[of b "word_of_nat n"] assms by (simp add: n)
qed

text \<open>The size that \<open>Reserve\<close> asks for, after the conversion to \<open>uint32_t\<close> and back.\<close>

lemma unat_requested:
  assumes "unat (s :: size_t) \<le> 2 ^ 32" "0 < unat s"
  shows "unat (ucast (NextOfTwoSize (ucast s)) :: size_t) =
    (if unat s \<le> 2 ^ 31 then np2 (unat s) else if unat s = 2 ^ 32 then 1 else 0)"
proof -
  have s: "unat (ucast s :: uint32) = unat s mod 2 ^ 32"
    by (simp add: unsigned_ucast_eq take_bit_eq_mod)
  have "unat (ucast w :: size_t) = unat w" for w :: uint32
    by (simp add: unsigned_ucast_eq take_bit_nat_eq_self order_less_trans[OF unsigned_less])
  then have "unat (ucast (NextOfTwoSize (ucast s)) :: size_t) =
      (if unat s mod 2 ^ 32 \<le> 2 ^ 31 then np2 (unat s mod 2 ^ 32) else 0)"
    by (simp only: NextOfTwoSize_np2 s)
  moreover have "unat s mod 2 ^ 32 = (if unat s = 2 ^ 32 then 0 else unat s)"
    using assms(1) by (auto simp: mod_nat_eqI)
  ultimately show ?thesis by auto
qed

lemma np2_le_31: "n \<le> 2 ^ 31 \<Longrightarrow> np2 n \<le> 2 ^ 31"
  by (rule np2_least)

lemma unat_np2: "n \<le> 2 ^ 31 \<Longrightarrow> unat (word_of_nat (np2 n) :: size_t) = np2 n"
  using np2_le_31[of n] by (intro unat_of_nat_small) simp

lemma Reserve_more:
  assumes rep: "msg_rep m vs" and n: "0 < n" "n \<le> 2 ^ 31"
  defines "need \<equiv> unat (buffer_length m) + n"
  shows "Reserve heap m (buffer_length m + word_of_nat n) =
    (if 2 ^ 31 < need then Inl CheckFailed
     else if heap (word_of_nat (np2 need))
     then Inr (True, m\<lparr>buffer := Some (map Some vs @ replicate (np2 need - length vs) None),
                       buffer_length := word_of_nat (np2 need)\<rparr>)
     else Inr (False, m))"
proof -
  let ?s = "buffer_length m + word_of_nat n"
  let ?r = "ucast (NextOfTwoSize (ucast ?s)) :: size_t"
  have bl: "unat (buffer_length m) \<le> 2 ^ 31" using rep by (simp add: msg_rep_def)
  have s: "unat ?s = need" unfolding need_def by (rule unat_size_add[OF bl n(2)])
  have more: "\<not> ?s \<le> buffer_length m"
    using n(1) by (simp add: word_le_nat_alt s need_def)
  have r: "unat ?r = (if need \<le> 2 ^ 31 then np2 need else if need = 2 ^ 32 then 1 else 0)"
    using unat_requested[of ?s] bl n by (simp add: s need_def)
  have need0: "0 < need" "need \<le> np2 need" "unat (buffer_length m) < need"
    using n(1) by (simp_all add: need_def np2_ge)
  show ?thesis
  proof (cases "need \<le> 2 ^ 31")
    case True
    then have "?r = word_of_nat (np2 need)"
      using r by (simp add: word_unat_eq_iff unat_np2)
    moreover have "length vs \<le> unat (buffer_length m)" using rep by (simp add: msg_rep_def)
    ultimately show ?thesis
      using True more rep need0 unat_np2[OF True]
      by (auto simp: Reserve_def Resize_def msg_rep_def realloc_block_def word_less_nat_alt
          replicate_add[symmetric] split: if_splits)
  next
    case False
    with n(2) have "1 \<le> unat (buffer_length m)" by (simp add: need_def)
    with False r have "\<not> buffer_length m < ?r" "buffer_length m \<noteq> 0"
      by (auto simp: word_less_nat_alt)
    with False more rep show ?thesis
      by (simp add: Reserve_def Resize_def msg_rep_def)
  qed
qed

lemma Encode_more:
  assumes rep: "msg_rep m vs" and n: "v \<noteq> []" "length v \<le> 2 ^ 31"
  defines "need \<equiv> unat (buffer_length m) + length v"
  shows "Encode heap m v =
    (if 2 ^ 31 < need then Inl CheckFailed
     else if heap (word_of_nat (np2 need)) then Inr (True, grown m vs v)
     else Inr (False, m))"
proof -
  have le: "length vs + length v \<le> np2 need" "unat (data_length m) = length vs"
    using rep np2_ge[of need] by (auto simp: msg_rep_def need_def)
  have "0 < length v" using n(1) by simp
  note R = Reserve_more[OF rep this n(2), of heap, folded need_def]
  have g: "grown m vs v =
    m\<lparr>buffer_length := word_of_nat (np2 need),
      data_length := data_length m + word_of_nat (length v),
      buffer := Some (map Some (vs @ v) @ replicate (np2 need - length (vs @ v)) None)\<rparr>"
    by (cases m) (simp add: grown_def need_def Let_def)
  show ?thesis
    using le by (simp add: Encode_def PrepareEncode_def buffer_plus_def Let_def R block_write_def g)
qed

lemma grown_rep:
  assumes rep: "msg_rep m vs" and n: "length v \<le> 2 ^ 31"
    and need: "unat (buffer_length m) + length v \<le> 2 ^ 31"
  shows "msg_rep (grown m vs v) (vs @ v)"
    "unat (buffer_length (grown m vs v)) = np2 (unat (buffer_length m) + length v)"
    "size_read (grown m vs v) = size_read m"
proof -
  let ?n = "np2 (unat (buffer_length m) + length v)"
  have u: "unat (word_of_nat ?n :: size_t) = ?n" by (rule unat_np2[OF need])
  have ge: "unat (buffer_length m) + length v \<le> ?n" by (rule np2_ge)
  have pos: "0 < ?n" using np2_power[of "unat (buffer_length m) + length v"] by auto
  have "unat (data_length m + word_of_nat (length v)) = unat (data_length m) + length v"
    using rep n by (intro unat_size_add) (auto simp: msg_rep_def)
  moreover have "word_of_nat ?n \<noteq> (0 :: size_t)" using u pos by (metis less_numeral_extra(3) unat_0)
  ultimately show "msg_rep (grown m vs v) (vs @ v)"
    using rep ge np2_le_31[OF need]
    by (auto simp: msg_rep_def grown_def Let_def u word_le_nat_alt)
  show "unat (buffer_length (grown m vs v)) = ?n" "size_read (grown m vs v) = size_read m"
    by (simp_all add: grown_def Let_def u)
qed

section \<open>Reading\<close>

lemma Decode_rep:
  assumes rep: "msg_rep m vs" and n: "0 < n" "n \<le> 2 ^ 31"
  shows "Decode m n =
    (if unat (size_read m) + n \<le> unat (buffer_length m)
     then Inr (Some (take n (drop (unat (size_read m)) (map Some vs
                 @ replicate (unat (buffer_length m) - length vs) None))),
               m\<lparr>size_read := size_read m + word_of_nat n\<rparr>)
     else Inr (None, m))"
proof -
  have sr: "unat (size_read m) \<le> 2 ^ 31"
    using rep by (auto simp: msg_rep_def word_le_nat_alt)
  have s: "unat (word_of_nat n + size_read m) = unat (size_read m) + n"
    using unat_size_add[OF sr n(2)] by (simp add: add.commute)
  show ?thesis
  proof (cases "unat (size_read m) + n \<le> unat (buffer_length m)")
    case True
    with n(1) have "buffer_length m \<noteq> 0" by auto
    with rep have "buffer m = Some (map Some vs @ replicate (unat (buffer_length m) - length vs) None)"
      "length vs \<le> unat (buffer_length m)"
      by (simp_all add: msg_rep_def)
    with True show ?thesis
      by (simp add: Decode_def PrepareDecode_def buffer_plus_def word_less_nat_alt s block_read_def)
  next
    case False
    then show ?thesis by (simp add: Decode_def PrepareDecode_def word_less_nat_alt s)
  qed
qed

lemma Decode_rep_next:
  assumes rep: "msg_rep m vs" and n: "0 < n" "n \<le> 2 ^ 31"
    and fits: "unat (size_read m) + n \<le> unat (buffer_length m)"
  shows "msg_rep (m\<lparr>size_read := size_read m + word_of_nat n\<rparr>) vs"
    "unat (size_read m + word_of_nat n) = unat (size_read m) + n"
proof -
  have "unat (size_read m) \<le> 2 ^ 31"
    using rep by (auto simp: msg_rep_def word_le_nat_alt)
  then show u: "unat (size_read m + word_of_nat n) = unat (size_read m) + n"
    using n(2) by (rule unat_size_add)
  show "msg_rep (m\<lparr>size_read := size_read m + word_of_nat n\<rparr>) vs"
    using rep fits by (auto simp: msg_rep_def word_le_nat_alt u)
qed

text \<open>Reading back what is left of the written data, split at the sizes it was written in.\<close>

lemma Decode_all_rep:
  assumes "msg_rep m (us @ concat vss)" "unat (size_read m) = length us"
    and "\<forall>v\<in>set vss. v \<noteq> [] \<and> length v \<le> 2 ^ 31"
  shows "\<exists>m'. Decode_all m (map length vss) = Inr (Some (map (map Some) vss), m')
    \<and> unat (size_read m') = length (us @ concat vss) \<and> msg_rep m' (us @ concat vss)"
  using assms
proof (induction vss arbitrary: m us)
  case Nil
  then show ?case by simp
next
  case (Cons v vss)
  let ?m = "m\<lparr>size_read := size_read m + word_of_nat (length v)\<rparr>"
  have v: "0 < length v" "length v \<le> 2 ^ 31" using Cons.prems(3) by auto
  have fits: "unat (size_read m) + length v \<le> unat (buffer_length m)"
    using Cons.prems(1,2) by (auto simp: msg_rep_def)
  note step = Decode_rep_next[OF Cons.prems(1) v fits]
  have "Decode m (length v) = Inr (Some (map Some v), ?m)"
    using Decode_rep[OF Cons.prems(1) v] fits Cons.prems(2) by simp
  moreover have "\<exists>m'. Decode_all ?m (map length vss) = Inr (Some (map (map Some) vss), m')
    \<and> unat (size_read m') = length ((us @ v) @ concat vss) \<and> msg_rep m' ((us @ v) @ concat vss)"
    using Cons.prems step by (intro Cons.IH) auto
  ultimately show ?case by auto
qed

section \<open>Sequences of writes\<close>

text \<open>One write of a sequence: it grows the message and goes on, or the sequence ends.\<close>

lemma Encode_all_Cons:
  assumes "msg_rep m us" "v \<noteq> []" "length v \<le> 2 ^ 31"
  shows "Encode_all heap m (v # vss) =
    (if 2 ^ 31 < unat (buffer_length m) + length v then Inl CheckFailed
     else if heap (word_of_nat (np2 (unat (buffer_length m) + length v)))
     then Encode_all heap (grown m us v) vss
     else Inr (False, m))"
  using Encode_more[OF assms, of heap] by simp

lemma Encode_all_rep:
  assumes "msg_rep m us" "\<forall>v\<in>set vss. v \<noteq> [] \<and> length v \<le> 2 ^ 31"
    and "Encode_all heap m vss = Inr (True, m')"
  shows "msg_rep m' (us @ concat vss) \<and> size_read m' = size_read m"
  using assms
proof (induction vss arbitrary: m us)
  case (Cons v vss)
  have v: "v \<noteq> []" "length v \<le> 2 ^ 31" using Cons.prems(2) by auto
  have need: "unat (buffer_length m) + length v \<le> 2 ^ 31"
    and rest: "Encode_all heap (grown m us v) vss = Inr (True, m')"
    using Cons.prems(3) Encode_all_Cons[OF Cons.prems(1) v, of heap vss] by (auto split: if_splits)
  show ?case
    using Cons.IH[OF grown_rep(1)[OF Cons.prems(1) v(2) need] _ rest] Cons.prems(2)
      grown_rep(3)[OF Cons.prems(1) v(2) need] by simp
qed simp

text \<open>Once a block exists, every write doubles it at least: \<open>PrepareEncode\<close> reserves room beyond
  the block, not beyond the data.\<close>

lemma np2_doubles: "0 < n \<Longrightarrow> 2 ^ Suc k \<le> np2 (2 ^ k + n)"
proof -
  assume "0 < n"
  obtain j where j: "np2 (2 ^ k + n) = 2 ^ j" using np2_power by blast
  with np2_ge[of "2 ^ k + n"] \<open>0 < n\<close> have "(2::nat) ^ k < 2 ^ j" by linarith
  then have "Suc k \<le> j" by (simp add: Suc_le_eq)
  then show ?thesis unfolding j by (intro power_increasing) auto
qed

lemma Encode_all_grows:
  assumes "msg_rep m us" "unat (buffer_length m) = 2 ^ k"
    and "\<forall>v\<in>set vss. v \<noteq> [] \<and> length v \<le> 2 ^ 31"
    and "Encode_all heap m vss = Inr (True, m')"
  shows "2 ^ (k + length vss) \<le> unat (buffer_length m')"
  using assms
proof (induction vss arbitrary: m us k)
  case (Cons v vss)
  have v: "v \<noteq> []" "length v \<le> 2 ^ 31" using Cons.prems(3) by auto
  have need: "unat (buffer_length m) + length v \<le> 2 ^ 31"
    and rest: "Encode_all heap (grown m us v) vss = Inr (True, m')"
    using Cons.prems(4) Encode_all_Cons[OF Cons.prems(1) v, of heap vss] by (auto split: if_splits)
  note g = grown_rep[OF Cons.prems(1) v(2) need]
  obtain j where j: "np2 (2 ^ k + length v) = 2 ^ j" using np2_power by blast
  have "(2::nat) ^ Suc k \<le> 2 ^ j" using np2_doubles[of "length v" k] v(1) j by simp
  then have kj: "Suc k \<le> j" by (rule power_le_imp_le_exp[rotated]) simp
  have "2 ^ (j + length vss) \<le> unat (buffer_length m')"
    using Cons.IH[OF g(1) _ _ rest, of j] g(2) Cons.prems(2,3) j by simp
  moreover have "(2::nat) ^ (k + length (v # vss)) \<le> 2 ^ (j + length vss)"
    using kj by (intro power_increasing) auto
  ultimately show ?case by (rule order_trans[rotated])
qed simp

lemma Encode_all_new_grows:
  assumes "vss \<noteq> []" "\<forall>v\<in>set vss. v \<noteq> [] \<and> length v \<le> 2 ^ 31"
    and "Encode_all heap new_Message vss = Inr (True, m')"
  shows "2 ^ (length vss - 1) \<le> unat (buffer_length m')"
proof (cases vss)
  case (Cons v ws)
  have v: "v \<noteq> []" "length v \<le> 2 ^ 31" using assms(2) Cons by auto
  have b0: "unat (buffer_length new_Message) + length v \<le> 2 ^ 31"
    using v(2) by (simp add: new_Message_def)
  have rest: "Encode_all heap (grown new_Message [] v) ws = Inr (True, m')"
    using assms(3) Encode_all_Cons[OF msg_rep_new v, of heap ws]
    unfolding Cons by (auto split: if_splits)
  note g = grown_rep[OF msg_rep_new v(2) b0]
  obtain k where k: "unat (buffer_length (grown new_Message [] v)) = 2 ^ k"
    using g(2) np2_power by metis
  have "2 ^ (k + length ws) \<le> unat (buffer_length m')"
    using Encode_all_grows[OF g(1) k _ rest] assms(2) Cons by simp
  moreover have "(2::nat) ^ (length vss - 1) \<le> 2 ^ (k + length ws)"
    unfolding Cons by (intro power_increasing) auto
  ultimately show ?thesis by (rule order_trans[rotated])
qed (use assms(1) in simp)

text \<open>A sequence of writes of at most \<open>2\<^sup>k\<close> bytes each that fits.\<close>

lemma Encode_all_fits:
  assumes "msg_rep m us" "unat (buffer_length m) \<le> 2 ^ j" "k \<le> j" "j + length vss \<le> 31"
    and "\<forall>v\<in>set vss. v \<noteq> [] \<and> length v \<le> 2 ^ k"
  shows "\<exists>m'. Encode_all (\<lambda>_. True) m vss = Inr (True, m')"
  using assms
proof (induction vss arbitrary: m us j)
  case (Cons v vss)
  have "(2::nat) ^ k \<le> 2 ^ j" using Cons.prems(3) by (intro power_increasing) auto
  moreover have v0: "v \<noteq> []" "length v \<le> 2 ^ k" using Cons.prems(5) by auto
  ultimately have need: "unat (buffer_length m) + length v \<le> 2 ^ Suc j"
    unfolding power_Suc using Cons.prems(2) by linarith
  have j31: "(2::nat) ^ Suc j \<le> 2 ^ 31" using Cons.prems(4) by (intro power_increasing) auto
  have n31: "unat (buffer_length m) + length v \<le> 2 ^ 31" by (rule order_trans[OF need j31])
  note v = v0(1) add_leD2[OF n31]
  note g = grown_rep[OF Cons.prems(1) v(2) n31]
  have "unat (buffer_length (grown m us v)) \<le> 2 ^ Suc j"
    unfolding g(2) by (rule np2_least[OF need])
  then have "\<exists>m'. Encode_all (\<lambda>_. True) (grown m us v) vss = Inr (True, m')"
    using Cons.prems by (intro Cons.IH[OF g(1), of "Suc j"]) auto
  then show ?case
    using Encode_all_Cons[OF Cons.prems(1) v, of "\<lambda>_. True" vss] n31 by simp
qed simp

text \<open>With a heap that grants everything, a sequence of writes succeeds or fails the check.\<close>

lemma Encode_all_total:
  assumes "msg_rep m us" "\<forall>v\<in>set vss. v \<noteq> [] \<and> length v \<le> 2 ^ 31"
  shows "Encode_all (\<lambda>_. True) m vss = Inl CheckFailed
    \<or> (\<exists>m'. Encode_all (\<lambda>_. True) m vss = Inr (True, m'))"
  using assms
proof (induction vss arbitrary: m us)
  case (Cons v vss)
  have v: "v \<noteq> []" "length v \<le> 2 ^ 31" using Cons.prems(2) by auto
  show ?case
  proof (cases "unat (buffer_length m) + length v \<le> 2 ^ 31")
    case True
    then show ?thesis
      using Cons.IH[OF grown_rep(1)[OF Cons.prems(1) v(2) True]] Cons.prems(2)
        Encode_all_Cons[OF Cons.prems(1) v, of "\<lambda>_. True" vss] by simp
  qed (use Encode_all_Cons[OF Cons.prems(1) v, of "\<lambda>_. True" vss] in simp)
qed simp

lemma Encode_all_new_fits:
  assumes "k + length vss \<le> 32" "k \<le> 31"
    and "\<forall>v\<in>set vss. v \<noteq> [] \<and> length v \<le> 2 ^ k"
  shows "\<exists>m'. Encode_all (\<lambda>_. True) new_Message vss = Inr (True, m')"
proof (cases vss)
  case (Cons v ws)
  have "(2::nat) ^ k \<le> 2 ^ 31" using assms(2) by (intro power_increasing) auto
  moreover have v0: "v \<noteq> []" "length v \<le> 2 ^ k" using assms(3) Cons by auto
  ultimately have v: "v \<noteq> []" "length v \<le> 2 ^ 31" "length v \<le> 2 ^ k"
    by (auto intro: order_trans)
  have b0: "unat (buffer_length new_Message) + length v \<le> 2 ^ 31"
    using v(2) by (simp add: new_Message_def)
  note g = grown_rep[OF msg_rep_new v(2) b0]
  have "unat (buffer_length (grown new_Message [] v)) \<le> 2 ^ k"
    unfolding g(2) using v(3) by (intro np2_least) (simp add: new_Message_def)
  then have "\<exists>m'. Encode_all (\<lambda>_. True) (grown new_Message [] v) ws = Inr (True, m')"
    using assms Cons by (intro Encode_all_fits[OF g(1), of k k]) auto
  then show ?thesis
    using Encode_all_Cons[OF msg_rep_new v(1,2), of "\<lambda>_. True" ws] b0 Cons by simp
qed simp

section \<open>Typed values\<close>

text \<open>What \<open>memcpy\<close> relies on for a trivially copyable \<open>T\<close>: the object representation has
  \<open>sizeof(T)\<close> bytes and determines the value.\<close>

locale trivially_copyable =
  fixes sizeof_T :: nat
    and to_bytes :: "'a \<Rightarrow> uint8 list"
    and of_bytes :: "uint8 list \<Rightarrow> 'a"
  assumes length_to_bytes: "length (to_bytes v) = sizeof_T"
    and sizeof_pos: "0 < sizeof_T"
    and of_to_bytes: "of_bytes (to_bytes v) = v"
begin

lemma decoded_values:
  "map (map_option of_bytes \<circ> those) (map (map Some) (map to_bytes xs)) = map Some xs"
proof -
  have "those (map Some ys) = Some ys" for ys :: "uint8 list" by (induction ys) simp_all
  then show ?thesis by (simp add: comp_def of_to_bytes)
qed

lemma sizes: "map length (map to_bytes xs) = replicate (length xs) sizeof_T"
  by (induction xs) (simp_all add: length_to_bytes)

lemma typed_round_trip:
  assumes "sizeof_T \<le> 2 ^ k" "k + length xs \<le> 32" "k \<le> 31"
  shows "\<exists>m m' bss. Encode_all (\<lambda>_. True) new_Message (map to_bytes xs) = Inr (True, m)
    \<and> Decode_all m (replicate (length xs) sizeof_T) = Inr (Some bss, m')
    \<and> map (map_option of_bytes \<circ> those) bss = map Some xs
    \<and> GetSizeRead m' = GetDataLength m'"
proof -
  let ?vss = "map to_bytes xs"
  have "(2::nat) ^ k \<le> 2 ^ 31" using assms(3) by (intro power_increasing) auto
  with assms(1) have "sizeof_T \<le> 2 ^ 31" by (rule order_trans)
  then have v: "\<forall>v\<in>set ?vss. v \<noteq> [] \<and> length v \<le> 2 ^ k" "\<forall>v\<in>set ?vss. v \<noteq> [] \<and> length v \<le> 2 ^ 31"
    using assms(1) sizeof_pos by (auto simp: length_to_bytes simp flip: length_greater_0_conv)
  obtain m where m: "Encode_all (\<lambda>_. True) new_Message ?vss = Inr (True, m)"
    using Encode_all_new_fits[OF _ assms(3) v(1)] assms(2) by auto
  have rep: "msg_rep m ([] @ concat ?vss)" "unat (size_read m) = length []"
    using Encode_all_rep[OF msg_rep_new v(2) m] by (simp_all add: new_Message_def)
  obtain m' where "Decode_all m (map length ?vss) = Inr (Some (map (map Some) ?vss), m')"
    "unat (size_read m') = length (concat ?vss)" "msg_rep m' (concat ?vss)"
    using Decode_all_rep[OF rep v(2)] by auto
  moreover from this have "GetSizeRead m' = GetDataLength m'"
    by (simp add: GetSizeRead_def GetDataLength_def msg_rep_def word_unat_eq_iff)
  ultimately show ?thesis
    using m decoded_values[of xs] unfolding sizes by blast
qed

end

text \<open>The object representation of an unsigned integer on a little-endian target.\<close>

definition le_bytes :: "nat \<Rightarrow> 'a::len word \<Rightarrow> uint8 list" where
  "le_bytes n w = map (\<lambda>i. ucast (drop_bit (8 * i) w)) [0..<n]"

fun le_value :: "uint8 list \<Rightarrow> 'a::len word" where
  "le_value [] = 0"
| "le_value (b # bs) = ucast b OR push_bit 8 (le_value bs)"

lemma bit_le_value:
  "bit (le_value bs :: 'a::len word) i \<longleftrightarrow>
     i < LENGTH('a) \<and> i div 8 < length bs \<and> bit (bs ! (i div 8)) (i mod 8)"
proof (induction bs arbitrary: i)
  case (Cons b bs)
  show ?case
  proof (cases "i < 8")
    case True
    then show ?thesis by (auto simp: bit_or_iff bit_push_bit_iff bit_unsigned_iff)
  next
    case False
    then have "\<not> bit b i" using bit_imp_le_length[of b i] by auto
    moreover have "i div 8 = Suc ((i - 8) div 8)" "i mod 8 = (i - 8) mod 8"
      using False by (simp_all add: le_div_geq le_mod_geq)
    ultimately show ?thesis
      using False Cons.IH[of "i - 8"] by (auto simp: bit_or_iff bit_push_bit_iff bit_unsigned_iff)
  qed
qed simp

lemma le_value_le_bytes:
  assumes "8 * n = LENGTH('a)"
  shows "le_value (le_bytes n w) = (w :: 'a::len word)"
proof (rule bit_word_eqI)
  fix i assume i: "i < LENGTH('a)"
  then have "i div 8 < n" using assms by (simp add: less_mult_imp_div_less mult.commute)
  moreover have "8 * (i div 8) + i mod 8 = i" "i mod 8 < 8" by simp_all
  ultimately show "bit (le_value (le_bytes n w) :: 'a word) i \<longleftrightarrow> bit w i"
    using i by (simp add: bit_le_value le_bytes_def bit_unsigned_iff bit_drop_bit_eq add.commute
        del: mod_less_divisor)
qed

lemma length_le_bytes [simp]: "length (le_bytes n w) = n"
  by (simp add: le_bytes_def)

interpretation u32: trivially_copyable 4 "le_bytes 4 :: uint32 \<Rightarrow> uint8 list" le_value
  by standard (simp_all add: le_value_le_bytes)

interpretation u64: trivially_copyable 8 "le_bytes 8 :: 64 word \<Rightarrow> uint8 list" le_value
  by standard (simp_all add: le_value_le_bytes)

section \<open>Properties\<close>

text \<open>The messages a client can build: any interleaving of writes (successful or refused by the
  heap), reads and \<open>ResetRead\<close>, of values of at least one byte and at most \<open>2\<^sup>3\<^sup>1\<close> bytes.\<close>

inductive msg_reach :: "(size_t \<Rightarrow> bool) \<Rightarrow> Message \<Rightarrow> bool" for heap where
  new: "msg_reach heap new_Message"
| enc: "msg_reach heap m \<Longrightarrow> v \<noteq> [] \<Longrightarrow> length v \<le> 2 ^ 31 \<Longrightarrow> Encode heap m v = Inr (ok, m')
    \<Longrightarrow> msg_reach heap m'"
| dec: "msg_reach heap m \<Longrightarrow> 0 < n \<Longrightarrow> n \<le> 2 ^ 31 \<Longrightarrow> Decode m n = Inr (r, m')
    \<Longrightarrow> msg_reach heap m'"
| reset: "msg_reach heap m \<Longrightarrow> msg_reach heap (ResetRead m)"

lemma msg_reach_rep: "msg_reach heap m \<Longrightarrow> \<exists>vs. msg_rep m vs"
proof (induction rule: msg_reach.induct)
  case (enc m v ok m')
  then obtain vs where rep: "msg_rep m vs" by blast
  show ?case
    using enc.hyps Encode_more[OF rep enc.hyps(2,3), of heap] grown_rep(1)[OF rep enc.hyps(3)] rep
    by (auto split: if_splits simp: not_less)
next
  case (dec m n r m')
  then obtain vs where rep: "msg_rep m vs" by blast
  show ?case
    using dec.hyps(4) Decode_rep[OF rep dec.hyps(2,3)] Decode_rep_next(1)[OF rep dec.hyps(2,3)] rep
    by (auto split: if_splits)
qed (auto intro: msg_rep_new msg_rep_ResetRead)

text \<open>\<open>NextOfTwoSize\<close> computes, by shifts and ors alone, the least power of two that is not
  below its argument, for every argument up to \<open>2\<^sup>3\<^sup>1\<close>; for a larger one the final increment wraps
  and it returns 0.\<close>

theorem NextOfTwoSize_least:
  "if unat x \<le> 2 ^ 31
   then \<exists>k. unat (NextOfTwoSize x) = 2 ^ k \<and> unat x \<le> 2 ^ k \<and> (\<forall>j<k. 2 ^ j < unat x)
   else NextOfTwoSize x = 0"
proof (cases "unat x \<le> 2 ^ 31")
  case True
  obtain k where k: "np2 (unat x) = 2 ^ k" using np2_power by blast
  have "2 ^ j < unat x" if "j < k" for j
  proof (rule ccontr)
    assume "\<not> 2 ^ j < unat x"
    then have "(2::nat) ^ k \<le> 2 ^ j" using np2_least[of "unat x" j] k by simp
    with that show False by simp
  qed
  with True k np2_ge[of "unat x"] show ?thesis by (auto simp: NextOfTwoSize_np2)
qed (simp add: NextOfTwoSize_np2 flip: unat_eq_zero)

theorem NextOfTwoSize_least_witness:
  "(\<exists>k. unat (NextOfTwoSize 100) = 2 ^ k \<and> (100::nat) \<le> 2 ^ k) \<and> NextOfTwoSize 0xFFFFFFFF = 0"
  using NextOfTwoSize_least[of 100] NextOfTwoSize_least[of "0xFFFFFFFF"] by auto

text \<open>(C21) Memory safety of \<open>Message\<close>: whatever sequence of writes, reads and resets built the
  message, a write of any size up to \<open>2\<^sup>3\<^sup>1\<close> never touches memory outside the block (its only fault
  is the failed growth check), a read never faults, and the read position and the data stay inside
  the block, whatever the heap refuses.\<close>

theorem message_memory_safe:
  assumes "msg_reach heap m"
  shows "GetDataLength m \<le> GetBufferSize m \<and> GetSizeRead m \<le> GetBufferSize m
    \<and> (case GetBuffer m of None \<Rightarrow> GetBufferSize m = 0
       | Some bs \<Rightarrow> length bs = unat (GetBufferSize m))
    \<and> (\<forall>v f. v \<noteq> [] \<and> length v \<le> 2 ^ 31 \<and> Encode heap m v = Inl f \<longrightarrow> f = CheckFailed)
    \<and> (\<forall>n. 0 < n \<and> n \<le> 2 ^ 31 \<longrightarrow> (\<exists>r. Decode m n = Inr r))"
proof -
  obtain vs where rep: "msg_rep m vs" using msg_reach_rep[OF assms] by blast
  have "f = CheckFailed" if "v \<noteq> []" "length v \<le> 2 ^ 31" "Encode heap m v = Inl f" for v f
    using that(3) Encode_more[OF rep that(1,2), of heap] by (simp split: if_splits)
  moreover have "\<exists>r. Decode m n = Inr r" if "0 < n" "n \<le> 2 ^ 31" for n
    using Decode_rep[OF rep that] by simp
  moreover have "GetDataLength m \<le> GetBufferSize m \<and> GetSizeRead m \<le> GetBufferSize m
    \<and> (case GetBuffer m of None \<Rightarrow> GetBufferSize m = 0
       | Some bs \<Rightarrow> length bs = unat (GetBufferSize m))"
    using rep by (auto simp: msg_rep_def GetDataLength_def GetBufferSize_def GetSizeRead_def
        GetBuffer_def word_le_nat_alt split: if_splits)
  ultimately show ?thesis by blast
qed

theorem message_memory_safe_witness:
  "\<exists>r. Decode (ResetRead new_Message) 4 = Inr r"
  using message_memory_safe[OF msg_reach.reset[OF msg_reach.new, of "\<lambda>_. True"]] by simp

text \<open>(C12) Round trip: values written to a new message are read back in the same order and with
  the same bytes, and the reads consume exactly the data, for up to \<open>32 - k\<close> values of at most
  \<open>2\<^sup>k\<close> bytes when the heap grants every request.\<close>

theorem message_round_trip:
  assumes "\<forall>v\<in>set vss. v \<noteq> [] \<and> length v \<le> 2 ^ k" "k + length vss \<le> 32" "k \<le> 31"
  shows "\<exists>m m'. Encode_all (\<lambda>_. True) new_Message vss = Inr (True, m)
    \<and> unat (GetDataLength m) = length (concat vss)
    \<and> Decode_all m (map length vss) = Inr (Some (map (map Some) vss), m')
    \<and> GetSizeRead m' = GetDataLength m'"
proof -
  have "(2::nat) ^ k \<le> 2 ^ 31" using assms(3) by (intro power_increasing) auto
  with assms(1) have v: "\<forall>v\<in>set vss. v \<noteq> [] \<and> length v \<le> 2 ^ 31" by (blast intro: order_trans)
  obtain m where m: "Encode_all (\<lambda>_. True) new_Message vss = Inr (True, m)"
    using Encode_all_new_fits[OF assms(2,3,1)] by auto
  have rep: "msg_rep m ([] @ concat vss)" "unat (size_read m) = length []"
    using Encode_all_rep[OF msg_rep_new v m] by (simp_all add: new_Message_def)
  obtain m' where d: "Decode_all m (map length vss) = Inr (Some (map (map Some) vss), m')"
    "unat (size_read m') = length (concat vss)" "msg_rep m' (concat vss)"
    using Decode_all_rep[OF rep v] by auto
  from d(2,3) have "GetSizeRead m' = GetDataLength m'"
    by (simp add: GetSizeRead_def GetDataLength_def msg_rep_def word_unat_eq_iff)
  moreover have "unat (GetDataLength m) = length (concat vss)"
    using rep(1) by (simp add: GetDataLength_def msg_rep_def)
  ultimately show ?thesis using m d(1) by blast
qed

theorem message_round_trip_witness:
  "\<exists>m m'. Encode_all (\<lambda>_. True) new_Message [[1, 2, 3], [4]] = Inr (True, m)
    \<and> Decode_all m [3, 1] = Inr (Some [[Some 1, Some 2, Some 3], [Some 4]], m')"
proof -
  have "map length [[1, 2, 3], [4 :: uint8]] = [3, 1]" by simp
  then show ?thesis
    using message_round_trip[of "[[1, 2, 3], [4]]" 2]
    by (simp del: Encode_all.simps Decode_all.simps list.map) (auto simp del: Encode_all.simps Decode_all.simps)
qed

text \<open>Typed round trip: up to 29 values of type \<open>uint64_t\<close> written to a new message come back
  as the same values in the same order.\<close>

theorem message_uint64_round_trip:
  assumes "length xs \<le> 29"
  shows "\<exists>m m' bss. Encode_all (\<lambda>_. True) new_Message (map (le_bytes 8) (xs :: 64 word list))
        = Inr (True, m)
    \<and> Decode_all m (replicate (length xs) 8) = Inr (Some bss, m')
    \<and> map (map_option le_value \<circ> those) bss = map Some xs
    \<and> GetSizeRead m' = GetDataLength m'"
  using u64.typed_round_trip[of 3 xs] assms by simp

theorem message_uint64_round_trip_witness:
  "\<exists>m m' bss. Encode_all (\<lambda>_. True) new_Message (map (le_bytes 8) [7 :: 64 word, 2 ^ 40])
        = Inr (True, m)
    \<and> Decode_all m [8, 8] = Inr (Some bss, m')
    \<and> map (map_option le_value \<circ> those) bss = map Some [7 :: 64 word, 2 ^ 40]"
proof -
  have "replicate (length [7 :: 64 word, 2 ^ 40]) 8 = [8, 8 :: nat]" by simp
  then show ?thesis
    using message_uint64_round_trip[of "[7, 2 ^ 40]"] by fastforce
qed

text \<open>(C29) Capacity: \<open>PrepareEncode\<close> reserves room after the end of the block instead of after the
  end of the data, so every write at least doubles the block. After \<open>n\<close> writes of any sizes it has
  at least \<open>2\<^sup>n\<^sup>-\<^sup>1\<close> bytes, and no sequence of more than 32 writes succeeds: with a heap that grants
  everything the process aborts in the growth check of \<open>Resize\<close>.\<close>

theorem message_capacity:
  assumes "\<forall>v\<in>set vss. v \<noteq> [] \<and> length v \<le> 2 ^ 31" "vss \<noteq> []"
  shows "(Encode_all heap new_Message vss = Inr (True, m) \<longrightarrow>
      2 ^ (length vss - 1) \<le> unat (GetBufferSize m) \<and> length vss \<le> 32)
    \<and> (32 < length vss \<longrightarrow> Encode_all (\<lambda>_. True) new_Message vss = Inl CheckFailed)"
proof -
  have n: "2 ^ (length vss - 1) \<le> unat (buffer_length m) \<and> length vss \<le> 32"
    if m: "Encode_all heap new_Message vss = Inr (True, m)" for m heap
  proof -
    have "unat (buffer_length m) \<le> 2 ^ 31"
      using Encode_all_rep[OF msg_rep_new assms(1) m] by (simp add: msg_rep_def)
    with Encode_all_new_grows[OF assms(2,1) m] have "(2::nat) ^ (length vss - 1) \<le> 2 ^ 31"
      by (rule order_trans)
    then have "length vss - 1 \<le> 31" by (rule power_le_imp_le_exp[rotated]) simp
    then show ?thesis using Encode_all_new_grows[OF assms(2,1) m] by simp
  qed
  have "Encode_all (\<lambda>_. True) new_Message vss = Inl CheckFailed" if "32 < length vss"
    using n[of "\<lambda>_. True"] Encode_all_total[OF msg_rep_new assms(1)] that by fastforce
  with n show ?thesis by (simp add: GetBufferSize_def)
qed

theorem message_capacity_witness:
  "Encode_all (\<lambda>_. True) new_Message (replicate 33 [(7 :: uint8)]) = Inl CheckFailed"
proof -
  have "\<forall>v\<in>set (replicate 33 [7 :: uint8]). v \<noteq> [] \<and> length v \<le> 2 ^ 31"
    "replicate 33 [7 :: uint8] \<noteq> []" "32 < length (replicate 33 [7 :: uint8])"
    by simp_all
  then show ?thesis using message_capacity by blast
qed

text \<open>What a read returns: \<open>PrepareDecode\<close> compares with the size of the block, not of the
  data. On every message a client can build, a read of \<open>n\<close> bytes succeeds exactly when it ends
  inside the block; a read that starts at or after the end of the data succeeds there too and
  returns bytes that were never written.\<close>

theorem decode_past_data:
  assumes "msg_reach heap m" "0 < n" "n \<le> 2 ^ 31"
  shows "\<exists>r m'. Decode m n = Inr (r, m')
    \<and> (r \<noteq> None \<longleftrightarrow> unat (GetSizeRead m) + n \<le> unat (GetBufferSize m))
    \<and> (r = None \<longrightarrow> m' = m)
    \<and> (r \<noteq> None \<longrightarrow> unat (GetSizeRead m') = unat (GetSizeRead m) + n)
    \<and> (r \<noteq> None \<and> GetDataLength m \<le> GetSizeRead m \<longrightarrow> r = Some (replicate n None))"
proof -
  obtain vs where rep: "msg_rep m vs" using msg_reach_rep[OF assms(1)] by blast
  have len: "length vs = unat (data_length m)" "length vs \<le> unat (buffer_length m)"
    using rep by (simp_all add: msg_rep_def)
  show ?thesis
  proof (cases "unat (size_read m) + n \<le> unat (buffer_length m)")
    case True
    have "unat (size_read m + word_of_nat n) = unat (size_read m) + n"
      by (rule Decode_rep_next(2)[OF rep assms(2,3) True])
    moreover have "n - (length vs - unat (size_read m)) = n \<and> drop (unat (size_read m)) vs = []"
      if "data_length m \<le> size_read m"
      using that len(1) by (simp add: word_le_nat_alt)
    ultimately show ?thesis
      using Decode_rep[OF rep assms(2,3)] True len
      by (auto simp: GetSizeRead_def GetBufferSize_def GetDataLength_def drop_map word_le_nat_alt
          min_def)
  next
    case False
    then show ?thesis
      using Decode_rep[OF rep assms(2,3)] by (simp add: GetSizeRead_def GetBufferSize_def)
  qed
qed

definition three_bytes :: Message where
  "three_bytes = grown new_Message [] [1, 2, 3]"

theorem decode_past_data_witness:
  "\<exists>m. Decode (three_bytes\<lparr>size_read := 3\<rparr>) 1 = Inr (Some [None], m)"
proof -
  have b: "unat (buffer_length new_Message) + length [1 :: uint8, 2, 3] \<le> 2 ^ 31"
    by (simp add: new_Message_def)
  have bl: "buffer_length three_bytes = 4" "data_length three_bytes = 3" "size_read three_bytes = 0"
    by (simp_all add: three_bytes_def grown_def new_Message_def np2.simps)
  have rep: "msg_rep three_bytes [1, 2, 3]"
    using grown_rep(1)[OF msg_rep_new _ b] by (simp add: three_bytes_def)
  have "msg_reach (\<lambda>_. True) three_bytes"
    using msg_reach.enc[OF msg_reach.new, of "[1, 2, 3]" "\<lambda>_. True"] b
      Encode_more[OF msg_rep_new, of "[1, 2, 3]" "\<lambda>_. True"]
    by (simp add: three_bytes_def)
  moreover have "Decode three_bytes 3 = Inr (Some [Some 1, Some 2, Some 3], three_bytes\<lparr>size_read := 3\<rparr>)"
    using Decode_rep[OF rep, of 3] by (simp add: bl)
  ultimately have "msg_reach (\<lambda>_. True) (three_bytes\<lparr>size_read := 3\<rparr>)"
    by (rule_tac msg_reach.dec[where n = 3]) simp_all
  from decode_past_data[OF this, of 1] show ?thesis
    by (auto simp: GetSizeRead_def GetBufferSize_def GetDataLength_def bl)
qed

end
