(* ===== verification/Fips_Sha256.thy ===== *)
theory Fips_Sha256
  imports FF_Prelude
begin

text \<open>
  The hash function of FIPS 180-4, independent of the program: the functions on words with rotations
  as \<open>word_rotr\<close>, the constants as bits of roots of primes, the message schedule as a recursion, the
  compression of a block, padding with a 64-bit length. The lemmas compute with the constants.
\<close>

unbundle bit_operations_syntax

type_synonym byte = "8 word"
type_synonym u32 = "32 word"

section \<open>Functions on words\<close>

definition fips_Ch :: "u32 \<Rightarrow> u32 \<Rightarrow> u32 \<Rightarrow> u32" where
  "fips_Ch x y z = (x AND y) OR ((NOT x) AND z)"

definition fips_Maj :: "u32 \<Rightarrow> u32 \<Rightarrow> u32 \<Rightarrow> u32" where
  "fips_Maj x y z = (x AND y) OR (x AND z) OR (y AND z)"

definition fips_Sigma0 :: "u32 \<Rightarrow> u32" where
  "fips_Sigma0 x = word_rotr 2 x XOR word_rotr 13 x XOR word_rotr 22 x"

definition fips_Sigma1 :: "u32 \<Rightarrow> u32" where
  "fips_Sigma1 x = word_rotr 6 x XOR word_rotr 11 x XOR word_rotr 25 x"

definition fips_sigma0 :: "u32 \<Rightarrow> u32" where
  "fips_sigma0 x = word_rotr 7 x XOR word_rotr 18 x XOR drop_bit 3 x"

definition fips_sigma1 :: "u32 \<Rightarrow> u32" where
  "fips_sigma1 x = word_rotr 17 x XOR word_rotr 19 x XOR drop_bit 10 x"

section \<open>Constants\<close>

text \<open>The constants: the first 32 bits of the fractional parts of the cube roots and the square roots of
  the first primes. \<open>root_bits k n b 0\<close> is the integer \<open>k\<close>-th root of \<open>n\<close>, bit by bit.\<close>

fun root_bits :: "nat \<Rightarrow> nat \<Rightarrow> nat \<Rightarrow> nat \<Rightarrow> nat" where
  "root_bits k n 0 r = r"
| "root_bits k n (Suc b) r = root_bits k n b (if (r + 2 ^ b) ^ k \<le> n then r + 2 ^ b else r)"

definition first_primes :: "nat list" where
  "first_primes =
    [2, 3, 5, 7, 11, 13, 17, 19, 23, 29, 31, 37, 41, 43, 47, 53,
     59, 61, 67, 71, 73, 79, 83, 89, 97, 101, 103, 107, 109, 113, 127, 131,
     137, 139, 149, 151, 157, 163, 167, 173, 179, 181, 191, 193, 197, 199, 211, 223,
     227, 229, 233, 239, 241, 251, 257, 263, 269, 271, 277, 281, 283, 293, 307, 311]"

definition fips_frac :: "nat \<Rightarrow> nat \<Rightarrow> u32" where
  "fips_frac k p = word_of_nat (root_bits k (p * 2 ^ (32 * k)) 37 0)"

definition fips_K :: "nat \<Rightarrow> u32" where
  "fips_K t = fips_frac 3 (first_primes ! t)"

type_synonym state8 = "u32 \<times> u32 \<times> u32 \<times> u32 \<times> u32 \<times> u32 \<times> u32 \<times> u32"

definition fips_H0 :: state8 where
  "fips_H0 = (fips_frac 2 2, fips_frac 2 3, fips_frac 2 5, fips_frac 2 7,
              fips_frac 2 11, fips_frac 2 13, fips_frac 2 17, fips_frac 2 19)"

section \<open>The hash\<close>

text \<open>A block as 16 big-endian words, the schedule, the rounds on the eight working variables.\<close>

fun fips_W :: "byte list \<Rightarrow> nat \<Rightarrow> u32" where
  "fips_W M t =
     (if t < 16 then word_rcat (take 4 (drop (4 * t) M))
      else fips_sigma1 (fips_W M (t - 2)) + fips_W M (t - 7)
           + fips_sigma0 (fips_W M (t - 15)) + fips_W M (t - 16))"

declare fips_W.simps [simp del]

fun fips_round :: "byte list \<Rightarrow> state8 \<Rightarrow> nat \<Rightarrow> state8" where
  "fips_round M (a, b, c, d, e, f, g, h) t =
     (let T1 = h + fips_Sigma1 e + fips_Ch e f g + fips_K t + fips_W M t;
          T2 = fips_Sigma0 a + fips_Maj a b c
      in (T1 + T2, a, b, c, d + T1, e, f, g))"

fun fips_compress :: "state8 \<Rightarrow> byte list \<Rightarrow> state8" where
  "fips_compress (a, b, c, d, e, f, g, h) M =
     (case foldl (fips_round M) (a, b, c, d, e, f, g, h) [0..<64] of
        (a', b', c', d', e', f', g', h') \<Rightarrow>
          (a + a', b + b', c + c', d + d', e + e', f + f', g + g', h + h'))"

fun state_list :: "state8 \<Rightarrow> u32 list" where
  "state_list (a, b, c, d, e, f, g, h) = [a, b, c, d, e, f, g, h]"

text \<open>The blocks of a message whose length is a multiple of 64.\<close>

definition chunk :: "byte list \<Rightarrow> nat \<Rightarrow> byte list" where
  "chunk msg i = take 64 (drop (64 * i) msg)"

definition chunks :: "byte list \<Rightarrow> byte list list" where
  "chunks msg = map (chunk msg) [0..<length msg div 64]"

text \<open>Padding with a given 64-bit length field, and the FIPS padding, whose field is the length of
  the message in bits.\<close>

definition pad_with :: "64 word \<Rightarrow> byte list \<Rightarrow> byte list" where
  "pad_with bits msg =
     msg @ [0x80] @ replicate ((119 - length msg mod 64) mod 64) 0
       @ map (\<lambda>i. ucast (drop_bit (8 * (7 - i)) bits)) [0..<8]"

definition fips_pad :: "byte list \<Rightarrow> byte list" where
  "fips_pad msg = pad_with (of_nat (8 * length msg)) msg"

text \<open>The digest is the final state, each word as four bytes, most significant first.\<close>

definition word_bytes :: "u32 \<Rightarrow> byte list" where
  "word_bytes x = map (\<lambda>i. ucast (drop_bit (8 * (3 - i)) x)) [0..<4]"

definition hash_padded :: "byte list \<Rightarrow> byte list" where
  "hash_padded msg = concat (map word_bytes (state_list (foldl fips_compress fips_H0 (chunks msg))))"

definition fips_sha256 :: "byte list \<Rightarrow> byte list" where
  "fips_sha256 msg = hash_padded (fips_pad msg)"

section \<open>Computing the constants\<close>

lemma root_bits_root:
  assumes "r ^ k \<le> n" "n < (r + 2 ^ b) ^ k"
  shows "root_bits k n b r ^ k \<le> n \<and> n < (root_bits k n b r + 1) ^ k"
  using assms by (induction b arbitrary: r) (auto simp: mult_2 add.assoc)

lemma int_root_unique:
  assumes "(c::nat) ^ k \<le> n" "n < (c + 1) ^ k" "d ^ k \<le> n" "n < (d + 1) ^ k"
  shows "c = d"
proof (rule ccontr)
  assume "c \<noteq> d"
  then consider "c + 1 \<le> d" | "d + 1 \<le> c" by linarith
  then show False
    using assms power_mono[of "c + 1" d k] power_mono[of "d + 1" c k] by cases auto
qed

lemma fips_frac_eq:
  assumes "0 < k" "c < 2 ^ 37" "c ^ k \<le> p * 2 ^ (32 * k)" "p * 2 ^ (32 * k) < (c + 1) ^ k"
  shows "fips_frac k p = word_of_nat c"
proof -
  have "(c + 1) ^ k \<le> (2 ^ 37) ^ k" by (rule power_mono) (use assms(2) in auto)
  then have "p * 2 ^ (32 * k) < (0 + 2 ^ 37) ^ k" using assms(4) by simp
  moreover have "0 ^ k \<le> p * 2 ^ (32 * k)" using assms(1) by (simp add: zero_power)
  ultimately have "root_bits k (p * 2 ^ (32 * k)) 37 0 = c"
    using root_bits_root[of 0 k "p * 2 ^ (32 * k)" 37] assms by (intro int_root_unique[of _ k]) auto
  then show ?thesis by (simp add: fips_frac_def)
qed

text \<open>A word \<open>x\<close> is the fraction of the root of \<open>p\<close> with integer part \<open>a\<close>.\<close>

definition frac_of :: "nat \<Rightarrow> (nat \<Rightarrow> nat) \<Rightarrow> nat \<Rightarrow> u32 \<Rightarrow> bool" where
  "frac_of k a p x \<longleftrightarrow> (let c = a p * 2 ^ 32 + unat x
     in c < 2 ^ 37 \<and> c ^ k \<le> p * 2 ^ (32 * k) \<and> p * 2 ^ (32 * k) < (c + 1) ^ k)"

lemma u32_two_32: "(4294967296 :: u32) = 0"
  by (simp add: word_eq_iff_unsigned)

lemma frac_of_eq: "0 < k \<Longrightarrow> frac_of k a p x \<Longrightarrow> fips_frac k p = x"
  using fips_frac_eq[of k "a p * 2 ^ 32 + unat x" p]
  by (auto simp: frac_of_def Let_def u32_two_32)

lemma fracs_eq: "list_all2 (frac_of k a) ps xs \<Longrightarrow> 0 < k \<Longrightarrow> map (fips_frac k) ps = xs"
  by (induction rule: list_all2_induct) (auto simp: frac_of_eq)

end
