(* ===== verification/Sha256.thy ===== *)
theory Sha256
  imports Fips_Sha256
begin

text \<open>
  \<open>class SHA256\<close> and \<open>sha256\<close> (\<open>source/utils/sha256.h\<close>, \<open>sha256.cpp\<close>), which \<open>RequestImpl\<close> uses to
  name a request. The macros of the header are functions on 32-bit words, the context is a record,
  a pointer argument is the list of the bytes it points to, and a copy or an access outside a block
  is a fault.
\<close>

unbundle bit_operations_syntax

section \<open>The macros of \<open>sha256.h\<close>\<close>

definition SHA2_SHFR :: "u32 \<Rightarrow> nat \<Rightarrow> u32" where
  "SHA2_SHFR x n = drop_bit n x"

definition SHA2_ROTR :: "u32 \<Rightarrow> nat \<Rightarrow> u32" where
  "SHA2_ROTR x n = (drop_bit n x) OR (push_bit (32 - n) x)"

definition SHA2_CH :: "u32 \<Rightarrow> u32 \<Rightarrow> u32 \<Rightarrow> u32" where
  "SHA2_CH x y z = (x AND y) XOR ((NOT x) AND z)"

definition SHA2_MAJ :: "u32 \<Rightarrow> u32 \<Rightarrow> u32 \<Rightarrow> u32" where
  "SHA2_MAJ x y z = (x AND y) XOR (x AND z) XOR (y AND z)"

definition SHA256_F1 :: "u32 \<Rightarrow> u32" where
  "SHA256_F1 x = SHA2_ROTR x 2 XOR SHA2_ROTR x 13 XOR SHA2_ROTR x 22"

definition SHA256_F2 :: "u32 \<Rightarrow> u32" where
  "SHA256_F2 x = SHA2_ROTR x 6 XOR SHA2_ROTR x 11 XOR SHA2_ROTR x 25"

definition SHA256_F3 :: "u32 \<Rightarrow> u32" where
  "SHA256_F3 x = SHA2_ROTR x 7 XOR SHA2_ROTR x 18 XOR SHA2_SHFR x 3"

definition SHA256_F4 :: "u32 \<Rightarrow> u32" where
  "SHA256_F4 x = SHA2_ROTR x 17 XOR SHA2_ROTR x 19 XOR SHA2_SHFR x 10"

definition SHA2_UNPACK32 :: "u32 \<Rightarrow> byte list" where
  "SHA2_UNPACK32 x =
     [ucast (drop_bit 24 x), ucast (drop_bit 16 x), ucast (drop_bit 8 x), ucast x]"

definition SHA2_PACK32 :: "byte list \<Rightarrow> u32" where
  "SHA2_PACK32 str =
     ucast (str ! 3) OR push_bit 8 (ucast (str ! 2))
       OR push_bit 16 (ucast (str ! 1)) OR push_bit 24 (ucast (str ! 0))"

text \<open>The constants, row by row as the source lays them out.\<close>

definition sha256_k :: "u32 list" where
  "sha256_k = concat
    [[0x428a2f98, 0x71374491, 0xb5c0fbcf, 0xe9b5dba5, 0x3956c25b, 0x59f111f1],
     [0x923f82a4, 0xab1c5ed5, 0xd807aa98, 0x12835b01, 0x243185be, 0x550c7dc3],
     [0x72be5d74, 0x80deb1fe, 0x9bdc06a7, 0xc19bf174, 0xe49b69c1, 0xefbe4786],
     [0x0fc19dc6, 0x240ca1cc, 0x2de92c6f, 0x4a7484aa, 0x5cb0a9dc, 0x76f988da],
     [0x983e5152, 0xa831c66d, 0xb00327c8, 0xbf597fc7, 0xc6e00bf3, 0xd5a79147],
     [0x06ca6351, 0x14292967, 0x27b70a85, 0x2e1b2138, 0x4d2c6dfc, 0x53380d13],
     [0x650a7354, 0x766a0abb, 0x81c2c92e, 0x92722c85, 0xa2bfe8a1, 0xa81a664b],
     [0xc24b8b70, 0xc76c51a3, 0xd192e819, 0xd6990624, 0xf40e3585, 0x106aa070],
     [0x19a4c116, 0x1e376c08, 0x2748774c, 0x34b0bcb5, 0x391c0cb3, 0x4ed8aa4a],
     [0x5b9cca4f, 0x682e6ff3, 0x748f82ee, 0x78a5636f, 0x84c87814, 0x8cc70208],
     [0x90befffa, 0xa4506ceb, 0xbef9a3f7, 0xc67178f2]]"

section \<open>The context\<close>

record SHA256 =
  m_tot_len :: u32
  m_len :: u32
  m_block :: "byte list"
  m_h :: "u32 list"

text \<open>\<open>SHA256()\<close>: the class has no constructor, so value-initialisation zeroes the members.\<close>

definition new_SHA256 :: SHA256 where
  "new_SHA256 = \<lparr>m_tot_len = 0, m_len = 0, m_block = replicate 128 0, m_h = replicate 8 0\<rparr>"

definition init :: "SHA256 \<Rightarrow> SHA256" where
  "init ctx = ctx\<lparr>m_h := [0x6a09e667, 0xbb67ae85, 0x3c6ef372, 0xa54ff53a,
                          0x510e527f, 0x9b05688c, 0x1f83d9ab, 0x5be0cd19],
                  m_len := 0, m_tot_len := 0\<rparr>"

text \<open>The body of the block loop of \<open>transform\<close>: the two loops that fill \<open>w\<close> in index order, the 64
  rounds on \<open>wv\<close>, and the addition into \<open>m_h\<close>.\<close>

definition schedule_step :: "u32 list \<Rightarrow> nat \<Rightarrow> u32 list" where
  "schedule_step w j =
     w @ [SHA256_F4 (w ! (j - 2)) + w ! (j - 7) + SHA256_F3 (w ! (j - 15)) + w ! (j - 16)]"

definition schedule :: "byte list \<Rightarrow> u32 list" where
  "schedule sub_block =
     foldl schedule_step (map (\<lambda>j. SHA2_PACK32 (drop (4 * j) sub_block)) [0..<16]) [16..<64]"

definition round_step :: "u32 list \<Rightarrow> u32 list \<Rightarrow> nat \<Rightarrow> u32 list" where
  "round_step w wv j =
     (let t1 = wv ! 7 + SHA256_F2 (wv ! 4) + SHA2_CH (wv ! 4) (wv ! 5) (wv ! 6)
               + sha256_k ! j + w ! j;
          t2 = SHA256_F1 (wv ! 0) + SHA2_MAJ (wv ! 0) (wv ! 1) (wv ! 2);
          wv = wv[7 := wv ! 6];
          wv = wv[6 := wv ! 5];
          wv = wv[5 := wv ! 4];
          wv = wv[4 := wv ! 3 + t1];
          wv = wv[3 := wv ! 2];
          wv = wv[2 := wv ! 1];
          wv = wv[1 := wv ! 0]
      in wv[0 := t1 + t2])"

definition transform_block :: "u32 list \<Rightarrow> byte list \<Rightarrow> u32 list" where
  "transform_block h sub_block =
     (let w = schedule sub_block;
          wv = foldl (round_step w) h [0..<64]
      in map (\<lambda>j. h ! j + wv ! j) [0..<8])"

text \<open>The block loop: \<open>i << 6\<close> is computed in \<open>int\<close>, and the sub-block has to lie in the message.\<close>

fun transform_loop :: "u32 list \<Rightarrow> byte list \<Rightarrow> nat \<Rightarrow> nat \<Rightarrow> u32 list res" where
  "transform_loop h message i 0 = Inr h"
| "transform_loop h message i (Suc n) =
     (if 64 * int i > 2147483647 then Inl SignedOverflow
      else if length message < 64 * i + 64 then Inl OutOfBounds
      else transform_loop (transform_block h (take 64 (drop (64 * i) message))) message (i + 1) n)"

definition transform :: "SHA256 \<Rightarrow> byte list \<Rightarrow> u32 \<Rightarrow> SHA256 res" where
  "transform ctx message block_nb =
     res_bind (transform_loop (m_h ctx) message 0 (nat (sint block_nb))) (\<lambda>h.
       Inr (ctx\<lparr>m_h := h\<rparr>))"

text \<open>\<open>memcpy\<close> and \<open>memset\<close> into a block at an offset.\<close>

definition memcpy_at :: "byte list \<Rightarrow> nat \<Rightarrow> byte list \<Rightarrow> nat \<Rightarrow> byte list res" where
  "memcpy_at dst off src n =
     (if off + n \<le> length dst \<and> n \<le> length src
      then Inr (take off dst @ take n src @ drop (off + n) dst)
      else Inl OutOfBounds)"

definition update :: "SHA256 \<Rightarrow> byte list \<Rightarrow> u32 \<Rightarrow> SHA256 res" where
  "update ctx message len =
     (let tmp_len = 64 - m_len ctx;
          rem_len = (if len < tmp_len then len else tmp_len)
      in res_bind (memcpy_at (m_block ctx) (unat (m_len ctx)) message (unat rem_len)) (\<lambda>block.
         let ctx = ctx\<lparr>m_block := block\<rparr> in
         if m_len ctx + len < 64
         then Inr (ctx\<lparr>m_len := m_len ctx + len\<rparr>)
         else
           let new_len = len - rem_len;
               block_nb = new_len div 64;
               shifted_message = drop (unat rem_len) message
           in res_bind (transform ctx (m_block ctx) 1) (\<lambda>ctx.
              res_bind (transform ctx shifted_message block_nb) (\<lambda>ctx.
              let rem_len = new_len mod 64
              in res_bind (memcpy_at (m_block ctx) 0
                            (drop (unat (push_bit 6 block_nb)) shifted_message) (unat rem_len)) (\<lambda>block.
                 Inr (ctx\<lparr>m_block := block, m_len := rem_len,
                           m_tot_len := m_tot_len ctx + push_bit 6 (block_nb + 1)\<rparr>))))))"

text \<open>\<open>final\<close> returns the context and the 32 bytes it writes to \<open>digest\<close>.\<close>

definition final :: "SHA256 \<Rightarrow> (SHA256 \<times> byte list) res" where
  "final ctx =
     (let block_nb = (1 :: u32) + (if 64 - 9 < m_len ctx mod 64 then 1 else 0);
          len_b = push_bit 3 (m_tot_len ctx + m_len ctx);
          pm_len = push_bit 6 block_nb;
          zeros = unat (pm_len - m_len ctx)
      in res_bind (memcpy_at (m_block ctx) (unat (m_len ctx)) (replicate zeros 0) zeros) (\<lambda>block.
         res_bind (memcpy_at block (unat (m_len ctx)) [0x80] 1) (\<lambda>block.
         res_bind (memcpy_at block (unat (pm_len - 4)) (SHA2_UNPACK32 len_b) 4) (\<lambda>block.
         res_bind (transform (ctx\<lparr>m_block := block\<rparr>) block block_nb) (\<lambda>ctx.
           Inr (ctx, concat (map (\<lambda>i. SHA2_UNPACK32 (m_h ctx ! i)) [0..<8])))))))"

definition hex_digit :: "nat \<Rightarrow> char" where
  "hex_digit n = ''0123456789abcdef'' ! n"

text \<open>\<open>sprintf("%02x", b)\<close>.\<close>

definition hex_byte :: "byte \<Rightarrow> string" where
  "hex_byte b = [hex_digit (unat b div 16), hex_digit (unat b mod 16)]"

text \<open>\<open>input.length()\<close> is converted to \<open>unsigned int\<close>.\<close>

definition sha256 :: "byte list \<Rightarrow> string res" where
  "sha256 input =
     (let ctx = init new_SHA256
      in res_bind (update ctx input (of_nat (length input))) (\<lambda>ctx.
         res_bind (final ctx) (\<lambda>(ctx, digest). Inr (concat (map hex_byte digest)))))"

end
