(* ===== verification/Sha256_Laws.thy ===== *)
theory Sha256_Laws
  imports Sha256
begin

text \<open>
  The laws of \<open>class SHA256\<close>: the constants of the source are those of the standard, \<open>transform\<close> folds
  the FIPS compression over the blocks, the context after any number of \<open>update\<close> calls depends only
  on the bytes fed to it, and \<open>sha256\<close> is the FIPS hash of its input below \<open>2\<^sup>2\<^sup>9\<close> bytes.
\<close>

section \<open>The constants\<close>

lemma sha256_k_fips: "map (fips_frac 3) first_primes = sha256_k"
proof (rule fracs_eq)
  let ?a = "\<lambda>p. if p < 8 then 1 else if p < 27 then 2 else if p < 64 then 3 else if p < 125 then 4
    else if p < 216 then 5 else 6 :: nat"
  show "list_all2 (frac_of 3 ?a) first_primes sha256_k"
    by (simp add: first_primes_def sha256_k_def frac_of_def Let_def)
qed simp

lemma length_first_primes: "length first_primes = 64"
  by (simp add: first_primes_def)

lemma sha256_k_nth: "j < 64 \<Longrightarrow> sha256_k ! j = fips_K j"
  using nth_map[of j first_primes "fips_frac 3"] length_first_primes
  by (simp add: fips_K_def sha256_k_fips)

lemma fips_H0_list: "state_list fips_H0 = [0x6a09e667, 0xbb67ae85, 0x3c6ef372, 0xa54ff53a,
    0x510e527f, 0x9b05688c, 0x1f83d9ab, 0x5be0cd19]"
proof -
  let ?a = "\<lambda>p. if p < 4 then 1 else if p < 9 then 2 else if p < 16 then 3 else 4 :: nat"
  have "list_all2 (frac_of 2 ?a) [2, 3, 5, 7, 11, 13, 17, 19] [0x6a09e667, 0xbb67ae85, 0x3c6ef372,
      0xa54ff53a, 0x510e527f, 0x9b05688c, 0x1f83d9ab, 0x5be0cd19]"
    by (simp add: frac_of_def Let_def)
  from fracs_eq[OF this] show ?thesis by (simp add: fips_H0_def)
qed

lemma UNPACK32_bytes: "SHA2_UNPACK32 = word_bytes"
  by (simp add: fun_eq_iff SHA2_UNPACK32_def word_bytes_def upt_rec)

section \<open>The compression function\<close>

lemma ROTR_rotr: "0 < n \<Longrightarrow> n < 32 \<Longrightarrow> SHA2_ROTR x n = word_rotr n x"
  unfolding SHA2_ROTR_def
proof (rule bit_word_eqI)
  fix i assume n: "0 < n" "n < 32" and i: "i < LENGTH(32)"
  show "bit (drop_bit n x OR push_bit (32 - n) x) i \<longleftrightarrow> bit (word_rotr n x) i"
  proof (cases "i + n < 32")
    case True
    then show ?thesis
      using n i by (auto simp: bit_or_iff bit_drop_bit_eq bit_push_bit_iff bit_word_rotr_iff add.commute)
  next
    case False
    then have "(i + n) mod 32 = i - (32 - n)" using n i by (simp add: mod_if)
    moreover have "\<not> bit x (i + n)" using False bit_imp_le_length[of x "i + n"] by auto
    ultimately show ?thesis
      using n i False by (auto simp: bit_or_iff bit_drop_bit_eq bit_push_bit_iff bit_word_rotr_iff add.commute)
  qed
qed

lemma macros_fips:
  "SHA2_CH = fips_Ch" "SHA2_MAJ = fips_Maj" "SHA256_F1 = fips_Sigma0" "SHA256_F2 = fips_Sigma1"
  "SHA256_F3 = fips_sigma0" "SHA256_F4 = fips_sigma1"
proof -
  show "SHA2_CH = fips_Ch"
    by (intro ext bit_word_eqI)
      (auto simp: SHA2_CH_def fips_Ch_def bit_and_iff bit_xor_iff bit_or_iff bit_not_iff)
  show "SHA2_MAJ = fips_Maj"
    by (intro ext bit_word_eqI)
      (auto simp: SHA2_MAJ_def fips_Maj_def bit_and_iff bit_xor_iff bit_or_iff)
  show "SHA256_F1 = fips_Sigma0" "SHA256_F2 = fips_Sigma1" "SHA256_F3 = fips_sigma0"
    "SHA256_F4 = fips_sigma1"
    by (simp_all add: fun_eq_iff SHA256_F1_def SHA256_F2_def SHA256_F3_def SHA256_F4_def
        fips_Sigma0_def fips_Sigma1_def fips_sigma0_def fips_sigma1_def ROTR_rotr SHA2_SHFR_def)
qed

lemma byte_bit_lt: "bit (x :: byte) n \<Longrightarrow> n < 8"
  using bit_imp_le_length[of x n] by simp

lemma PACK32_rcat:
  assumes "4 \<le> length str"
  shows "SHA2_PACK32 str = word_rcat (take 4 str)"
proof -
  obtain a b c d rest where str: "str = a # b # c # d # rest"
    using assms by (auto simp: numeral_eq_Suc Suc_le_length_iff)
  let ?d = "ucast d :: u32" and ?c = "push_bit 8 (ucast c) :: u32"
  let ?b = "push_bit 16 (ucast b) :: u32" and ?a = "push_bit 24 (ucast a) :: u32"
  have "word_rcat [a, b, c, d] = ?d + ?c + ?b + ?a"
    by (simp add: word_rcat_def push_bit_eq_mult algebra_simps)
  also have "?d + ?c = ?d OR ?c"
    by (rule disjunctive_add) (auto simp: bit_push_bit_iff bit_unsigned_iff dest!: byte_bit_lt)
  also have "(?d OR ?c) + ?b = ?d OR ?c OR ?b"
    by (rule disjunctive_add[THEN trans])
      (auto simp: bit_push_bit_iff bit_unsigned_iff bit_or_iff or.assoc dest!: byte_bit_lt)
  also have "(?d OR ?c OR ?b) + ?a = ?d OR ?c OR ?b OR ?a"
    by (rule disjunctive_add[THEN trans])
      (auto simp: bit_push_bit_iff bit_unsigned_iff bit_or_iff or.assoc dest!: byte_bit_lt)
  finally show ?thesis by (simp add: str SHA2_PACK32_def or.assoc numeral_eq_Suc)
qed

lemma schedule_fips:
  assumes "length M = 64"
  shows "schedule M = map (fips_W M) [0..<64]"
proof -
  have base: "map (\<lambda>j. SHA2_PACK32 (drop (4 * j) M)) [0..<16] = map (fips_W M) [0..<16]"
    using assms by (auto simp: PACK32_rcat fips_W.simps)
  have step: "foldl schedule_step (map (fips_W M) [0..<16]) [16..<16 + n] = map (fips_W M) [0..<16 + n]"
    for n
  proof (induction n)
    case (Suc n)
    have upt: "[k..<16 + Suc n] = [k..<16 + n] @ [16 + n]" if "k \<le> 16" for k
      using that by (metis add_Suc_right trans_le_add1 upt_Suc_append)
    have "schedule_step (map (fips_W M) [0..<16 + n]) (16 + n) = map (fips_W M) ([0..<16 + n] @ [16 + n])"
      using fips_W.simps[of M "16 + n"]
      by (simp add: schedule_step_def macros_fips)
    with Suc show ?case by (simp only: upt foldl_append foldl.simps)
  qed simp
  show ?thesis using step[of 48] by (simp add: schedule_def base)
qed

lemma round_step_fips:
  "j < 64 \<Longrightarrow> w ! j = fips_W M j \<Longrightarrow> round_step w (state_list s) j = state_list (fips_round M s j)"
  by (cases s rule: state_list.cases) (simp add: round_step_def Let_def macros_fips sha256_k_nth numeral_eq_Suc)

lemma rounds_fips:
  assumes "n \<le> 64" "\<forall>j<n. w ! j = fips_W M j"
  shows "foldl (round_step w) (state_list s) [0..<n] = state_list (foldl (fips_round M) s [0..<n])"
  using assms by (induction n) (simp_all add: round_step_fips)

lemma transform_block_fips:
  assumes "length M = 64"
  shows "transform_block (state_list s) M = state_list (fips_compress s M)"
proof -
  obtain a b c d e f g h where s: "s = (a, b, c, d, e, f, g, h)"
    by (cases s rule: state_list.cases)
  obtain a' b' c' d' e' f' g' h'
    where r: "foldl (fips_round M) s [0..<64] = (a', b', c', d', e', f', g', h')"
    by (cases "foldl (fips_round M) s [0..<64]" rule: state_list.cases)
  have "foldl (round_step (schedule M)) (state_list s) [0..<64]
      = state_list (foldl (fips_round M) s [0..<64])"
    by (rule rounds_fips) (simp_all add: schedule_fips[OF assms])
  then have "transform_block (state_list s) M =
      map (\<lambda>j. state_list s ! j + state_list (a', b', c', d', e', f', g', h') ! j) [0..<8]"
    unfolding transform_block_def Let_def r by simp
  also have "\<dots> = state_list (a + a', b + b', c + c', d + d', e + e', f + f', g + g', h + h')"
    unfolding s by (simp add: upt_rec)
  also have "\<dots> = state_list (fips_compress s M)"
    using r unfolding s fips_compress.simps by simp
  finally show ?thesis .
qed

section \<open>Folding over blocks\<close>

text \<open>The contract the streaming code needs of a block routine: run over \<open>n\<close> blocks that lie in the
  message, it returns the fold of one compression step over those blocks. \<open>limit\<close> is the number of
  blocks the routine can address.\<close>

locale block_routine =
  fixes run :: "'h \<Rightarrow> byte list \<Rightarrow> nat \<Rightarrow> 'h res"
    and step :: "'h \<Rightarrow> byte list \<Rightarrow> 'h"
    and limit :: nat
  assumes run_fold:
    "64 * n \<le> length msg \<Longrightarrow> n \<le> limit \<Longrightarrow> run h msg n = Inr (foldl step h (map (chunk msg) [0..<n]))"
begin

lemma run_zero: "run h msg 0 = Inr h"
  by (simp add: run_fold)

lemma run_one: "64 \<le> length msg \<Longrightarrow> 1 \<le> limit \<Longrightarrow> run h msg 1 = Inr (step h (take 64 msg))"
  using run_fold[of 1 msg h] by (simp add: chunk_def)

lemma run_all:
  assumes "length msg = 64 * n" "n \<le> limit"
  shows "run h (msg @ rest) n = Inr (foldl step h (chunks msg))"
proof -
  have eq: "map (chunk (msg @ rest)) [0..<n] = map (chunk msg) [0..<n]"
    using assms(1) by (auto simp: chunk_def)
  have "run h (msg @ rest) n = Inr (foldl step h (map (chunk (msg @ rest)) [0..<n]))"
    using assms by (intro run_fold) simp_all
  then show ?thesis unfolding eq using assms(1) by (simp add: chunks_def)
qed

end

lemma transform_loop_fold:
  assumes "64 * (i + n) \<le> length msg" "i + n \<le> 2 ^ 25"
  shows "transform_loop h msg i n = Inr (foldl transform_block h (map (chunk msg) [i..<i + n]))"
  using assms
proof (induction n arbitrary: h i)
  case (Suc n)
  have "\<not> 64 * int i > 2147483647" "\<not> length msg < 64 * i + 64" using Suc.prems by auto
  then have "transform_loop h msg i (Suc n)
      = transform_loop (transform_block h (chunk msg i)) msg (i + 1) n"
    by (simp add: chunk_def)
  also have "\<dots> = Inr (foldl transform_block h (map (chunk msg) (i # [i + 1..<i + 1 + n])))"
    using Suc.prems by (subst Suc.IH) simp_all
  also have "i # [i + 1..<i + 1 + n] = [i..<i + Suc n]" by (simp add: upt_conv_Cons)
  finally show ?case .
qed simp

interpretation sha_blocks: block_routine "\<lambda>h msg n. transform_loop h msg 0 n" transform_block "2 ^ 25"
  by standard (use transform_loop_fold[of 0] in simp)

lemma chunks_append:
  assumes "length a = 64 * n"
  shows "chunks (a @ b) = chunks a @ chunks b"
proof -
  let ?m = "length b div 64"
  have a: "map (chunk (a @ b)) [0..<n] = map (chunk a) [0..<n]"
    using assms by (auto simp: chunk_def)
  have shift: "chunk (a @ b) (i + n) = chunk b i" for i
    using assms by (simp add: chunk_def)
  have "[n..<n + ?m] = map (\<lambda>i. i + n) [0..<?m]"
    by (simp only: map_add_upt add.commute)
  then have b: "map (chunk (a @ b)) [n..<n + ?m] = map (chunk b) [0..<?m]"
    by (simp only: map_map comp_def shift)
  have "length (a @ b) div 64 = n + ?m" using assms by simp
  then have "chunks (a @ b) = map (chunk (a @ b)) ([0..<n] @ [n..<n + ?m])"
    unfolding chunks_def by (simp only: upt_add_eq_append[OF le0, of n ?m])
  also have "\<dots> = chunks a @ chunks b"
    using assms unfolding map_append a b by (simp add: chunks_def)
  finally show ?thesis .
qed

lemma length_chunks: "c \<in> set (chunks msg) \<Longrightarrow> length c = 64"
proof -
  assume "c \<in> set (chunks msg)"
  then obtain i where "i < length msg div 64" "c = chunk msg i" by (auto simp: chunks_def)
  then show ?thesis by (simp add: chunk_def)
qed

lemma fold_chunks_fips:
  "foldl transform_block (state_list s) (chunks msg) = state_list (foldl fips_compress s (chunks msg))"
proof -
  have "foldl transform_block (state_list s) cs = state_list (foldl fips_compress s cs)"
    if "\<forall>c\<in>set cs. length c = 64" for cs
    using that by (induction cs arbitrary: s) (simp_all add: transform_block_fips)
  then show ?thesis using length_chunks by blast
qed

section \<open>The streaming context\<close>

text \<open>\<open>sha_rep ctx a r\<close>: the context has compressed the whole blocks \<open>a\<close> and buffers the rest \<open>r\<close>.\<close>

definition sha_rep :: "SHA256 \<Rightarrow> byte list \<Rightarrow> byte list \<Rightarrow> bool" where
  "sha_rep ctx a r \<longleftrightarrow>
     64 dvd length a \<and> length r < 64
     \<and> m_len ctx = of_nat (length r) \<and> m_tot_len ctx = of_nat (length a)
     \<and> length (m_block ctx) = 128 \<and> take (length r) (m_block ctx) = r
     \<and> m_h ctx = foldl transform_block (state_list fips_H0) (chunks a)"

lemma sha_rep_init: "sha_rep (init new_SHA256) [] []"
  by (simp add: sha_rep_def init_def new_SHA256_def chunks_def fips_H0_list)

lemma unat_u32: "n < 2 ^ 32 \<Longrightarrow> unat (word_of_nat n :: u32) = n"
  by (intro unat_of_nat_small) simp

lemma u32_less: "n < 2 ^ 32 \<Longrightarrow> m < 2 ^ 32 \<Longrightarrow> (word_of_nat n :: u32) < word_of_nat m \<longleftrightarrow> n < m"
  by (simp only: word_less_nat_alt unat_u32)

lemma u32_minus: "m \<le> n \<Longrightarrow> (word_of_nat n :: u32) - word_of_nat m = word_of_nat (n - m)"
  by simp

lemma u32_div: "n < 2 ^ 32 \<Longrightarrow> (word_of_nat n :: u32) div 64 = word_of_nat (n div 64)"
  by (simp add: word_unat_eq_iff unat_div_distrib unat_u32)

lemma u32_mod: "n < 2 ^ 32 \<Longrightarrow> (word_of_nat n :: u32) mod 64 = word_of_nat (n mod 64)"
  by (simp add: word_unat_eq_iff unat_mod_distrib unat_u32)

lemma u32_push: "push_bit k (word_of_nat n :: u32) = word_of_nat (2 ^ k * n)"
  by (simp add: push_bit_eq_mult ac_simps)

lemma nat_sint_u32: "n < 2 ^ 31 \<Longrightarrow> nat (sint (word_of_nat n :: u32)) = n"
proof -
  assume n: "n < 2 ^ 31"
  have "sint (word_of_nat n :: u32) = sint (word_of_int (int n) :: u32)" by simp
  also have "\<dots> = int n"
    using n by (simp only: int_word_sint) (simp add: mod_pos_pos_trivial)
  finally show ?thesis by simp
qed

lemma transform_blocks:
  assumes "length msg = 64 * n" "n \<le> 2 ^ 25"
  shows "transform ctx (msg @ rest) (word_of_nat n)
    = Inr (ctx\<lparr>m_h := foldl transform_block (m_h ctx) (chunks msg)\<rparr>)"
proof -
  have "nat (sint (word_of_nat n :: u32)) = n" using assms(2) by (intro nat_sint_u32) simp
  then show ?thesis
    using sha_blocks.run_all[OF assms, of "m_h ctx" rest] by (simp add: transform_def)
qed

lemma chunks_short: "length r < 64 \<Longrightarrow> chunks r = []"
  by (simp add: chunks_def)

lemma update_short:
  assumes rep: "sha_rep ctx a r" and len: "length r + length data < 64"
  shows "\<exists>ctx'. update ctx (data @ junk) (word_of_nat (length data)) = Inr ctx'
    \<and> sha_rep ctx' a (r @ data)"
proof -
  let ?d = "word_of_nat (length data) :: u32"
  have ml: "unat (m_len ctx) = length r" "m_len ctx = word_of_nat (length r)"
    using rep by (auto simp: sha_rep_def unat_u32)
  have "64 - m_len ctx = word_of_nat (64 - length r)" using ml(2) len by (simp add: of_nat_diff)
  then have lt: "?d < 64 - m_len ctx"
    using len u32_less[of "length data" "64 - length r"] by simp
  have ud: "unat ?d = length data" using len by (intro unat_u32) simp
  have "m_len ctx + ?d = word_of_nat (length r + length data)" using ml(2) by simp
  then have lt2: "m_len ctx + ?d < 64"
    using len u32_less[of "length r + length data" 64] by simp
  let ?b = "take (length r) (m_block ctx) @ data @ drop (length r + length data) (m_block ctx)"
  have "memcpy_at (m_block ctx) (unat (m_len ctx)) (data @ junk) (unat ?d) = Inr ?b"
    using rep len unfolding ml(1) ud by (simp add: memcpy_at_def sha_rep_def)
  then have "update ctx (data @ junk) ?d = Inr (ctx\<lparr>m_block := ?b, m_len := m_len ctx + ?d\<rparr>)"
    using lt lt2 by (simp add: update_def Let_def)
  moreover have "sha_rep (ctx\<lparr>m_block := ?b, m_len := m_len ctx + ?d\<rparr>) a (r @ data)"
    using rep len by (auto simp: sha_rep_def)
  ultimately show ?thesis by blast
qed

text \<open>What a context represents after the remainder was completed to a block and \<open>k\<close> more blocks followed.\<close>

lemma sha_rep_long:
  assumes rep: "sha_rep ctx a r" and len: "length r + length d1 = 64" "length d2 = 64 * k" "length d3 < 64"
    and b: "length b = 128" "take (length d3) b = d3"
  shows "sha_rep (ctx\<lparr>m_h := foldl transform_block (foldl transform_block (m_h ctx) (chunks (r @ d1))) (chunks d2),
      m_block := b, m_len := word_of_nat (length d3),
      m_tot_len := m_tot_len ctx + push_bit 6 (word_of_nat k + 1)\<rparr>) (a @ r @ d1 @ d2) d3"
proof -
  obtain n where n: "length a = 64 * n" using rep by (auto simp: sha_rep_def)
  have "chunks (a @ (r @ d1) @ d2) = chunks a @ chunks (r @ d1) @ chunks d2"
    using chunks_append[OF n] chunks_append[of "r @ d1" 1] len(1) by simp
  moreover have eq: "length (a @ r @ d1 @ d2) = length a + 2 ^ 6 * (k + 1)" using len by simp
  have "m_tot_len ctx + push_bit 6 (word_of_nat k + 1) = word_of_nat (length (a @ r @ d1 @ d2))"
    unfolding eq of_nat_add[of "length a"] u32_push[symmetric] using rep by (simp add: sha_rep_def add.commute)
  moreover have "64 dvd length (a @ r @ d1 @ d2)"
    unfolding eq n by (simp add: dvd_add)
  ultimately show ?thesis using rep len b unfolding sha_rep_def by simp
qed

lemma update_long:
  assumes rep: "sha_rep ctx a r" and d: "data = d1 @ d2 @ d3"
    and len: "length r + length d1 = 64" "length d2 = 64 * k" "length d3 < 64"
    and small: "k \<le> 2 ^ 25"
  shows "\<exists>ctx'. update ctx (data @ junk) (word_of_nat (length data)) = Inr ctx'
    \<and> sha_rep ctx' (a @ r @ d1 @ d2) d3"
proof -
  let ?d = "word_of_nat (length data) :: u32"
  let ?rem = "word_of_nat (length d1) :: u32"
  have total: "length data < 2 ^ 32" "length d1 \<le> length data"
    using d len small by auto
  have r: "length r < 64" "take (length r) (m_block ctx) = r" "length (m_block ctx) = 128"
    "m_len ctx = word_of_nat (length r)" "unat (m_len ctx) = length r"
    using rep by (auto simp: sha_rep_def unat_u32)
  have t: "64 - m_len ctx = ?rem"
  proof -
    have "(64 :: u32) = word_of_nat (length r + length d1)" by (simp only: len(1)) simp
    then show ?thesis unfolding r(4) of_nat_add by (simp only: add_diff_cancel_left')
  qed
  have nlt: "\<not> ?d < ?rem"
    using total by (subst u32_less) auto
  have "\<not> word_of_nat (length r + length data) < (word_of_nat 64 :: u32)"
    using r(1) total len d small by (subst u32_less) auto
  then have nlt2: "\<not> m_len ctx + ?d < 64" using r(4) by simp
  have urem: "unat ?rem = length d1" using len(1) by (intro unat_u32) simp
  let ?b = "r @ d1 @ drop 64 (m_block ctx)"
  have m1: "memcpy_at (m_block ctx) (unat (m_len ctx)) (data @ junk) (unat ?rem) = Inr ?b"
    using r len(1) d by (simp add: memcpy_at_def urem)
  have new: "?d - ?rem = word_of_nat (length d2 + length d3)" using d by simp
  have small2: "length d2 + length d3 < 2 ^ 32" using total d by simp
  have nb: "(?d - ?rem) div 64 = word_of_nat k" "(?d - ?rem) mod 64 = word_of_nat (length d3)"
    unfolding new u32_div[OF small2] u32_mod[OF small2] using len(2,3) by simp_all
  let ?c1 = "ctx\<lparr>m_block := ?b\<rparr>"
  let ?c2 = "?c1\<lparr>m_h := foldl transform_block (m_h ctx) (chunks (r @ d1))\<rparr>"
  let ?c3 = "?c2\<lparr>m_h := foldl transform_block (m_h ?c2) (chunks d2)\<rparr>"
  have t1: "transform ?c1 ?b 1 = Inr ?c2"
    using transform_blocks[of "r @ d1" 1 ?c1 "drop 64 (m_block ctx)"] len(1) by simp
  have t2: "transform ?c2 (drop (unat ?rem) (data @ junk)) (word_of_nat k) = Inr ?c3"
    using transform_blocks[OF len(2) small, of ?c2 "d3 @ junk"] d by (simp add: urem)
  have "unat (push_bit 6 (word_of_nat k :: u32)) = 64 * k"
    unfolding u32_push using small by (subst unat_u32) simp_all
  then have m3: "memcpy_at ?b 0 (drop (unat (push_bit 6 (word_of_nat k :: u32)))
      (drop (unat ?rem) (data @ junk))) (unat (word_of_nat (length d3) :: u32))
    = Inr (d3 @ drop (length d3) ?b)"
    using len d r(3) by (simp add: memcpy_at_def urem unat_u32)
  let ?ctx = "?c3\<lparr>m_block := d3 @ drop (length d3) ?b, m_len := word_of_nat (length d3),
    m_tot_len := m_tot_len ctx + push_bit 6 (word_of_nat k + 1)\<rparr>"
  have "update ctx (data @ junk) ?d = Inr ?ctx"
    using m1 nlt nlt2 t1 t2 m3 by (simp add: update_def Let_def t nb)
  moreover have "sha_rep ?ctx (a @ r @ d1 @ d2) d3"
    using sha_rep_long[OF rep len, of "d3 @ drop (length d3) ?b"] r(3) len by simp
  ultimately show ?thesis by blast
qed

text \<open>Any \<open>update\<close> call: the context then represents the bytes fed before and these.\<close>

definition sha_fed :: "SHA256 \<Rightarrow> byte list \<Rightarrow> bool" where
  "sha_fed ctx msg \<longleftrightarrow> sha_rep ctx (take (64 * (length msg div 64)) msg) (drop (64 * (length msg div 64)) msg)"

lemma sha_fedI: "sha_rep ctx a r \<Longrightarrow> sha_fed ctx (a @ r)"
  by (auto simp: sha_fed_def sha_rep_def elim!: dvdE)

lemma update_fed:
  assumes "sha_fed ctx msg" "length data \<le> 2 ^ 31"
  shows "\<exists>ctx'. update ctx (data @ junk) (word_of_nat (length data)) = Inr ctx'
    \<and> sha_fed ctx' (msg @ data)"
proof -
  define a r where "a = take (64 * (length msg div 64)) msg" and "r = drop (64 * (length msg div 64)) msg"
  have rep: "sha_rep ctx a r" and msg: "msg = a @ r" and r: "length r < 64"
    using assms(1) by (auto simp: sha_fed_def a_def r_def sha_rep_def)
  show ?thesis
  proof (cases "length r + length data < 64")
    case True
    then show ?thesis using update_short[OF rep True, of junk] sha_fedI msg by (metis append.assoc)
  next
    case False
    define n where "n = length data - (64 - length r)"
    define d1 d2 d3 where "d1 = take (64 - length r) data"
      and "d2 = take (64 * (n div 64)) (drop (64 - length r) data)"
      and "d3 = drop (64 * (n div 64)) (drop (64 - length r) data)"
    have "data = d1 @ d2 @ d3"
      unfolding d1_def d2_def d3_def by (simp only: append_take_drop_id)
    moreover have "length r + length d1 = 64" "length d2 = 64 * (n div 64)" "length d3 < 64"
      using r False by (auto simp: d1_def d2_def d3_def n_def min_def)
    moreover have "n div 64 \<le> 2 ^ 25" using assms(2) by (simp add: n_def)
    ultimately show ?thesis
      using update_long[OF rep, of data d1 d2 d3 "n div 64" junk] sha_fedI msg
      by (metis append.assoc)
  qed
qed

text \<open>The last block or two, and the digest.\<close>

definition final_block :: "SHA256 \<Rightarrow> byte list \<Rightarrow> byte list" where
  "final_block ctx r =
     r @ [0x80] @ replicate ((119 - length r) mod 64 + 4) 0
       @ SHA2_UNPACK32 (push_bit 3 (m_tot_len ctx + m_len ctx))"

lemma length_UNPACK32 [simp]: "length (SHA2_UNPACK32 x) = 4"
  by (simp add: SHA2_UNPACK32_def)

lemma map_nth_state: "map (\<lambda>i. f (state_list s ! i)) [0..<8] = map f (state_list s)"
proof -
  have "length (state_list s) = 8" by (cases s rule: state_list.cases) simp
  then show ?thesis using map_nth[of "state_list s"] by (metis comp_apply list.map_comp map_cong)
qed

text \<open>The three writes of \<open>final\<close> into \<open>m_block\<close>.\<close>

lemma final_writes:
  assumes "length r < pm" "pm \<le> 128" "pm = length r + 5 + z" "length mb = 128" "take (length r) mb = r"
  shows "memcpy_at mb (length r) (replicate (pm - length r) 0) (pm - length r)
      = Inr (r @ replicate (pm - length r) 0 @ drop pm mb)"
    "memcpy_at (r @ replicate (pm - length r) 0 @ drop pm mb) (length r) [0x80] 1
      = Inr (r @ [0x80] @ replicate (z + 4) 0 @ drop pm mb)"
    "memcpy_at (r @ [0x80] @ replicate (z + 4) 0 @ drop pm mb) (pm - 4) (SHA2_UNPACK32 x) 4
      = Inr (r @ [0x80] @ replicate z 0 @ SHA2_UNPACK32 x @ drop pm mb)"
  using assms by (simp_all add: memcpy_at_def drop_Cons' ac_simps)

lemma final_block_nb:
  assumes "length r < 64" "nb = (if 55 < length r then 2 else 1)"
  shows "64 * nb = length r + 5 + ((119 - length r) mod 64 + 4)"
    "length (final_block ctx r) = 64 * nb"
  using assms by (auto simp: final_block_def mod_if)

lemma final_eq:
  assumes rep: "sha_rep ctx a r"
  shows "\<exists>ctx'. final ctx = Inr (ctx', concat (map SHA2_UNPACK32
    (foldl transform_block (state_list fips_H0) (chunks (a @ final_block ctx r)))))"
proof -
  define nb where "nb = (if 55 < length r then 2 else (1::nat))"
  have r: "length r < 64" "take (length r) (m_block ctx) = r" "length (m_block ctx) = 128"
    "m_len ctx = word_of_nat (length r)" "unat (m_len ctx) = length r"
    using rep by (auto simp: sha_rep_def unat_u32)
  note nb = final_block_nb(1)[OF r(1) nb_def] final_block_nb(2)[OF r(1) nb_def, of ctx]
  have "m_len ctx mod 64 = word_of_nat (length r)"
    unfolding r(4) using r(1) by (subst u32_mod) simp_all
  then have "(64 - 9 < m_len ctx mod 64) \<longleftrightarrow> 55 < length r"
    using u32_less[of 55 "length r"] r(1) by simp
  then have bn: "1 + (if 64 - 9 < m_len ctx mod 64 then 1 else 0) = (word_of_nat nb :: u32)"
    by (simp add: nb_def)
  have nb2: "nb \<le> 2" "1 \<le> nb" by (simp_all add: nb_def)
  have pm: "push_bit 6 (word_of_nat nb :: u32) = word_of_nat (64 * nb)" by (simp add: u32_push)
  have z: "unat (word_of_nat (64 * nb) - m_len ctx) = 64 * nb - length r"
    "unat (word_of_nat (64 * nb) - (4 :: u32)) = 64 * nb - 4"
    using u32_minus[of "length r" "64 * nb"] u32_minus[of 4 "64 * nb"] unat_u32[of "64 * nb - length r"]
      unat_u32[of "64 * nb - 4"] r(1,4) nb2 by (simp_all del: of_nat_mult of_nat_diff)
  let ?x = "push_bit 3 (m_tot_len ctx + m_len ctx)"
  let ?rest = "drop (64 * nb) (m_block ctx)"
  have bounds: "length r < 64 * nb" "64 * nb \<le> 128" using r(1) nb2 by auto
  note W = final_writes[OF bounds nb(1) r(3,2)]
  have blk: "r @ [0x80] @ replicate ((119 - length r) mod 64 + 4) 0 @ SHA2_UNPACK32 ?x @ ?rest
      = final_block ctx r @ ?rest"
    by (simp add: final_block_def)
  let ?h = "foldl transform_block (m_h ctx) (chunks (final_block ctx r))"
  have T: "transform (ctx\<lparr>m_block := final_block ctx r @ ?rest\<rparr>) (final_block ctx r @ ?rest) (word_of_nat nb)
      = Inr (ctx\<lparr>m_block := final_block ctx r @ ?rest, m_h := ?h\<rparr>)"
    using transform_blocks[OF nb(2), of "ctx\<lparr>m_block := final_block ctx r @ ?rest\<rparr>" ?rest] nb2 by simp
  have h: "?h = foldl transform_block (state_list fips_H0) (chunks (a @ final_block ctx r))"
    using rep by (auto simp: sha_rep_def chunks_append elim!: dvdE)
  have "final ctx = Inr (ctx\<lparr>m_block := final_block ctx r @ ?rest, m_h := ?h\<rparr>,
      concat (map (\<lambda>i. SHA2_UNPACK32 (?h ! i)) [0..<8]))"
    unfolding final_def Let_def bn pm z r(5) W(1) res_bind.simps W(2) W(3) blk T by simp
  then show ?thesis
    unfolding h fold_chunks_fips map_nth_state by blast
qed

section \<open>Padding\<close>

lemma length_field:
  "map (\<lambda>i. ucast (drop_bit (8 * (7 - i)) (ucast (w :: u32) :: 64 word))) [0..<8]
     = replicate 4 0 @ SHA2_UNPACK32 w"
proof -
  have high: "(ucast (drop_bit k (ucast w :: 64 word)) :: byte) = 0" if "32 \<le> k" for k
  proof (rule bit_word_eqI)
    fix i
    have "\<not> bit w (k + i)" using that bit_imp_le_length[of w "k + i"] by auto
    then show "bit (ucast (drop_bit k (ucast w :: 64 word)) :: byte) i \<longleftrightarrow> bit (0 :: byte) i"
      by (simp add: bit_unsigned_iff bit_drop_bit_eq)
  qed
  have low: "(ucast (drop_bit k (ucast w :: 64 word)) :: byte) = ucast (drop_bit k w)" if "k \<le> 24" for k
    using that by (intro bit_word_eqI) (auto simp: bit_unsigned_iff bit_drop_bit_eq)
  have u8: "[0..<8] = [0, 1, 2, 3, 4, 5, 6, 7 :: nat]" by (simp add: upt_rec)
  have r4: "replicate 4 (0 :: byte) = [0, 0, 0, 0]" by (simp add: numeral_eq_Suc)
  show ?thesis
    using low[of 0] by (simp add: u8 r4 high low SHA2_UNPACK32_def)
qed

lemma final_block_pad:
  assumes "sha_rep ctx a r"
  shows "a @ final_block ctx r = pad_with (ucast (word_of_nat (8 * length (a @ r)) :: u32)) (a @ r)"
proof -
  have "length (a @ r) mod 64 = length r"
    using assms by (auto simp: sha_rep_def elim!: dvdE)
  moreover have "push_bit 3 (m_tot_len ctx + m_len ctx) = word_of_nat (8 * length (a @ r))"
    using assms u32_push[of 3 "length (a @ r)"] by (simp add: sha_rep_def)
  ultimately show ?thesis
    unfolding pad_with_def final_block_def length_field by (simp add: replicate_add)
qed

lemma final_fed:
  assumes "sha_fed ctx msg"
  shows "\<exists>ctx'. final ctx =
    Inr (ctx', hash_padded (pad_with (ucast (word_of_nat (8 * length msg) :: u32)) msg))"
proof -
  have rep: "sha_rep ctx (take (64 * (length msg div 64)) msg) (drop (64 * (length msg div 64)) msg)"
    using assms by (simp add: sha_fed_def)
  from final_eq[OF this] final_block_pad[OF this] show ?thesis
    by (simp only: append_take_drop_id fold_chunks_fips hash_padded_def UNPACK32_bytes)
qed

lemma unat_ucast_up32: "unat (ucast (w :: u32) :: 64 word) = unat w"
  by (simp add: unsigned_ucast_eq take_bit_nat_eq_self order_less_trans[OF unsigned_less])

lemma ucast_length_small:
  assumes "n < 2 ^ 29"
  shows "(ucast (word_of_nat (8 * n) :: u32) :: 64 word) = word_of_nat (8 * n)"
proof -
  have "unat (ucast (word_of_nat (8 * n) :: u32) :: 64 word) = unat (word_of_nat (8 * n) :: u32)"
    by (rule unat_ucast_up32)
  also have "\<dots> = 8 * n" using assms by (intro unat_u32) simp
  also have "\<dots> = unat (word_of_nat (8 * n) :: 64 word)"
    using assms by (intro unat_of_nat_small[symmetric]) simp
  finally show ?thesis by (simp only: word_unat_eq_iff)
qed

lemma pad_with_inj: "pad_with v msg = pad_with w msg \<Longrightarrow> v = w"
proof (rule bit_word_eqI)
  fix n assume eq: "pad_with v msg = pad_with w msg" and n: "n < LENGTH(64)"
  let ?f = "\<lambda>v i. ucast (drop_bit (8 * (7 - i)) (v :: 64 word)) :: byte"
  from eq have "map (?f v) [0..<8] = map (?f w) [0..<8]"
    by (simp add: pad_with_def)
  then have "?f v i = ?f w i" if "i < 8" for i
    using that by (metis (no_types, lifting) length_map length_upt nth_map nth_upt add_0 diff_zero)
  then have "?f v (7 - n div 8) = ?f w (7 - n div 8)" by simp
  moreover have "bit (?f x (7 - n div 8)) (n mod 8) \<longleftrightarrow> bit x n" for x
  proof -
    have "7 - (7 - n div 8) = n div 8" "n mod 8 < 8" "8 * (n div 8) + n mod 8 = n" using n by auto
    then show ?thesis by (simp add: bit_unsigned_iff bit_drop_bit_eq del: mod_less_divisor)
  qed
  ultimately show "bit v n \<longleftrightarrow> bit w n" by metis
qed

lemma long_length:
  assumes "2 ^ 29 \<le> n" "n \<le> 2 ^ 31"
  shows "(ucast (word_of_nat (8 * n) :: u32) :: 64 word) \<noteq> word_of_nat (8 * n)"
proof
  assume "(ucast (word_of_nat (8 * n) :: u32) :: 64 word) = word_of_nat (8 * n)"
  then have "unat (word_of_nat (8 * n) :: u32) = unat (word_of_nat (8 * n) :: 64 word)"
    by (metis unat_ucast_up32)
  also have "\<dots> = 8 * n" using assms by (intro unat_of_nat_small) simp
  finally have "8 * n < 2 ^ LENGTH(32)" by (metis unsigned_less)
  with assms(1) show False by simp
qed

text \<open>A sequence of \<open>update\<close> calls.\<close>

fun update_all :: "SHA256 \<Rightarrow> byte list list \<Rightarrow> SHA256 res" where
  "update_all ctx [] = Inr ctx"
| "update_all ctx (d # ds) =
     res_bind (update ctx d (word_of_nat (length d))) (\<lambda>ctx. update_all ctx ds)"

lemma update_all_fed:
  assumes "sha_fed ctx msg" "\<forall>d\<in>set ds. length d \<le> 2 ^ 31"
  shows "\<exists>ctx'. update_all ctx ds = Inr ctx' \<and> sha_fed ctx' (msg @ concat ds)"
  using assms
proof (induction ds arbitrary: ctx msg)
  case (Cons d ds)
  then obtain ctx' where "update ctx d (word_of_nat (length d)) = Inr ctx'" "sha_fed ctx' (msg @ d)"
    using update_fed[of ctx msg d "[]"] by auto
  with Cons.IH[of ctx' "msg @ d"] Cons.prems(2) show ?case by simp
qed simp

lemma init_fed: "sha_fed (init new_SHA256) []"
  using sha_fedI[OF sha_rep_init] by simp

lemma sha256_eq:
  assumes "length input < 2 ^ 29"
  shows "sha256 input = Inr (concat (map hex_byte (fips_sha256 input)))"
proof -
  obtain ctx where u: "update (init new_SHA256) input (word_of_nat (length input)) = Inr ctx"
    "sha_fed ctx input"
    using update_fed[OF init_fed, of input "[]"] assms by auto
  obtain ctx' where "final ctx = Inr (ctx', fips_sha256 input)"
    using final_fed[OF u(2)] unfolding ucast_length_small[OF assms] fips_sha256_def fips_pad_def by blast
  with u(1) show ?thesis by (simp add: sha256_def)
qed

section \<open>Properties\<close>

text \<open>(C5) \<open>sha256\<close> is SHA-256: for every input shorter than \<open>2\<^sup>2\<^sup>9\<close> bytes it returns, without any
  out-of-bounds access, the lower-case hexadecimal form of the hash that FIPS 180-4 defines.\<close>

theorem sha256_fips:
  assumes "length input < 2 ^ 29"
  shows "sha256 input = Inr (concat (map hex_byte (fips_sha256 input)))"
  using assms by (rule sha256_eq)

theorem sha256_fips_witness:
  "sha256 [0x61, 0x62, 0x63] = Inr (concat (map hex_byte (fips_sha256 [0x61, 0x62, 0x63])))"
  using sha256_fips[of "[0x61, 0x62, 0x63]"] by simp

text \<open>(C37) Longer inputs: \<open>final\<close> writes only the low 32 bits of the length, in bits, into the 64-bit
  field. Up to \<open>2\<^sup>3\<^sup>1\<close> bytes the result is the hash of the message padded with the truncated length,
  and from \<open>2\<^sup>2\<^sup>9\<close> bytes on that padding is not the FIPS padding.\<close>

theorem sha256_truncated_length:
  assumes "length input \<le> 2 ^ 31"
  shows "sha256 input = Inr (concat (map hex_byte
      (hash_padded (pad_with (ucast (word_of_nat (8 * length input) :: u32)) input))))
    \<and> (2 ^ 29 \<le> length input \<longrightarrow>
        pad_with (ucast (word_of_nat (8 * length input) :: u32)) input \<noteq> fips_pad input)"
proof
  obtain ctx where u: "update (init new_SHA256) input (word_of_nat (length input)) = Inr ctx"
    "sha_fed ctx input"
    using update_fed[OF init_fed, of input "[]"] assms by auto
  obtain ctx' where "final ctx = Inr (ctx', hash_padded
      (pad_with (ucast (word_of_nat (8 * length input) :: u32)) input))"
    using final_fed[OF u(2)] by blast
  with u(1) show "sha256 input = Inr (concat (map hex_byte
      (hash_padded (pad_with (ucast (word_of_nat (8 * length input) :: u32)) input))))"
    by (simp add: sha256_def)
  show "2 ^ 29 \<le> length input \<longrightarrow>
    pad_with (ucast (word_of_nat (8 * length input) :: u32)) input \<noteq> fips_pad input"
    using pad_with_inj long_length assms unfolding fips_pad_def by blast
qed

theorem sha256_truncated_length_witness:
  "pad_with (ucast (word_of_nat (8 * length (replicate (2 ^ 29) (0 :: byte))) :: u32))
     (replicate (2 ^ 29) 0) \<noteq> fips_pad (replicate (2 ^ 29) 0)"
  using sha256_truncated_length[of "replicate (2 ^ 29) 0"] by simp

text \<open>(C20) Streaming: the digest depends only on the bytes fed to the context, not on how they were
  cut into \<open>update\<close> calls. For every sequence of pieces, empty and multi-block ones included, all the
  calls succeed and \<open>final\<close> returns the FIPS hash of their concatenation while that is shorter than
  \<open>2\<^sup>2\<^sup>9\<close> bytes.\<close>

theorem sha256_streaming:
  assumes "length (concat ds) < 2 ^ 29"
  shows "\<exists>ctx ctx'. update_all (init new_SHA256) ds = Inr ctx
    \<and> final ctx = Inr (ctx', fips_sha256 (concat ds))"
proof -
  have "\<forall>d\<in>set ds. length d \<le> 2 ^ 31"
  proof
    fix d assume "d \<in> set ds"
    then have "length d \<le> length (concat ds)"
      by (simp add: length_concat member_le_sum_list)
    with assms show "length d \<le> 2 ^ 31" by simp
  qed
  with update_all_fed[OF init_fed] obtain ctx
    where u: "update_all (init new_SHA256) ds = Inr ctx" "sha_fed ctx (concat ds)" by fastforce
  have "\<exists>ctx'. final ctx = Inr (ctx', fips_sha256 (concat ds))"
    using final_fed[OF u(2)] unfolding ucast_length_small[OF assms] fips_sha256_def fips_pad_def .
  with u(1) show ?thesis by blast
qed

theorem sha256_streaming_witness:
  "\<exists>ctx ctx'. update_all (init new_SHA256) [[1, 2], [], replicate 100 7] = Inr ctx
    \<and> final ctx = Inr (ctx', fips_sha256 ([1, 2] @ replicate 100 7))"
  using sha256_streaming[of "[[1, 2], [], replicate 100 7]"] by simp

lemma hex_digit_in: "n < 16 \<Longrightarrow> hex_digit n \<in> set ''0123456789abcdef''"
  unfolding hex_digit_def by (rule nth_mem) simp

lemma hex_digit_inj: "m < 16 \<Longrightarrow> n < 16 \<Longrightarrow> hex_digit m = hex_digit n \<Longrightarrow> m = n"
proof -
  have "distinct ''0123456789abcdef''" by simp
  then show "m < 16 \<Longrightarrow> n < 16 \<Longrightarrow> hex_digit m = hex_digit n \<Longrightarrow> m = n"
    unfolding hex_digit_def by (subst (asm) nth_eq_iff_index_eq) auto
qed

lemma byte_nibbles: "unat (b :: byte) div 16 < 16" "unat b mod 16 < 16"
  using unsigned_less[of b, where ?'a = nat] by auto

lemma hex_byte_inj: "hex_byte b = hex_byte c \<Longrightarrow> b = c"
proof -
  assume "hex_byte b = hex_byte c"
  then have "unat b div 16 = unat c div 16" "unat b mod 16 = unat c mod 16"
    using hex_digit_inj byte_nibbles by (auto simp: hex_byte_def)
  then have "unat b = unat c" by (metis div_mult_mod_eq)
  then show ?thesis by (simp add: word_unat_eq_iff)
qed

lemma hex_bytes_inj:
  "concat (map hex_byte bs) = concat (map hex_byte cs) \<Longrightarrow> bs = cs"
proof (induction bs arbitrary: cs)
  case Nil
  then show ?case by (cases cs) (auto simp: hex_byte_def)
next
  case (Cons b bs)
  then obtain c cs' where cs: "cs = c # cs'" by (cases cs) (auto simp: hex_byte_def)
  with Cons.prems have "hex_byte b = hex_byte c" "concat (map hex_byte bs) = concat (map hex_byte cs')"
    by (simp_all add: hex_byte_def[of b] hex_byte_def[of c])
  with Cons.IH[of cs'] hex_byte_inj cs show ?case by blast
qed

lemma length_digest: "length (hash_padded msg) = 32"
  unfolding hash_padded_def UNPACK32_bytes[symmetric]
  by (cases "foldl fips_compress fips_H0 (chunks msg)" rule: state_list.cases) simp

text \<open>(C38) Output format: for inputs shorter than \<open>2\<^sup>2\<^sup>9\<close> bytes the string \<open>sha256\<close> returns has 64 characters, all lower-case hexadecimal
  digits, and two inputs give the same string exactly when they have the same digest, so nothing of
  the digest is lost in the printing.\<close>

theorem sha256_output:
  assumes "length input < 2 ^ 29" "length input' < 2 ^ 29"
  shows "\<exists>s s'. sha256 input = Inr s \<and> sha256 input' = Inr s' \<and> length s = 64
    \<and> set s \<subseteq> set ''0123456789abcdef'' \<and> (s = s' \<longleftrightarrow> fips_sha256 input = fips_sha256 input')"
proof -
  have "length (concat (map hex_byte bs)) = 2 * length bs" for bs
    by (induction bs) (simp_all add: hex_byte_def)
  moreover have "set (concat (map hex_byte bs)) \<subseteq> set ''0123456789abcdef''" for bs
  proof
    fix c assume "c \<in> set (concat (map hex_byte bs))"
    then obtain b where "c \<in> set (hex_byte b)" by auto
    then have "c = hex_digit (unat b div 16) \<or> c = hex_digit (unat b mod 16)"
      by (simp add: hex_byte_def)
    then show "c \<in> set ''0123456789abcdef''" using hex_digit_in byte_nibbles by metis
  qed
  ultimately show ?thesis
    using sha256_eq[OF assms(1)] sha256_eq[OF assms(2)] hex_bytes_inj length_digest[of "fips_pad input"]
    by (auto simp: fips_sha256_def simp del: list.set)
qed

theorem sha256_output_witness:
  "\<exists>s s'. sha256 [1] = Inr s \<and> sha256 [2] = Inr s' \<and> length s = 64
    \<and> (s = s' \<longleftrightarrow> fips_sha256 [1] = fips_sha256 [2])"
  using sha256_output[of "[1]" "[2]"] by auto

end
