(* ===== verification/Ownership.thy ===== *)
theory Ownership
  imports FF_Prelude
begin

text \<open>
  The contract that the owning classes of the base library share (\<open>UniqueObject\<close>,
  \<open>ThreadLocalUniquePtr\<close>, \<open>CFRef\<close>): resources are conserved. \<open>run acquired released s\<close> says that a
  program has reached the state \<open>s\<close> after resources were handed in and handed back; what was handed in is
  owned, was freed or was handed back. The consequences for distinct resources are proved here once.
\<close>

lemma count_mset_le_1_distinct: "(\<And>v. count (mset xs) v \<le> 1) \<Longrightarrow> distinct xs"
proof (induction xs)
  case (Cons x xs)
  have x: "count (mset xs) x = 0" using Cons.prems[of x] by simp
  then have "x \<notin> set xs" by (metis count_eq_zero_iff set_mset_mset)
  moreover have "count (mset xs) v \<le> 1" for v
  proof (cases "v = x")
    case True
    show ?thesis unfolding True x by simp
  qed (use Cons.prems[of v] in simp)
  ultimately show ?case using Cons.IH by simp
qed simp

locale resource_ledger =
  fixes run :: "'a multiset \<Rightarrow> 'a multiset \<Rightarrow> 's \<Rightarrow> bool"
    and freed_of :: "'s \<Rightarrow> 'a list"
    and owned_of :: "'s \<Rightarrow> 'a multiset"
  assumes conserved: "run acquired released s \<Longrightarrow> acquired = owned_of s + mset (freed_of s) + released"
begin

lemma at_most_once:
  assumes "run acquired released s" "\<forall>v. count acquired v \<le> 1"
  shows "count (owned_of s) v + count (mset (freed_of s)) v + count released v \<le> 1"
  using assms(2) unfolding conserved[OF assms(1)] by (simp add: add.assoc)

lemma freed_distinct:
  assumes "run acquired released s" "\<forall>v. count acquired v \<le> 1"
  shows "distinct (freed_of s)"
proof (rule count_mset_le_1_distinct)
  show "count (mset (freed_of s)) v \<le> 1" for v using at_most_once[OF assms, of v] by linarith
qed

lemma freed_not_held:
  assumes "run acquired released s" "\<forall>v. count acquired v \<le> 1" "v \<in> set (freed_of s)"
  shows "v \<notin># owned_of s \<and> v \<notin># released"
proof -
  have "0 < count (mset (freed_of s)) v" using assms(3) by (simp add: count_greater_zero_iff)
  then show ?thesis using at_most_once[OF assms(1,2), of v] unfolding not_in_iff by linarith
qed

lemma owned_not_released:
  assumes "run acquired released s" "\<forall>v. count acquired v \<le> 1" "v \<in># owned_of s"
  shows "v \<notin># released"
proof -
  have "0 < count (owned_of s) v" using assms(3) by simp
  then show ?thesis using at_most_once[OF assms(1,2), of v] unfolding not_in_iff by linarith
qed

lemma owned_once:
  assumes "run acquired released s" "\<forall>v. count acquired v \<le> 1"
  shows "count (owned_of s) v \<le> 1"
  using at_most_once[OF assms, of v] by linarith

lemma no_leak: "run acquired released s \<Longrightarrow> owned_of s = {#} \<Longrightarrow> mset (freed_of s) + released = acquired"
  using conserved[of acquired released s] by simp

end

end
