(* ===== verification/Unique_Object.thy ===== *)
theory Unique_Object
  imports Ownership
begin

text \<open>
  \<open>source/base/unique_object.h\<close> and \<open>unique_fd.h\<close>: \<open>UniqueObject<T, Traits>\<close>, the owner of one
  resource. The state holds the objects of a program, each the value it stores or \<open>None\<close> once its
  lifetime ended, and the calls \<open>Traits::Free\<close> has received, in order. \<open>Traits::InvalidValue()\<close> is the
  argument \<open>ivl\<close>. An operation on an object that does not exist is a fault.

  The lemmas show that resources are conserved: what was handed to the objects is owned by exactly
  one of them, was freed once, or was handed back by \<open>release\<close>.
\<close>

record 'a owners =
  objs :: "'a option list"
  freed :: "'a list"

definition no_owners :: "'a owners" where
  "no_owners = \<lparr>objs = [], freed = []\<rparr>"

definition generic_data :: "'a owners \<Rightarrow> nat \<Rightarrow> 'a res" where
  "generic_data s i =
     (if i < length (objs s) then (case objs s ! i of None \<Rightarrow> Inl NullDeref | Some v \<Rightarrow> Inr v)
      else Inl NullDeref)"

definition set_data :: "'a owners \<Rightarrow> nat \<Rightarrow> 'a \<Rightarrow> 'a owners" where
  "set_data s i v = s\<lparr>objs := (objs s)[i := Some v]\<rparr>"

section \<open>Operations\<close>

definition UniqueObject_value :: "'a owners \<Rightarrow> 'a \<Rightarrow> 'a owners" where
  "UniqueObject_value s value' = s\<lparr>objs := objs s @ [Some value']\<rparr>"

definition UniqueObject_default :: "'a \<Rightarrow> 'a owners \<Rightarrow> 'a owners" where
  "UniqueObject_default ivl s = UniqueObject_value s ivl"

definition FreeIfNecessary :: "'a \<Rightarrow> 'a owners \<Rightarrow> nat \<Rightarrow> 'a owners res" where
  "FreeIfNecessary ivl s i =
     res_bind (generic_data s i) (\<lambda>v.
       if v \<noteq> ivl then Inr (set_data (s\<lparr>freed := freed s @ [v]\<rparr>) i ivl) else Inr s)"

definition release :: "'a \<Rightarrow> 'a owners \<Rightarrow> nat \<Rightarrow> ('a \<times> 'a owners) res" where
  "release ivl s i =
     res_bind (generic_data s i) (\<lambda>old_generic. Inr (old_generic, set_data s i ivl))"

definition UniqueObject_move :: "'a \<Rightarrow> 'a owners \<Rightarrow> nat \<Rightarrow> 'a owners res" where
  "UniqueObject_move ivl s other =
     res_bind (release ivl s other) (\<lambda>(v, s). Inr (UniqueObject_value s v))"

definition UniqueObject_destroy :: "'a \<Rightarrow> 'a owners \<Rightarrow> nat \<Rightarrow> 'a owners res" where
  "UniqueObject_destroy ivl s i =
     res_bind (FreeIfNecessary ivl s i) (\<lambda>s. Inr (s\<lparr>objs := (objs s)[i := None]\<rparr>))"

definition reset :: "'a \<Rightarrow> 'a owners \<Rightarrow> nat \<Rightarrow> 'a \<Rightarrow> 'a owners res" where
  "reset ivl s i value' =
     res_bind (generic_data s i) (\<lambda>v.
     res_bind (ff_check (v = ivl \<or> v \<noteq> value')) (\<lambda>_.
     res_bind (FreeIfNecessary ivl s i) (\<lambda>s. Inr (set_data s i value'))))"

definition move_assign :: "'a \<Rightarrow> 'a owners \<Rightarrow> nat \<Rightarrow> nat \<Rightarrow> 'a owners res" where
  "move_assign ivl s i other =
     res_bind (release ivl s other) (\<lambda>(v, s). reset ivl s i v)"

definition swap :: "'a owners \<Rightarrow> nat \<Rightarrow> nat \<Rightarrow> 'a owners res" where
  "swap s i other =
     res_bind (generic_data s i) (\<lambda>v.
     res_bind (generic_data s other) (\<lambda>w. Inr (set_data (set_data s i w) other v)))"

definition is_valid :: "('a \<Rightarrow> bool) \<Rightarrow> 'a owners \<Rightarrow> nat \<Rightarrow> bool res" where
  "is_valid IsValid s i = res_bind (generic_data s i) (\<lambda>v. Inr (IsValid v))"

definition UniqueObject_eq :: "'a owners \<Rightarrow> nat \<Rightarrow> 'a \<Rightarrow> bool res" where
  "UniqueObject_eq s i value' = res_bind (generic_data s i) (\<lambda>v. Inr (v = value'))"

definition UniqueObject_ne :: "'a owners \<Rightarrow> nat \<Rightarrow> 'a \<Rightarrow> bool res" where
  "UniqueObject_ne s i value' = res_bind (generic_data s i) (\<lambda>v. Inr (v \<noteq> value'))"

section \<open>Conservation\<close>

definition slot_owns :: "'a \<Rightarrow> 'a option \<Rightarrow> 'a multiset" where
  "slot_owns ivl x = (case x of None \<Rightarrow> {#} | Some v \<Rightarrow> if v = ivl then {#} else {#v#})"

definition owned :: "'a \<Rightarrow> 'a owners \<Rightarrow> 'a multiset" where
  "owned ivl s = sum_list (map (slot_owns ivl) (objs s))"

text \<open>All resources the objects are responsible for or have freed.\<close>

definition holdings :: "'a \<Rightarrow> 'a owners \<Rightarrow> 'a multiset" where
  "holdings ivl s = owned ivl s + mset (freed s)"

lemma slot_owns_simps [simp]:
  "slot_owns ivl None = {#}" "slot_owns ivl (Some ivl) = {#}"
  "v \<noteq> ivl \<Longrightarrow> slot_owns ivl (Some v) = {#v#}"
  by (auto simp: slot_owns_def)

lemma sum_list_update:
  "i < length xs \<Longrightarrow> sum_list (map f (xs[i := x])) + f (xs ! i) = sum_list (map f xs) + (f x :: 'b multiset)"
  by (induction xs arbitrary: i) (auto simp: nth_Cons' list_update.simps split: nat.splits)

lemma owned_update:
  "i < length (objs s) \<Longrightarrow>
     owned ivl (s\<lparr>objs := (objs s)[i := x]\<rparr>) + slot_owns ivl (objs s ! i) = owned ivl s + slot_owns ivl x"
  by (simp add: owned_def sum_list_update)

lemma generic_data_Inr:
  "generic_data s i = Inr v \<longleftrightarrow> i < length (objs s) \<and> objs s ! i = Some v"
  by (auto simp: generic_data_def split: option.splits)

lemma owned_set_data:
  "generic_data s i = Inr v \<Longrightarrow>
     owned ivl (set_data s i w) + slot_owns ivl (Some v) = owned ivl s + slot_owns ivl (Some w)"
  using owned_update[of i s ivl "Some w"] by (simp add: set_data_def generic_data_Inr)

lemma freed_set_data [simp]: "freed (set_data s i w) = freed s"
  by (simp add: set_data_def)

lemma generic_data_set_data:
  "generic_data s i = Inr v \<Longrightarrow>
     generic_data (set_data s j w) i = Inr (if i = j then w else v)"
  by (auto simp: generic_data_Inr set_data_def)

lemma generic_data_freed [simp]: "generic_data (s\<lparr>freed := f\<rparr>) i = generic_data s i"
  by (simp add: generic_data_def)

lemma owned_freed [simp]: "owned ivl (s\<lparr>freed := f\<rparr>) = owned ivl s"
  by (simp add: owned_def)

lemma FreeIfNecessary_holdings:
  assumes "FreeIfNecessary ivl s i = Inr s'"
  shows "holdings ivl s' = holdings ivl s" "generic_data s' i = Inr ivl"
proof -
  obtain v where v: "generic_data s i = Inr v" using assms by (auto simp: FreeIfNecessary_def)
  show "holdings ivl s' = holdings ivl s"
    using assms v owned_set_data[of "s\<lparr>freed := freed s @ [v]\<rparr>" i v ivl ivl]
    by (auto simp: FreeIfNecessary_def holdings_def split: if_splits)
  show "generic_data s' i = Inr ivl"
    using assms v generic_data_set_data[of "s\<lparr>freed := freed s @ [v]\<rparr>" i v i ivl]
    by (auto simp: FreeIfNecessary_def split: if_splits)
qed

lemma release_holdings:
  assumes "release ivl s i = Inr (v, s')"
  shows "holdings ivl s = holdings ivl s' + slot_owns ivl (Some v)" "generic_data s i = Inr v"
  using assms owned_set_data[of s i v ivl ivl] by (auto simp: release_def holdings_def)

lemma value_holdings:
  "holdings ivl (UniqueObject_value s v) = holdings ivl s + slot_owns ivl (Some v)"
  by (simp add: holdings_def UniqueObject_value_def owned_def)

lemma reset_holdings:
  assumes "reset ivl s i v = Inr s'"
  shows "holdings ivl s' = holdings ivl s + slot_owns ivl (Some v)"
proof -
  obtain t where t: "FreeIfNecessary ivl s i = Inr t" "s' = set_data t i v"
    using assms by (auto simp: reset_def res_simps)
  then show ?thesis
    using FreeIfNecessary_holdings[OF t(1)] owned_set_data[of t i ivl ivl v]
    by (simp add: holdings_def)
qed

lemma swap_holdings:
  assumes "swap s i j = Inr s'"
  shows "holdings ivl s' = holdings ivl s"
proof -
  obtain v w where d: "generic_data s i = Inr v" "generic_data s j = Inr w"
    and s': "s' = set_data (set_data s i w) j v"
    using assms by (auto simp: swap_def res_simps)
  have "owned ivl s' + slot_owns ivl (Some w) = owned ivl (set_data s i w) + slot_owns ivl (Some v)"
    unfolding s' using generic_data_set_data[OF d(2), of i w] by (intro owned_set_data) simp
  then show ?thesis
    using owned_set_data[OF d(1), of ivl w] s' by (simp add: holdings_def)
qed

text \<open>The programs that use the objects, with the resources handed in and handed back so far.\<close>

inductive uo_run :: "'a \<Rightarrow> 'a multiset \<Rightarrow> 'a multiset \<Rightarrow> 'a owners \<Rightarrow> bool" for ivl where
  start: "uo_run ivl {#} {#} no_owners"
| default: "uo_run ivl a r s \<Longrightarrow> uo_run ivl a r (UniqueObject_default ivl s)"
| value': "uo_run ivl a r s \<Longrightarrow> uo_run ivl (a + slot_owns ivl (Some v)) r (UniqueObject_value s v)"
| move: "uo_run ivl a r s \<Longrightarrow> UniqueObject_move ivl s i = Inr s' \<Longrightarrow> uo_run ivl a r s'"
| destroy: "uo_run ivl a r s \<Longrightarrow> UniqueObject_destroy ivl s i = Inr s' \<Longrightarrow> uo_run ivl a r s'"
| reset: "uo_run ivl a r s \<Longrightarrow> reset ivl s i v = Inr s' \<Longrightarrow> uo_run ivl (a + slot_owns ivl (Some v)) r s'"
| assign: "uo_run ivl a r s \<Longrightarrow> move_assign ivl s i j = Inr s' \<Longrightarrow> uo_run ivl a r s'"
| swap: "uo_run ivl a r s \<Longrightarrow> swap s i j = Inr s' \<Longrightarrow> uo_run ivl a r s'"
| release: "uo_run ivl a r s \<Longrightarrow> release ivl s i = Inr (v, s') \<Longrightarrow>
    uo_run ivl a (r + slot_owns ivl (Some v)) s'"

lemma uo_run_conserves: "uo_run ivl a r s \<Longrightarrow> a = holdings ivl s + r"
proof (induction rule: uo_run.induct)
  case start
  show ?case by (simp add: holdings_def owned_def no_owners_def)
next
  case (default a r s)
  then show ?case by (simp add: UniqueObject_default_def value_holdings)
next
  case (value' a r s v)
  then show ?case by (simp add: value_holdings ac_simps)
next
  case (move a r s i s')
  then show ?case
    by (auto simp: UniqueObject_move_def value_holdings release_holdings(1))
next
  case (destroy a r s i s')
  then obtain t where t: "FreeIfNecessary ivl s i = Inr t" "s' = t\<lparr>objs := (objs t)[i := None]\<rparr>"
    by (auto simp: UniqueObject_destroy_def)
  have "generic_data t i = Inr ivl" by (rule FreeIfNecessary_holdings(2)[OF t(1)])
  then have "owned ivl s' = owned ivl t"
    using owned_update[of i t ivl None] t(2) by (simp add: generic_data_Inr)
  then show ?case using destroy.IH FreeIfNecessary_holdings(1)[OF t(1)] t(2) by (simp add: holdings_def)
next
  case (reset a r s i v s')
  then show ?case by (simp add: reset_holdings ac_simps)
next
  case (assign a r s i j s')
  then show ?case
    by (auto simp: move_assign_def reset_holdings release_holdings(1))
next
  case (swap a r s i j s')
  then show ?case by (simp add: swap_holdings)
next
  case (release a r s i v s')
  then show ?case using release_holdings(1)[OF release.hyps(2)] by simp
qed

interpretation uo: resource_ledger "uo_run ivl" freed "owned ivl" for ivl
  by standard (auto dest: uo_run_conserves simp: holdings_def)

lemma owned_all_gone: "\<forall>x\<in>set (objs s). x = None \<Longrightarrow> owned ivl s = {#}"
proof -
  assume "\<forall>x\<in>set (objs s). x = None"
  then have "map (slot_owns ivl) (objs s) = map (\<lambda>_. {#}) (objs s)" by auto
  then show ?thesis unfolding owned_def by (simp only: sum_list_0)
qed

section \<open>UniqueFD\<close>

text \<open>What a user of the class relies on in its traits.\<close>

locale unique_traits =
  fixes ivl :: 'a
    and IsValid :: "'a \<Rightarrow> bool"
  assumes invalid: "\<not> IsValid ivl"
begin

lemma default_not_valid:
  "is_valid IsValid (UniqueObject_default ivl s) (length (objs s)) = Inr False"
  by (simp add: is_valid_def UniqueObject_default_def UniqueObject_value_def generic_data_def invalid)

lemma released_not_valid:
  assumes "release ivl s i = Inr (v, s')"
  shows "is_valid IsValid s' i = Inr False"
  using assms by (auto simp: release_def is_valid_def generic_data_set_data invalid)

lemma moved_from_not_valid:
  assumes "move_assign ivl s i j = Inr s'" "i \<noteq> j"
  shows "is_valid IsValid s' j = Inr False"
proof -
  obtain v s1 s2 where r: "release ivl s j = Inr (v, s1)" "FreeIfNecessary ivl s1 i = Inr s2"
    "s' = set_data s2 i v"
    using assms(1) by (auto simp: move_assign_def reset_def res_simps)
  have "generic_data s1 j = Inr ivl"
    using r(1) by (auto simp: release_def generic_data_set_data)
  then have "generic_data s2 j = Inr ivl"
    using r(2) generic_data_set_data[of "s1\<lparr>freed := f\<rparr>" j ivl i ivl for f]
    by (auto simp: FreeIfNecessary_def res_simps split: if_splits)
  then show ?thesis
    using assms(2) r(3) generic_data_set_data[of s2 j ivl i v] by (simp add: is_valid_def invalid)
qed

end

definition FD_InvalidValue :: int where
  "FD_InvalidValue = - 1"

definition FD_IsValid :: "int \<Rightarrow> bool" where
  "FD_IsValid v \<longleftrightarrow> v \<ge> 0"

interpretation fd: unique_traits FD_InvalidValue FD_IsValid
  by standard (simp add: FD_InvalidValue_def FD_IsValid_def)

section \<open>Properties\<close>

text \<open>(C27) No double free and no leak: in every program built from the constructors, moves, swaps,
  \<open>reset\<close>, \<open>release\<close> and destructors of \<open>UniqueObject\<close>, if the resources handed in are distinct, then
  no resource is freed twice, none is freed while an object still owns it or after it was released,
  no two objects own the same one, and once every object is gone each resource was freed or released.\<close>

theorem unique_object_frees_once:
  assumes "uo_run ivl acquired released s" "\<forall>v. count acquired v \<le> 1"
  shows "distinct (freed s)
    \<and> (\<forall>v\<in>set (freed s). v \<notin># owned ivl s \<and> v \<notin># released)
    \<and> (\<forall>v. count (owned ivl s) v \<le> 1)
    \<and> (\<forall>v\<in># owned ivl s. v \<notin># released)
    \<and> ((\<forall>x\<in>set (objs s). x = None) \<longrightarrow> mset (freed s) + released = acquired)"
  using uo.freed_distinct[OF assms] uo.freed_not_held[OF assms] uo.owned_once[OF assms]
    uo.owned_not_released[OF assms] uo.no_leak[OF assms(1) owned_all_gone] by simp

text \<open>Two objects, one assigned over the other, both destroyed.\<close>

definition two_fds :: "int owners" where
  "two_fds = UniqueObject_value (UniqueObject_value no_owners 3) 4"

theorem unique_object_frees_once_witness:
  "\<exists>s. move_assign FD_InvalidValue two_fds 0 1 = Inr s \<and> freed s = [3] \<and> distinct (freed s)
    \<and> (\<forall>v\<in>set (freed s). v \<notin># owned FD_InvalidValue s)"
proof -
  let ?i = FD_InvalidValue
  have run: "uo_run ?i ({#} + slot_owns ?i (Some 3) + slot_owns ?i (Some 4)) {#} two_fds"
    unfolding two_fds_def by (intro uo_run.intros)
  let ?s = "\<lparr>objs = [Some 4, Some ?i], freed = [3]\<rparr>"
  have s: "move_assign ?i two_fds 0 1 = Inr ?s"
    by (simp add: move_assign_def release_def reset_def FreeIfNecessary_def two_fds_def
        UniqueObject_value_def no_owners_def generic_data_def set_data_def FD_InvalidValue_def)
  have "\<forall>v. count ({#} + slot_owns ?i (Some 3) + slot_owns ?i (Some 4)) v \<le> 1"
    by (simp add: FD_InvalidValue_def)
  from unique_object_frees_once[OF uo_run.assign[OF run s] this] s show ?thesis by auto
qed

text \<open>A moved-from \<open>UniqueFD\<close> owns nothing: after \<open>a = std::move(b)\<close> between two objects, \<open>b\<close>
  is not valid, \<open>a\<close> holds the descriptor \<open>b\<close> had, and the descriptor \<open>a\<close> had was closed exactly when
  it was one.\<close>

theorem unique_fd_move_assign:
  assumes "generic_data s i = Inr v" "generic_data s j = Inr w" "i \<noteq> j"
    and "v = FD_InvalidValue \<or> v \<noteq> w"
  shows "\<exists>s'. move_assign FD_InvalidValue s i j = Inr s'
    \<and> is_valid FD_IsValid s' j = Inr False \<and> generic_data s' i = Inr w
    \<and> freed s' = freed s @ (if v = FD_InvalidValue then [] else [v])"
proof -
  let ?s1 = "set_data s j FD_InvalidValue"
  have r: "release FD_InvalidValue s j = Inr (w, ?s1)" using assms(2) by (simp add: release_def)
  have d: "generic_data ?s1 i = Inr v" using assms(1,3) by (simp add: generic_data_set_data)
  let ?s2 = "if v = FD_InvalidValue then ?s1
    else set_data (?s1\<lparr>freed := freed s @ [v]\<rparr>) i FD_InvalidValue"
  have m: "move_assign FD_InvalidValue s i j = Inr (set_data ?s2 i w)"
    using assms(4) r d by (simp add: move_assign_def reset_def FreeIfNecessary_def)
  have "generic_data ?s2 i = Inr FD_InvalidValue"
    using d generic_data_set_data[of "?s1\<lparr>freed := freed s @ [v]\<rparr>" i v i] by simp
  then have "generic_data (set_data ?s2 i w) i = Inr w"
    using generic_data_set_data by fastforce
  moreover have "freed (set_data ?s2 i w) = freed s @ (if v = FD_InvalidValue then [] else [v])"
    by simp
  ultimately show ?thesis using fd.moved_from_not_valid[OF m assms(3)] m by blast
qed

theorem unique_fd_move_assign_witness:
  "\<exists>s'. move_assign FD_InvalidValue two_fds 0 1 = Inr s'
    \<and> is_valid FD_IsValid s' 1 = Inr False \<and> generic_data s' 0 = Inr 4 \<and> freed s' = [3]"
  using unique_fd_move_assign[of two_fds 0 3 1 4]
  by (simp add: two_fds_def UniqueObject_value_def no_owners_def generic_data_def FD_InvalidValue_def)

end
