(* ===== verification/Waitable_Event.thy ===== *)
theory Waitable_Event
  imports Time_Types
begin

text \<open>
  \<open>AutoResetWaitableEvent\<close> (\<open>source/base/thread/waitable_event.cpp\<close>). The operations hold \<open>mutex_\<close> except
  while they are blocked on the condition variable, so the object is a state machine whose steps are the
  sections between two blocking points: a thread is outside, blocked in \<open>cv_.wait\<close>, or woken and about to
  test \<open>signaled_\<close> again. A wake-up can be the notification or spurious. The loop of \<open>WaitWithTimeout\<close> is
  also given as a function of what its waits return.
\<close>

record event =
  signaled :: bool
  blocked :: "nat set"     \<comment> \<open>threads in \<open>cv_.wait\<close>\<close>
  woken :: "nat set"       \<comment> \<open>threads that left \<open>cv_.wait\<close> and have not tested \<open>signaled_\<close> yet\<close>
  signals :: nat           \<comment> \<open>completed calls of \<open>Signal\<close>\<close>
  returned :: "nat list"   \<comment> \<open>threads whose \<open>Wait\<close> returned, in order\<close>

definition new_event :: event where
  "new_event = \<lparr>signaled = False, blocked = {}, woken = {}, signals = 0, returned = []\<rparr>"

section \<open>Operations\<close>

text \<open>\<open>Signal\<close>: \<open>notify_one\<close> wakes one blocked thread, the scheduler's choice \<open>pick\<close>, if there is one.\<close>

definition Signal :: "event \<Rightarrow> nat option \<Rightarrow> event" where
  "Signal ev pick =
     (let ev = ev\<lparr>signaled := True, signals := signals ev + 1\<rparr>
      in case pick of
           None \<Rightarrow> ev
         | Some t \<Rightarrow> ev\<lparr>blocked := blocked ev - {t}, woken := insert t (woken ev)\<rparr>)"

definition pick_ok :: "event \<Rightarrow> nat option \<Rightarrow> bool" where
  "pick_ok ev pick \<longleftrightarrow> (case pick of None \<Rightarrow> blocked ev = {} | Some t \<Rightarrow> t \<in> blocked ev)"

text \<open>The test of \<open>signaled_\<close> in \<open>Wait\<close>: leave and reset the event, or block.\<close>

definition Wait_test :: "event \<Rightarrow> nat \<Rightarrow> event" where
  "Wait_test ev t =
     (if signaled ev then ev\<lparr>signaled := False, woken := woken ev - {t}, returned := returned ev @ [t]\<rparr>
      else ev\<lparr>blocked := insert t (blocked ev), woken := woken ev - {t}\<rparr>)"

definition Wake :: "event \<Rightarrow> nat \<Rightarrow> event" where
  "Wake ev t = ev\<lparr>blocked := blocked ev - {t}, woken := insert t (woken ev)\<rparr>"

definition IsSignaledForTest :: "event \<Rightarrow> bool" where
  "IsSignaledForTest ev = signaled ev"

inductive ev_reach :: "event \<Rightarrow> bool" where
  start: "ev_reach new_event"
| signal: "ev_reach ev \<Longrightarrow> pick_ok ev pick \<Longrightarrow> ev_reach (Signal ev pick)"
| enter: "ev_reach ev \<Longrightarrow> t \<notin> blocked ev \<Longrightarrow> t \<notin> woken ev \<Longrightarrow> ev_reach (Wait_test ev t)"
| spurious: "ev_reach ev \<Longrightarrow> t \<in> blocked ev \<Longrightarrow> ev_reach (Wake ev t)"
| retest: "ev_reach ev \<Longrightarrow> t \<in> woken ev \<Longrightarrow> ev_reach (Wait_test ev t)"

inductive_cases ev_reachE: "ev_reach ev"

section \<open>\<open>WaitWithTimeout\<close>\<close>

text \<open>One return of \<open>wait_for\<close>: the status, whether \<open>signaled_\<close> is set then, and the clock reading after
  it. The result is \<open>Some timed_out\<close>, or \<open>None\<close> while the call is blocked, with the durations passed to
  \<open>wait_for\<close>.\<close>

record wait_return =
  cv_timeout :: bool
  seen_signaled :: bool
  read_now :: TimePoint

fun timeout_loop ::
  "TimeDelta \<Rightarrow> TimePoint \<Rightarrow> TimeDelta \<Rightarrow> wait_return list \<Rightarrow> (bool option \<times> TimeDelta list) res" where
  "timeout_loop timeout start_time time_remaining [] = Inr (None, [time_remaining])"
| "timeout_loop timeout start_time time_remaining (w # ws) =
     (if cv_timeout w then Inr (Some True, [time_remaining])
      else if seen_signaled w then Inr (Some False, [time_remaining])
      else res_bind (ff_check (read_now w \<ge> start_time)) (\<lambda>_.
           res_bind (tp_diff (read_now w) start_time) (\<lambda>elapsed.
           if elapsed \<ge> timeout then Inr (Some True, [time_remaining])
           else res_bind (td_minus timeout elapsed) (\<lambda>time_remaining'.
                res_bind (timeout_loop timeout start_time time_remaining' ws) (\<lambda>(r, ds).
                  Inr (r, time_remaining # ds))))))"

definition WaitWithTimeout ::
  "bool \<Rightarrow> TimeDelta \<Rightarrow> TimePoint \<Rightarrow> wait_return list \<Rightarrow> (bool option \<times> TimeDelta list) res" where
  "WaitWithTimeout is_signaled timeout start_time ws =
     (if is_signaled then Inr (Some False, []) else timeout_loop timeout start_time timeout ws)"

section \<open>Lemmas\<close>

definition ev_inv :: "event \<Rightarrow> bool" where
  "ev_inv ev \<longleftrightarrow>
     length (returned ev) + (if signaled ev then 1 else 0) \<le> signals ev
     \<and> (signaled ev \<and> blocked ev \<noteq> {} \<longrightarrow> woken ev \<noteq> {})
     \<and> blocked ev \<inter> woken ev = {}"

lemma ev_reach_inv: "ev_reach ev \<Longrightarrow> ev_inv ev"
proof (induction rule: ev_reach.induct)
  case start
  show ?case by (simp add: ev_inv_def new_event_def)
next
  case (signal ev pick)
  then show ?case
    by (auto simp: ev_inv_def Signal_def pick_ok_def split: option.splits if_splits)
next
  case (enter ev t)
  then show ?case by (auto simp: ev_inv_def Wait_test_def)
next
  case (spurious ev t)
  then show ?case by (auto simp: ev_inv_def Wake_def)
next
  case (retest ev t)
  then show ?case by (auto simp: ev_inv_def Wait_test_def)
qed

section \<open>Properties\<close>

text \<open>(C36) An event releases at most one waiter per signal: in every interleaving of signals, waits and
  spurious wake-ups, the waits that returned, plus the one that a pending signal will release, never
  outnumber the signals.\<close>

theorem event_releases:
  assumes "ev_reach ev"
  shows "length (returned ev) + (if IsSignaledForTest ev then 1 else 0) \<le> signals ev"
  using ev_reach_inv[OF assms] by (simp add: ev_inv_def IsSignaledForTest_def)

definition demo_event :: event where
  "demo_event = Wait_test (Signal (Wait_test new_event 1) (Some 1)) 1"

lemma demo_event_reach: "ev_reach demo_event"
proof -
  have a: "ev_reach (Wait_test new_event 1)"
    by (rule ev_reach.enter[OF ev_reach.start]) (simp_all add: new_event_def)
  have b: "ev_reach (Signal (Wait_test new_event 1) (Some 1))"
    by (rule ev_reach.signal[OF a]) (simp add: pick_ok_def Wait_test_def new_event_def)
  show ?thesis unfolding demo_event_def
    by (rule ev_reach.retest[OF b]) (simp add: Signal_def Wait_test_def new_event_def)
qed

theorem event_releases_witness:
  "length (returned demo_event) \<le> signals demo_event \<and> returned demo_event = [1] \<and> signals demo_event = 1"
  using event_releases[OF demo_event_reach]
  by (simp add: demo_event_def Signal_def Wait_test_def new_event_def)

text \<open>No lost wake-up between \<open>Signal\<close> and \<open>Wait\<close>: while the event is signalled, a thread blocked in
  \<open>Wait\<close> is never alone: some woken thread is about to test the event, and its test consumes the signal and
  returns. So a signal is never stranded with only blocked waiters.\<close>

theorem event_signal_not_stranded:
  assumes "ev_reach ev" "signaled ev" "blocked ev \<noteq> {}"
  shows "\<exists>t\<in>woken ev. returned (Wait_test ev t) = returned ev @ [t] \<and> \<not> signaled (Wait_test ev t)"
  using ev_reach_inv[OF assms(1)] assms(2,3) by (auto simp: ev_inv_def Wait_test_def)

theorem event_signal_not_stranded_witness:
  "\<exists>t\<in>woken (Signal (Wait_test (Wait_test new_event 1) 2) (Some 1)).
     returned (Wait_test (Signal (Wait_test (Wait_test new_event 1) 2) (Some 1)) t) = [t]"
proof -
  let ?a = "Wait_test new_event 1" let ?b = "Wait_test ?a 2" let ?c = "Signal ?b (Some 1)"
  have a: "ev_reach ?a" by (rule ev_reach.enter[OF ev_reach.start]) (simp_all add: new_event_def)
  have b: "ev_reach ?b" by (rule ev_reach.enter[OF a]) (simp_all add: new_event_def Wait_test_def)
  have c: "ev_reach ?c" by (rule ev_reach.signal[OF b]) (simp add: pick_ok_def Wait_test_def new_event_def)
  have "signaled ?c" "blocked ?c \<noteq> {}" "returned ?c = []"
    by (auto simp: Signal_def Wait_test_def new_event_def)
  moreover from this obtain t where "t \<in> woken ?c" "returned (Wait_test ?c t) = returned ?c @ [t]"
    using event_signal_not_stranded[OF c] by blast
  ultimately show ?thesis by (intro bexI[of _ t]) simp_all
qed

text \<open>\<open>WaitWithTimeout\<close>, on a clock that does not go back: it never faults; it reports a timeout only
  after a \<open>wait_for\<close> that timed out or once the timeout has elapsed; and every duration it waits for is
  positive and at most the timeout, so spurious wake-ups neither extend nor restart the wait.\<close>

theorem wait_with_timeout_bounded:
  assumes "0 < delta timeout" "td_wf timeout" "0 < delta remaining" "remaining \<le> timeout"
    and "\<forall>w\<in>set ws. ticks start \<le> ticks (read_now w) \<and> ticks (read_now w) - ticks start \<le> int64_max"
  shows "\<exists>r ds. timeout_loop timeout start remaining ws = Inr (r, ds)
    \<and> (\<forall>d\<in>set ds. 0 < delta d \<and> d \<le> timeout)
    \<and> (r = Some True \<longrightarrow> (\<exists>w\<in>set ws. cv_timeout w \<or> delta timeout \<le> ticks (read_now w) - ticks start))
    \<and> (r = Some False \<longrightarrow> (\<exists>w\<in>set ws. seen_signaled w))"
  using assms(3-5)
proof (induction ws arbitrary: remaining)
  case Nil
  then show ?case by simp
next
  case (Cons w ws)
  let ?e = "ticks (read_now w) - ticks start"
  have e: "0 \<le> ?e" "?e \<le> int64_max" using Cons.prems(3) by auto
  have diff: "tp_diff (read_now w) start = Inr (TimeDelta ?e)"
    using e by (simp add: tp_diff_def FromNanoseconds_def int64_bounds)
  have ge: "start \<le> read_now w" using e by (simp add: less_eq_TimePoint_def)
  consider "cv_timeout w" | "\<not> cv_timeout w" "seen_signaled w"
    | "\<not> cv_timeout w" "\<not> seen_signaled w" "delta timeout \<le> ?e"
    | "\<not> cv_timeout w" "\<not> seen_signaled w" "?e < delta timeout" by linarith
  then show ?case
  proof cases
    case 4
    let ?r = "TimeDelta (delta timeout - ?e)"
    have m: "td_minus timeout (TimeDelta ?e) = Inr ?r"
      using e 4(3) assms(2) by (simp add: td_minus_def FromNanoseconds_def int64_bounds td_wf_def)
    have "0 < delta ?r" "?r \<le> timeout" using 4(3) e by (simp_all add: less_eq_TimeDelta_def)
    with Cons.IH[of ?r] Cons.prems(3) obtain r ds where IH:
      "timeout_loop timeout start ?r ws = Inr (r, ds)" "\<forall>d\<in>set ds. 0 < delta d \<and> d \<le> timeout"
      "r = Some True \<longrightarrow> (\<exists>w\<in>set ws. cv_timeout w \<or> delta timeout \<le> ticks (read_now w) - ticks start)"
      "r = Some False \<longrightarrow> (\<exists>w\<in>set ws. seen_signaled w)" by auto
    have "\<not> timeout \<le> TimeDelta ?e" using 4(3) by (simp add: less_eq_TimeDelta_def)
    then have "timeout_loop timeout start remaining (w # ws) = Inr (r, remaining # ds)"
      using 4 ge by (simp add: diff m IH(1))
    then show ?thesis using IH Cons.prems(1,2) by auto
  next
    case 3
    then have "timeout_loop timeout start remaining (w # ws) = Inr (Some True, [remaining])"
      using ge by (simp add: diff less_eq_TimeDelta_def)
    then show ?thesis using 3 Cons.prems(1,2) by auto
  qed (use Cons.prems in auto)
qed

end
