(* ===== verification/Shared_Mutex.thy ===== *)
theory Shared_Mutex
  imports FF_Prelude
begin

text \<open>
  \<open>source/base/thread/mutex.cpp\<close>: \<open>SharedMutexPosix\<close>, a POSIX read-write lock, and the scoped locks of
  \<open>mutex.h\<close>. The functions \<open>pthread_rwlock_*\<close> are not part of the sources: each is a parameter that takes
  the state of the lock and returns its \<open>int\<close> result and the new state. The class ignores the result of
  the blocking functions and converts that of the two \<open>try\<close> functions to \<open>bool\<close>.
\<close>

type_synonym 'l rwlock_fn = "'l \<Rightarrow> int \<times> 'l"

text \<open>\<open>SharedMutex::Create\<close> initialises a lock with default attributes and the destructor destroys it; both results are
  ignored. The last argument of the first is the memory of the new object.\<close>

definition SharedMutex_Create :: "'l rwlock_fn \<Rightarrow> 'l \<Rightarrow> 'l" where
  "SharedMutex_Create pthread_rwlock_init l = snd (pthread_rwlock_init l)"

definition SharedMutexPosix_destroy :: "'l rwlock_fn \<Rightarrow> 'l \<Rightarrow> 'l" where
  "SharedMutexPosix_destroy pthread_rwlock_destroy l = snd (pthread_rwlock_destroy l)"

definition Lock :: "'l rwlock_fn \<Rightarrow> 'l \<Rightarrow> 'l" where
  "Lock pthread_rwlock_wrlock l = snd (pthread_rwlock_wrlock l)"

definition LockShared :: "'l rwlock_fn \<Rightarrow> 'l \<Rightarrow> 'l" where
  "LockShared pthread_rwlock_rdlock l = snd (pthread_rwlock_rdlock l)"

definition Unlock :: "'l rwlock_fn \<Rightarrow> 'l \<Rightarrow> 'l" where
  "Unlock pthread_rwlock_unlock l = snd (pthread_rwlock_unlock l)"

definition UnlockShared :: "'l rwlock_fn \<Rightarrow> 'l \<Rightarrow> 'l" where
  "UnlockShared pthread_rwlock_unlock l = snd (pthread_rwlock_unlock l)"

text \<open>Every \<open>int\<close> but 0 converts to \<open>true\<close>.\<close>

definition TryLock :: "'l rwlock_fn \<Rightarrow> 'l \<Rightarrow> bool \<times> 'l" where
  "TryLock pthread_rwlock_trywrlock l =
     (case pthread_rwlock_trywrlock l of (r, l') \<Rightarrow> (r \<noteq> 0, l'))"

definition TryLockShared :: "'l rwlock_fn \<Rightarrow> 'l \<Rightarrow> bool \<times> 'l" where
  "TryLockShared pthread_rwlock_tryrdlock l =
     (case pthread_rwlock_tryrdlock l of (r, l') \<Rightarrow> (r \<noteq> 0, l'))"

text \<open>The scoped locks: \<open>UniqueLock\<close>, \<open>SharedLock\<close> and \<open>ScopedMutex\<close> (over \<open>std::mutex\<close>) run the rest of
  their block, a function of the lock and the program's state, between the two calls.\<close>

definition UniqueLock_scope ::
  "'l rwlock_fn \<Rightarrow> 'l rwlock_fn \<Rightarrow> ('l \<Rightarrow> 's \<Rightarrow> 'l \<times> 's) \<Rightarrow> 'l \<Rightarrow> 's \<Rightarrow> 'l \<times> 's" where
  "UniqueLock_scope wrlock unlock block l s =
     (case block (Lock wrlock l) s of (l, s) \<Rightarrow> (Unlock unlock l, s))"

definition SharedLock_scope ::
  "'l rwlock_fn \<Rightarrow> 'l rwlock_fn \<Rightarrow> ('l \<Rightarrow> 's \<Rightarrow> 'l \<times> 's) \<Rightarrow> 'l \<Rightarrow> 's \<Rightarrow> 'l \<times> 's" where
  "SharedLock_scope rdlock unlock block l s =
     (case block (LockShared rdlock l) s of (l, s) \<Rightarrow> (UnlockShared unlock l, s))"

definition ScopedMutex_scope ::
  "('m \<Rightarrow> 'm) \<Rightarrow> ('m \<Rightarrow> 'm) \<Rightarrow> ('m \<Rightarrow> 's \<Rightarrow> 'm \<times> 's) \<Rightarrow> 'm \<Rightarrow> 's \<Rightarrow> 'm \<times> 's" where
  "ScopedMutex_scope lock unlock block m s = (case block (lock m) s of (m, s) \<Rightarrow> (unlock m, s))"

text \<open>Scopes balance the lock: when unlocking undoes locking, a block that leaves the lock as it found it makes a
  scope that does so too, so scopes nest.\<close>

lemma scope_balanced:
  assumes "snd (unlock (snd (wrlock l))) = l" "block (snd (wrlock l)) s = (snd (wrlock l), s')"
  shows "UniqueLock_scope wrlock unlock block l s = (l, s')"
    and "SharedLock_scope wrlock unlock block l s = (l, s')"
  using assms by (simp_all add: UniqueLock_scope_def SharedLock_scope_def Lock_def Unlock_def LockShared_def
      UnlockShared_def)

text \<open>With the documented result of \<open>pthread_rwlock_trywrlock\<close> (0 exactly when the lock was acquired),
  \<open>TryLock\<close> returns true exactly when the lock was not acquired, the opposite of its comment.\<close>

theorem try_lock_inverted:
  assumes "\<And>l r l'. trywrlock l = (r, l') \<Longrightarrow> (r = 0 \<longleftrightarrow> acquired l l')" "TryLock trywrlock l = (b, l')"
  shows "b \<longleftrightarrow> \<not> acquired l l'"
  using assms by (auto simp: TryLock_def split: prod.splits)

text \<open>On a lock that is free or held: 0 when free, 16 (\<open>EBUSY\<close>) when held.\<close>

theorem try_lock_inverted_witness:
  "fst (TryLock (\<lambda>h. if h then (16, True) else (0, True)) True)
   \<and> \<not> fst (TryLock (\<lambda>h. if h then (16, True) else (0, True)) False)"
  using try_lock_inverted[of "\<lambda>h. if h then (16, True) else (0, True)" "\<lambda>l l'. \<not> l \<and> l'" True True True]
    try_lock_inverted[of "\<lambda>h. if h then (16, True) else (0, True)" "\<lambda>l l'. \<not> l \<and> l'" False False True]
  by (auto simp: TryLock_def split: if_splits)

end
