(* ===== verification/Logging.thy ===== *)
theory Logging
  imports FF_Prelude
begin

text \<open>
  \<open>source/base/logging.h\<close> and \<open>logging.cpp\<close>: log levels, the settings, the prefix of a log line and the
  decision whether a line is produced, and the message itself with the calls it makes of the log sink. \<open>LogLevel\<close>
  is an \<open>int\<close>. A C string is the list of its characters. The lemmas show that fatal messages are always written
  and abort, what each sink does with the levels, and how long texts are cut.
\<close>

type_synonym LogLevel = int

definition LOG_INFO :: LogLevel where "LOG_INFO = 0"
definition LOG_DEBUG :: LogLevel where "LOG_DEBUG = 1"
definition LOG_WARNING :: LogLevel where "LOG_WARNING = 2"
definition LOG_ERROR :: LogLevel where "LOG_ERROR = 3"
definition LOG_FATAL :: LogLevel where "LOG_FATAL = 4"
definition LOG_NUM_LEVELS :: LogLevel where "LOG_NUM_LEVELS = 5"

text \<open>\<open>LOG_DFATAL\<close> depends on whether \<open>DEBUG\<close> is defined.\<close>

definition LOG_DFATAL :: "bool \<Rightarrow> LogLevel" where
  "LOG_DFATAL debug = (if debug then LOG_ERROR else LOG_FATAL)"

lemmas log_levels = LOG_INFO_def LOG_DEBUG_def LOG_WARNING_def LOG_ERROR_def LOG_FATAL_def LOG_NUM_LEVELS_def

definition kLogLevelNames :: "string list" where
  "kLogLevelNames = [''INFO'', ''DEBUG'', ''WARNING'', ''ERROR'', ''FATAL'']"

definition GetNameForLogLevel :: "LogLevel \<Rightarrow> string" where
  "GetNameForLogLevel level =
     (if level \<ge> 0 \<and> level < LOG_NUM_LEVELS then kLogLevelNames ! nat level else ''UNKNOWN'')"

function StripDots :: "string \<Rightarrow> string" where
  "StripDots path = (if take 3 path = ''../'' then StripDots (drop 3 path) else path)"
  by pat_completeness auto
termination
proof (relation "measure length")
  fix path :: string assume "take 3 path = ''../''"
  then have "path \<noteq> []" by auto
  then show "(drop 3 path, path) \<in> measure length" by simp
qed simp

declare StripDots.simps [simp del]

definition strrchr_slash :: "string \<Rightarrow> string option" where
  "strrchr_slash path =
     (if CHR ''/'' \<in> set path then Some (CHR ''/'' # rev (takeWhile (\<lambda>c. c \<noteq> CHR ''/'') (rev path))) else None)"

definition StripPath :: "string \<Rightarrow> string" where
  "StripPath path = (case strrchr_slash path of Some p \<Rightarrow> tl p | None \<Rightarrow> path)"

fun show_nat :: "nat \<Rightarrow> string" where
  "show_nat n = (if n < 10 then [char_of (48 + n)] else show_nat (n div 10) @ [char_of (48 + n mod 10)])"

declare show_nat.simps [simp del]

text \<open>The text a \<open>LogMessage\<close> starts with; the line number is not negative.\<close>

definition log_prefix :: "LogLevel \<Rightarrow> string \<Rightarrow> nat \<Rightarrow> string option \<Rightarrow> string" where
  "log_prefix level file line condition =
     ''['' @ (if level \<ge> 0 then GetNameForLogLevel level else '''')
     @ '':'' @ (if level > LOG_INFO then StripDots file else StripPath file)
     @ ''('' @ show_nat line @ '')] ''
     @ (case condition of None \<Rightarrow> '''' | Some c \<Rightarrow> ''Check failed:'' @ c @ ''.'')"

section \<open>Settings\<close>

record LogSettings =
  min_log_level :: LogLevel

definition default_settings :: LogSettings where
  "default_settings = \<lparr>min_log_level = LOG_INFO\<rparr>"

definition SetLogSettings :: "LogSettings \<Rightarrow> LogSettings \<Rightarrow> LogSettings" where
  "SetLogSettings g settings = g\<lparr>min_log_level := min LOG_FATAL (min_log_level settings)\<rparr>"

definition GetLogSettings :: "LogSettings \<Rightarrow> LogSettings" where
  "GetLogSettings g = g"

definition GetMinLogLevel :: "LogSettings \<Rightarrow> int" where
  "GetMinLogLevel g = min (min_log_level g) LOG_FATAL"

definition GetVlogVerbosity :: "LogSettings \<Rightarrow> int" where
  "GetVlogVerbosity g = max (- 1) (LOG_INFO - GetMinLogLevel g)"

definition ShouldCreateLogMessage :: "LogSettings \<Rightarrow> LogLevel \<Rightarrow> bool" where
  "ShouldCreateLogMessage g level \<longleftrightarrow> level \<ge> GetMinLogLevel g"

section \<open>Messages and their sinks\<close>

text \<open>The sink depends on the platform: the system log on Darwin (standard error in a build with \<open>Debug\<close>),
  standard error elsewhere.\<close>

datatype platform = Posix | Darwin | DarwinDebug

datatype os_log_type = OsInfo | OsDebug | OsError | OsFault

datatype sink_call = Stderr string | OsLog os_log_type string

definition darwin_os_log :: "LogLevel \<Rightarrow> string \<Rightarrow> sink_call list" where
  "darwin_os_log level log_info =
     (if level = LOG_INFO then [OsLog OsInfo log_info]
      else if level = LOG_WARNING then [OsLog OsDebug log_info]
      else if level = LOG_ERROR then [OsLog OsError log_info]
      else if level = LOG_FATAL then [OsLog OsFault log_info]
      else [])"

text \<open>\<open>ffbase_darwin_log\<close> creates the log handle at its first call: the handle it returns and the static variable after
  it, with what \<open>os_log_create\<close> would return.\<close>

definition ffbase_darwin_log :: "'h \<Rightarrow> 'h option \<Rightarrow> 'h \<times> 'h option" where
  "ffbase_darwin_log created log = (case log of None \<Rightarrow> (created, Some created) | Some h \<Rightarrow> (h, log))"

text \<open>The priority \<open>android_os_log\<close> chooses.\<close>

datatype android_LogPriority =
    ANDROID_LOG_UNKNOWN | ANDROID_LOG_VERBOSE | ANDROID_LOG_INFO | ANDROID_LOG_WARN | ANDROID_LOG_ERROR
  | ANDROID_LOG_FATAL

definition android_priority :: "LogLevel \<Rightarrow> android_LogPriority" where
  "android_priority level =
     (if level = LOG_INFO then ANDROID_LOG_INFO
      else if level = LOG_WARNING then ANDROID_LOG_WARN
      else if level = LOG_ERROR then ANDROID_LOG_ERROR
      else if level = LOG_FATAL then ANDROID_LOG_FATAL
      else if level < 0 then ANDROID_LOG_VERBOSE else ANDROID_LOG_UNKNOWN)"

record LogMessage =
  msg_level :: LogLevel
  stream :: string

definition new_LogMessage :: "LogLevel \<Rightarrow> string \<Rightarrow> nat \<Rightarrow> string option \<Rightarrow> LogMessage" where
  "new_LogMessage level file line condition =
     \<lparr>msg_level = level, stream = log_prefix level file line condition\<rparr>"

text \<open>\<open>stream() << text\<close>.\<close>

definition put :: "LogMessage \<Rightarrow> string \<Rightarrow> LogMessage" where
  "put m t = m\<lparr>stream := stream m @ t\<rparr>"

text \<open>\<open>print_log\<close>: \<open>vsnprintf\<close> with size 1023 leaves at most 1022 characters of the formatted text in the buffer,
  which is then read as a C string.\<close>

definition print_log :: "LogMessage \<Rightarrow> string \<Rightarrow> LogMessage" where
  "print_log m formatted = put m (takeWhile (\<lambda>c. c \<noteq> CHR 0x00) (take 1022 formatted))"

text \<open>The destructor: the calls of the sink, and whether the process aborts.\<close>

definition LogMessage_destroy :: "platform \<Rightarrow> LogMessage \<Rightarrow> sink_call list \<times> bool" where
  "LogMessage_destroy pf m =
     (let text = stream m @ [CHR 0x0A] in
      (case pf of Darwin \<Rightarrow> darwin_os_log (msg_level m) text | _ \<Rightarrow> [Stderr text], msg_level m \<ge> LOG_FATAL))"

text \<open>The statements \<open>FF_LOG(level) << text\<close> and \<open>FF_LOG_P(level, ...)\<close>, and \<open>FF_CHECK(condition) << text\<close>, which
  does not ask the settings.\<close>

definition FF_LOG ::
  "LogSettings \<Rightarrow> platform \<Rightarrow> LogLevel \<Rightarrow> string \<Rightarrow> nat \<Rightarrow> string \<Rightarrow> sink_call list \<times> bool" where
  "FF_LOG g pf level file line text =
     (if ShouldCreateLogMessage g level
      then LogMessage_destroy pf (put (new_LogMessage level file line None) text) else ([], False))"

definition FF_LOG_P ::
  "LogSettings \<Rightarrow> platform \<Rightarrow> LogLevel \<Rightarrow> string \<Rightarrow> nat \<Rightarrow> string \<Rightarrow> sink_call list \<times> bool" where
  "FF_LOG_P g pf level file line formatted =
     (if ShouldCreateLogMessage g level
      then LogMessage_destroy pf (print_log (new_LogMessage level file line None) formatted) else ([], False))"

definition FF_CHECK ::
  "platform \<Rightarrow> bool \<Rightarrow> string \<Rightarrow> string \<Rightarrow> nat \<Rightarrow> string \<Rightarrow> sink_call list \<times> bool" where
  "FF_CHECK pf condition condition_text file line text =
     (if \<not> condition
      then LogMessage_destroy pf (put (new_LogMessage LOG_FATAL file line (Some condition_text)) text)
      else ([], False))"

text \<open>The debug forms, \<open>debug\<close> saying whether \<open>DEBUG\<close> is defined: they are active when it is not, and otherwise evaluate
  neither the condition nor the text.\<close>

definition FF_DLOG ::
  "bool \<Rightarrow> LogSettings \<Rightarrow> platform \<Rightarrow> LogLevel \<Rightarrow> string \<Rightarrow> nat \<Rightarrow> string \<Rightarrow> sink_call list \<times> bool" where
  "FF_DLOG debug g pf level file line text = (if \<not> debug then FF_LOG g pf level file line text else ([], False))"

definition FF_DCHECK ::
  "bool \<Rightarrow> platform \<Rightarrow> bool \<Rightarrow> string \<Rightarrow> string \<Rightarrow> nat \<Rightarrow> string \<Rightarrow> sink_call list \<times> bool" where
  "FF_DCHECK debug pf condition condition_text file line text =
     (if \<not> debug then FF_CHECK pf condition condition_text file line text else ([], False))"

definition FF_NOTREACHED :: "bool \<Rightarrow> platform \<Rightarrow> string \<Rightarrow> nat \<Rightarrow> sink_call list \<times> bool" where
  "FF_NOTREACHED debug pf file line = FF_DCHECK debug pf False ''false'' file line []"

definition FF_NOTIMPLEMENTED :: "LogSettings \<Rightarrow> platform \<Rightarrow> string \<Rightarrow> nat \<Rightarrow> string \<Rightarrow> sink_call list \<times> bool" where
  "FF_NOTIMPLEMENTED g pf file line function_name = FF_LOG g pf LOG_ERROR file line (''Not implemented in: '' @ function_name)"

section \<open>Lemmas\<close>

text \<open>The short form used in the other theories: a failed check aborts.\<close>

lemma FF_CHECK_is_ff_check: "snd (FF_CHECK pf b ct file line text) \<longleftrightarrow> ff_check b = Inl CheckFailed"
  by (simp add: FF_CHECK_def ff_check_def LogMessage_destroy_def Let_def put_def new_LogMessage_def)

lemmas log_statement_defs = FF_LOG_def FF_LOG_P_def FF_CHECK_def LogMessage_destroy_def put_def print_log_def
  new_LogMessage_def darwin_os_log_def Let_def

lemma StripPath_no_slash: "CHR ''/'' \<notin> set (StripPath path)"
  by (auto simp: StripPath_def strrchr_slash_def dest: set_takeWhileD)

lemma StripPath_suffix: "\<exists>p. path = p @ StripPath path"
proof (cases "CHR ''/'' \<in> set path")
  case True
  have "rev (dropWhile (\<lambda>c. c \<noteq> CHR ''/'') (rev path)) @ rev (takeWhile (\<lambda>c. c \<noteq> CHR ''/'') (rev path)) = path"
    by (metis rev_append rev_rev_ident takeWhile_dropWhile_id)
  with True show ?thesis by (simp add: StripPath_def strrchr_slash_def) metis
qed (simp add: StripPath_def strrchr_slash_def)

lemma StripDots_spec:
  "\<exists>n. path = concat (replicate n ''../'') @ StripDots path \<and> take 3 (StripDots path) \<noteq> ''../''"
proof (induction path rule: StripDots.induct)
  case (1 path)
  show ?case
  proof (cases "take 3 path = ''../''")
    case True
    with 1 obtain n where n: "drop 3 path = concat (replicate n ''../'') @ StripDots (drop 3 path)"
      "take 3 (StripDots (drop 3 path)) \<noteq> ''../''" by blast
    have "path = ''../'' @ drop 3 path" using True append_take_drop_id[of 3 path] by metis
    also have "\<dots> = concat (replicate (Suc n) ''../'') @ StripDots (drop 3 path)"
      using n(1) by simp
    finally show ?thesis using True n(2) StripDots.simps[of path] by metis
  next
    case False
    then show ?thesis using StripDots.simps[of path] by (intro exI[of _ 0]) simp
  qed
qed

text \<open>The file shown in a log line is a suffix of \<open>__FILE__\<close>: above \<open>LOG_INFO\<close> without any leading
  \<open>../\<close>, otherwise without any directory.\<close>

theorem log_file_shown:
  "(\<exists>n. file = concat (replicate n ''../'') @ StripDots file \<and> take 3 (StripDots file) \<noteq> ''../'')
   \<and> (\<exists>p. file = p @ StripPath file) \<and> CHR ''/'' \<notin> set (StripPath file)"
  using StripDots_spec StripPath_suffix StripPath_no_slash by blast

text \<open>Fatal messages cannot be switched off: whatever settings were set and on every platform, a message of
  level \<open>LOG_FATAL\<close> and a failed check make exactly one call of the sink, with a line that contains their text,
  and abort; a lower level never aborts, writes nothing below the minimum and at most one line otherwise.\<close>

theorem fatal_always_logged:
  assumes "g = SetLogSettings g0 s"
  shows "(\<exists>c p. FF_LOG g pf LOG_FATAL file line text = ([c], True) \<and> c \<in> {Stderr p, OsLog OsFault p}
      \<and> p = log_prefix LOG_FATAL file line None @ text @ [CHR 0x0A])
    \<and> (\<exists>c p. FF_CHECK pf False ct file line text = ([c], True) \<and> c \<in> {Stderr p, OsLog OsFault p}
      \<and> p = log_prefix LOG_FATAL file line None @ ''Check failed:'' @ ct @ ''.'' @ text @ [CHR 0x0A])
    \<and> (level < LOG_FATAL \<longrightarrow> \<not> snd (FF_LOG g pf level file line text)
      \<and> length (fst (FF_LOG g pf level file line text)) \<le> of_bool (min_log_level s \<le> level))"
proof -
  have on: "ShouldCreateLogMessage g LOG_FATAL"
    using assms by (simp add: ShouldCreateLogMessage_def GetMinLogLevel_def SetLogSettings_def)
  have "level < LOG_FATAL \<Longrightarrow> ShouldCreateLogMessage g level \<longleftrightarrow> min_log_level s \<le> level"
    using assms by (auto simp: ShouldCreateLogMessage_def GetMinLogLevel_def SetLogSettings_def)
  with on show ?thesis
    by (cases pf) (auto simp: log_statement_defs log_prefix_def log_levels)
qed

theorem fatal_always_logged_witness:
  "snd (FF_LOG (SetLogSettings default_settings \<lparr>min_log_level = 9\<rparr>) Posix LOG_FATAL ''a.cpp'' 7 ''boom'')"
  using fatal_always_logged[OF refl, of default_settings "\<lparr>min_log_level = 9\<rparr>" Posix "''a.cpp''" 7 "''boom''" "''c''" 0]
  by auto

text \<open>The levels of the Darwin sink: a debug message and every verbose one is dropped although the settings let
  it through, and a warning is filed as a debug message; on the other platforms each is written.\<close>

theorem darwin_drops_debug:
  assumes "ShouldCreateLogMessage g level" "level < LOG_FATAL"
  shows "(fst (FF_LOG g Darwin level file line text) = [] \<longleftrightarrow> level = LOG_DEBUG \<or> level < LOG_INFO)
    \<and> (level = LOG_WARNING \<longrightarrow> (\<exists>t. fst (FF_LOG g Darwin level file line text) = [OsLog OsDebug t]))
    \<and> fst (FF_LOG g Posix level file line text) = [Stderr (log_prefix level file line None @ text @ [CHR 0x0A])]"
  using assms by (auto simp: log_statement_defs log_levels)

theorem darwin_drops_debug_witness:
  "fst (FF_LOG default_settings Darwin LOG_DEBUG ''a.cpp'' 7 ''x'') = []"
  using darwin_drops_debug[of default_settings LOG_DEBUG "''a.cpp''" 7 "''x''"]
  by (simp add: ShouldCreateLogMessage_def default_settings_def GetMinLogLevel_def log_levels)

text \<open>\<open>FF_LOG_P\<close> writes a formatted text of up to 1022 characters in full, as \<open>FF_LOG\<close> does, and only the first
  1022 characters of a longer one.\<close>

theorem print_log_truncates:
  assumes "CHR 0x00 \<notin> set formatted"
  shows "FF_LOG_P g pf level file line formatted = FF_LOG g pf level file line (take 1022 formatted)"
proof -
  have "takeWhile (\<lambda>c. c \<noteq> CHR 0x00) (take 1022 formatted) = take 1022 formatted"
    unfolding takeWhile_eq_all_conv using assms in_set_takeD[of _ 1022 formatted] by blast
  then show ?thesis unfolding FF_LOG_P_def FF_LOG_def print_log_def by (rule arg_cong)
qed

text \<open>The debug forms are the wrong way round: with \<open>DEBUG\<close> a failed debug check and reaching \<open>FF_NOTREACHED\<close> do nothing,
  without it they abort; \<open>LOG_DFATAL\<close> is chosen the same way and does not abort in a debug build. The Darwin log handle is
  created once.\<close>

lemma debug_forms:
  "FF_DCHECK True pf b ct file line t = ([], False)" "FF_NOTREACHED True pf file line = ([], False)"
  "snd (FF_NOTREACHED False pf file line)" "snd (LogMessage_destroy pf (new_LogMessage (LOG_DFATAL d) file line None)) \<longleftrightarrow> \<not> d"
  "snd (FF_NOTIMPLEMENTED g pf file line fn) = False"
  "ffbase_darwin_log h' (snd (ffbase_darwin_log h log)) = ffbase_darwin_log h log \<or> log \<noteq> None"
  by (auto simp: FF_DCHECK_def FF_NOTREACHED_def FF_NOTIMPLEMENTED_def log_statement_defs log_levels LOG_DFATAL_def
      ffbase_darwin_log_def split: option.split)

end
