(* ===== verification/Thread_Local.thy ===== *)
theory Thread_Local
  imports Ownership
begin

text \<open>
  \<open>source/base/thread/thread_local.h\<close> and \<open>.cpp\<close>: \<open>ThreadLocalPointer\<close>, a pthread key, and
  \<open>ThreadLocalUniquePtr\<close>, which owns one object per thread through it. The state of a key is the
  pointer each thread stored (\<open>None\<close> is null) and the objects deleted so far. The return values of
  the pthread functions are arguments. When a thread ends, pthread clears its slot and calls the
  destructor of the key, \<open>destroy\<close>, on a pointer that was not null; deleting a key calls no destructor.
\<close>

record 'p tl_key =
  slots :: "nat \<rightharpoonup> 'p"
  deleted :: "'p list"

section \<open>ThreadLocalPointer\<close>

definition ThreadLocalPointer_create :: "int \<Rightarrow> 'p tl_key res" where
  "ThreadLocalPointer_create rc =
     res_bind (ff_check (rc = 0)) (\<lambda>_. Inr \<lparr>slots = Map.empty, deleted = []\<rparr>)"

definition ThreadLocalPointer_destroy :: "'p tl_key \<Rightarrow> int \<Rightarrow> 'p tl_key res" where
  "ThreadLocalPointer_destroy k rc =
     res_bind (ff_check (rc = 0)) (\<lambda>_. Inr (k\<lparr>slots := Map.empty\<rparr>))"

definition tl_get :: "'p tl_key \<Rightarrow> nat \<Rightarrow> 'p option" where
  "tl_get k th = slots k th"

definition tl_swap :: "'p tl_key \<Rightarrow> nat \<Rightarrow> 'p option \<Rightarrow> int \<Rightarrow> ('p option \<times> 'p tl_key) res" where
  "tl_swap k th ptr rc =
     (let old_ptr = tl_get k th
      in res_bind (ff_check (rc = 0)) (\<lambda>_. Inr (old_ptr, k\<lparr>slots := (slots k)(th := ptr)\<rparr>)))"

section \<open>ThreadLocalUniquePtr\<close>

text \<open>\<open>delete\<close> of a null pointer does nothing.\<close>

definition tl_destroy :: "'p tl_key \<Rightarrow> 'p option \<Rightarrow> 'p tl_key" where
  "tl_destroy k ptr = (case ptr of None \<Rightarrow> k | Some p \<Rightarrow> k\<lparr>deleted := deleted k @ [p]\<rparr>)"

definition tl_reset :: "'p tl_key \<Rightarrow> nat \<Rightarrow> 'p option \<Rightarrow> int \<Rightarrow> 'p tl_key res" where
  "tl_reset k th ptr rc =
     res_bind (tl_swap k th ptr rc) (\<lambda>(old, k). Inr (tl_destroy k old))"

definition thread_exit :: "'p tl_key \<Rightarrow> nat \<Rightarrow> 'p tl_key" where
  "thread_exit k th = tl_destroy (k\<lparr>slots := (slots k)(th := None)\<rparr>) (slots k th)"

section \<open>Conservation\<close>

text \<open>The objects the slots hold; only finitely many slots are in use.\<close>

definition slot_objects :: "'p tl_key \<Rightarrow> 'p multiset" where
  "slot_objects k = image_mset (\<lambda>th. the (slots k th)) (mset_set (dom (slots k)))"

abbreviation opt_mset :: "'p option \<Rightarrow> 'p multiset" where
  "opt_mset x \<equiv> (case x of None \<Rightarrow> {#} | Some p \<Rightarrow> {#p#})"

lemma finite_dom_upd: "finite (dom m) \<Longrightarrow> finite (dom (m(a := x)))"
  by (simp add: dom_fun_upd)

lemma slot_objects_split:
  assumes "finite (dom (slots k))"
  shows "slot_objects k = slot_objects (k\<lparr>slots := (slots k)(th := None)\<rparr>) + opt_mset (slots k th)"
proof (cases "slots k th")
  case None
  then have "(slots k)(th := None) = slots k" by (simp add: fun_upd_idem)
  with None show ?thesis by simp
next
  case (Some p)
  let ?A = "dom (slots k) - {th}"
  have fin: "finite ?A" using assms by simp
  have "slot_objects k = image_mset (\<lambda>th. the (slots k th)) (add_mset th (mset_set ?A))"
    unfolding slot_objects_def using assms Some by (subst mset_set.remove[of _ th]) auto
  also have "\<dots> = add_mset p (image_mset (\<lambda>t. the (slots k t)) (mset_set ?A))" using Some by simp
  also have "image_mset (\<lambda>t. the (slots k t)) (mset_set ?A)
      = slot_objects (k\<lparr>slots := (slots k)(th := None)\<rparr>)"
    using fin by (auto simp: slot_objects_def intro!: image_mset_cong)
  finally show ?thesis using Some by simp
qed

lemma slot_objects_upd:
  assumes "finite (dom (slots k))"
  shows "slot_objects (k\<lparr>slots := (slots k)(th := ptr)\<rparr>) + opt_mset (slots k th)
    = slot_objects k + opt_mset ptr"
proof -
  have fin: "finite (dom (slots (k\<lparr>slots := (slots k)(th := ptr)\<rparr>)))"
    using assms by (cases ptr) auto
  show ?thesis
    using slot_objects_split[OF assms, of th] slot_objects_split[OF fin, of th] by (simp add: ac_simps)
qed

lemma tl_destroy_simps [simp]:
  "slots (tl_destroy k p) = slots k" "mset (deleted (tl_destroy k p)) = mset (deleted k) + opt_mset p"
  "slot_objects (tl_destroy k p) = slot_objects k"
  by (auto simp: tl_destroy_def slot_objects_def split: option.splits)

text \<open>Programs over one key: objects handed to \<open>reset\<close>, threads that end. No object is ever handed
  back.\<close>

inductive tl_run :: "'p multiset \<Rightarrow> 'p multiset \<Rightarrow> 'p tl_key \<Rightarrow> bool" where
  create: "ThreadLocalPointer_create rc = Inr k \<Longrightarrow> tl_run {#} {#} k"
| reset: "tl_run a r k \<Longrightarrow> tl_reset k th ptr rc = Inr k' \<Longrightarrow> tl_run (a + opt_mset ptr) r k'"
| exit: "tl_run a r k \<Longrightarrow> tl_run a r (thread_exit k th)"

lemma tl_run_conserves:
  "tl_run a r k \<Longrightarrow> finite (dom (slots k)) \<and> r = {#} \<and> a = slot_objects k + mset (deleted k) + r"
proof (induction rule: tl_run.induct)
  case (create rc k)
  then show ?case by (auto simp: ThreadLocalPointer_create_def slot_objects_def res_simps)
next
  case (reset a r k th ptr rc k')
  let ?k = "k\<lparr>slots := (slots k)(th := ptr)\<rparr>"
  have k': "k' = tl_destroy ?k (slots k th)"
    using reset.hyps(2) by (auto simp: tl_reset_def tl_swap_def tl_get_def Let_def res_simps)
  have fin: "finite (dom (slots k'))" using reset.IH k' by (cases ptr) auto
  have "slot_objects ?k + opt_mset (slots k th) = slot_objects k + opt_mset ptr"
    using reset.IH by (intro slot_objects_upd) simp
  then have "a + opt_mset ptr = slot_objects k' + mset (deleted k')"
    using reset.IH k' by (simp add: ac_simps)
  with fin reset.IH show ?case by simp
next
  case (exit a r k th)
  then show ?case
    using slot_objects_split[of k th] finite_dom_upd[of "slots k" th None]
    by (simp add: thread_exit_def ac_simps del: fun_upd_apply)
qed

interpretation tl: resource_ledger tl_run deleted slot_objects
  by standard (use tl_run_conserves in blast)

section \<open>Properties\<close>

text \<open>One object per thread, deleted once: when distinct objects are handed to \<open>reset\<close>, no object is
  deleted twice, none is deleted while a thread still holds it, and when every thread that used the key
  has ended each of them has been deleted.\<close>

theorem thread_local_deletes_once:
  assumes "tl_run acquired r k" "\<forall>p. count acquired p \<le> 1"
  shows "distinct (deleted k) \<and> (\<forall>p\<in>set (deleted k). \<forall>th. tl_get k th \<noteq> Some p)
    \<and> (\<forall>th th' p. tl_get k th = Some p \<and> tl_get k th' = Some p \<longrightarrow> th = th')
    \<and> (slots k = Map.empty \<longrightarrow> mset (deleted k) = acquired)"
proof -
  note fin = tl_run_conserves[OF assms(1)]
  have held: "p \<in># slot_objects k" if "tl_get k th = Some p" for th p
    using slot_objects_split[of k th] fin that by (simp add: tl_get_def)
  have "th = th'" if "tl_get k th = Some p" "tl_get k th' = Some p" for th th' p
  proof (rule ccontr)
    assume ne: "th \<noteq> th'"
    let ?k = "k\<lparr>slots := (slots k)(th := None)\<rparr>"
    have "slot_objects ?k = slot_objects (?k\<lparr>slots := (slots ?k)(th' := None)\<rparr>) + {#p#}"
      using slot_objects_split[of ?k th'] fin that(2) ne by (simp add: tl_get_def)
    moreover have "slot_objects k = slot_objects ?k + {#p#}"
      using slot_objects_split[of k th] fin that(1) by (simp add: tl_get_def)
    ultimately have "2 \<le> count (slot_objects k) p" by simp
    then show False using tl.owned_once[OF assms, of p] by simp
  qed
  moreover have "tl_get k th \<noteq> Some p" if "p \<in> set (deleted k)" for th p
    using held tl.freed_not_held[OF assms that] by blast
  moreover have "mset (deleted k) = acquired" if "slots k = Map.empty"
    using tl.no_leak[OF assms(1)] fin that by (simp add: slot_objects_def)
  ultimately show ?thesis using tl.freed_distinct[OF assms] by blast
qed

text \<open>Thread 1 stores an object, replaces it, and ends.\<close>

theorem thread_local_deletes_once_witness:
  "\<exists>k. res_bind (ThreadLocalPointer_create 0) (\<lambda>k. res_bind (tl_reset k 1 (Some ''a'') 0)
      (\<lambda>k. tl_reset k 1 (Some ''b'') 0)) = Inr k
    \<and> deleted (thread_exit k 1) = [''a'', ''b''] \<and> distinct (deleted (thread_exit k 1))"
proof -
  let ?k0 = "\<lparr>slots = Map.empty, deleted = []\<rparr> :: string tl_key"
  let ?k1 = "\<lparr>slots = [1 \<mapsto> ''a''], deleted = []\<rparr>" and ?k2 = "\<lparr>slots = [1 \<mapsto> ''b''], deleted = [''a'']\<rparr>"
  have s: "ThreadLocalPointer_create 0 = Inr ?k0" "tl_reset ?k0 1 (Some ''a'') 0 = Inr ?k1"
    "tl_reset ?k1 1 (Some ''b'') 0 = Inr ?k2"
    by (simp_all add: ThreadLocalPointer_create_def tl_reset_def tl_swap_def tl_get_def tl_destroy_def)
  have "tl_run ({#} + opt_mset (Some ''a'') + opt_mset (Some ''b'')) {#} (thread_exit ?k2 1)"
    by (rule tl_run.exit[OF tl_run.reset[OF tl_run.reset[OF tl_run.create[OF s(1)] s(2)] s(3)]])
  from thread_local_deletes_once[OF this] have "distinct (deleted (thread_exit ?k2 1))" by simp
  then show ?thesis using s by (simp add: thread_exit_def tl_destroy_def)
qed

text \<open>Storing the pointer a thread already holds deletes the object and keeps the pointer: the next
  \<open>get\<close> returns a deleted object.\<close>

theorem reset_same_dangles:
  assumes "tl_get k th = Some p"
  shows "\<exists>k'. tl_reset k th (Some p) 0 = Inr k' \<and> tl_get k' th = Some p \<and> p \<in> set (deleted k')"
  using assms by (simp add: tl_reset_def tl_swap_def tl_get_def tl_destroy_def)

theorem reset_same_dangles_witness:
  "\<exists>k'. tl_reset \<lparr>slots = [1 \<mapsto> ''a''], deleted = []\<rparr> 1 (Some ''a'') 0 = Inr k' \<and> ''a'' \<in> set (deleted k')"
  using reset_same_dangles[of "\<lparr>slots = [1 \<mapsto> ''a''], deleted = []\<rparr>" 1 "''a''"] by (auto simp: tl_get_def)

end
