(* ===== verification/Cf_Reference.thy ===== *)
theory Cf_Reference
  imports Unique_Object
begin

text \<open>
  \<open>source/base/platform/darwin/cf_reference_utils.h\<close>: \<open>CFRef<T>\<close>, the owner of one reference to a Core
  Foundation object, used by the Darwin message loop. The objects of a program are those of
  \<open>Unique_Object\<close> with the null pointer as invalid value; \<open>freed\<close> holds the calls of \<open>CFRelease\<close>. Unlike
  \<open>UniqueObject\<close>, \<open>Reset\<close> with the instance already held returns at once.
\<close>

definition CFRef_of :: "'a option owners \<Rightarrow> 'a option \<Rightarrow> 'a option owners" where
  "CFRef_of s inst = s\<lparr>objs := objs s @ [Some inst]\<rparr>"

definition CFRef_default :: "'a option owners \<Rightarrow> 'a option owners" where
  "CFRef_default s = s\<lparr>objs := objs s @ [Some None]\<rparr>"

definition CFRef_destroy :: "'a option owners \<Rightarrow> nat \<Rightarrow> 'a option owners res" where
  "CFRef_destroy s i =
     res_bind (generic_data s i) (\<lambda>held.
       let s = (if held \<noteq> None then s\<lparr>freed := freed s @ [held]\<rparr> else s)
       in Inr (s\<lparr>objs := (objs s)[i := None]\<rparr>))"

definition CFRef_Reset :: "'a option owners \<Rightarrow> nat \<Rightarrow> 'a option \<Rightarrow> 'a option owners res" where
  "CFRef_Reset s i inst =
     res_bind (generic_data s i) (\<lambda>held.
       if held = inst then Inr s
       else let s = (if held \<noteq> None then s\<lparr>freed := freed s @ [held]\<rparr> else s)
            in Inr (set_data s i inst))"

definition CFRef_bool :: "'a option owners \<Rightarrow> nat \<Rightarrow> bool res" where
  "CFRef_bool s i = res_bind (generic_data s i) (\<lambda>held. Inr (held \<noteq> None))"

section \<open>Conservation\<close>

text \<open>References handed in, and those that \<open>Reset\<close> did not take because the instance was already held.\<close>

inductive cf_run :: "'a option multiset \<Rightarrow> 'a option multiset \<Rightarrow> 'a option owners \<Rightarrow> bool" where
  start: "cf_run {#} {#} no_owners"
| default: "cf_run a d s \<Longrightarrow> cf_run a d (CFRef_default s)"
| of_instance: "cf_run a d s \<Longrightarrow> cf_run (a + slot_owns None (Some x)) d (CFRef_of s x)"
| destroy: "cf_run a d s \<Longrightarrow> CFRef_destroy s i = Inr s' \<Longrightarrow> cf_run a d s'"
| reset_same: "cf_run a d s \<Longrightarrow> generic_data s i = Inr x \<Longrightarrow> CFRef_Reset s i x = Inr s' \<Longrightarrow>
    cf_run (a + slot_owns None (Some x)) (d + slot_owns None (Some x)) s'"
| reset_other: "cf_run a d s \<Longrightarrow> generic_data s i = Inr y \<Longrightarrow> y \<noteq> x \<Longrightarrow> CFRef_Reset s i x = Inr s' \<Longrightarrow>
    cf_run (a + slot_owns None (Some x)) d s'"

lemma release_slot:
  "mset (freed (if v \<noteq> None then s\<lparr>freed := freed s @ [v]\<rparr> else s)) = mset (freed s) + slot_owns None (Some v)"
  "owned None (if v \<noteq> None then s\<lparr>freed := freed s @ [v]\<rparr> else s) = owned None s"
  by (auto simp: slot_owns_def)

lemma cf_run_conserves: "cf_run a d s \<Longrightarrow> a = owned None s + mset (freed s) + d"
proof (induction rule: cf_run.induct)
  case start
  show ?case by (simp add: owned_def no_owners_def)
next
  case (default a d s)
  then show ?case by (simp add: CFRef_default_def owned_def)
next
  case (of_instance a d s x)
  then show ?case by (simp add: CFRef_of_def owned_def ac_simps)
next
  case (destroy a d s i s')
  then obtain v where v: "generic_data s i = Inr v" by (auto simp: CFRef_destroy_def)
  let ?s = "if v \<noteq> None then s\<lparr>freed := freed s @ [v]\<rparr> else s"
  have s': "s' = ?s\<lparr>objs := (objs ?s)[i := None]\<rparr>"
    using destroy.hyps(2) v by (simp add: CFRef_destroy_def Let_def)
  have "objs ?s = objs s" by simp
  then have "owned None s' + slot_owns None (Some v) = owned None ?s"
    using owned_update[of i ?s None None] v by (simp add: s' generic_data_Inr)
  then show ?case using destroy.IH release_slot[of v s] s' by (simp add: ac_simps)
next
  case (reset_same a d s i x s')
  then show ?case by (simp add: CFRef_Reset_def ac_simps)
next
  case (reset_other a d s i y x s')
  let ?s = "if y \<noteq> None then s\<lparr>freed := freed s @ [y]\<rparr> else s"
  have s': "s' = set_data ?s i x" using reset_other.hyps by (simp add: CFRef_Reset_def Let_def)
  have "generic_data ?s i = Inr y" using reset_other.hyps(2) by simp
  from owned_set_data[OF this, of None x] show ?case
    using reset_other.IH release_slot[of y s] s' by (simp add: ac_simps)
qed

interpretation cf: resource_ledger cf_run freed "owned None"
  by standard (rule cf_run_conserves)

section \<open>Properties\<close>

text \<open>Reference counts balance: once every \<open>CFRef\<close> is gone, \<open>CFRelease\<close> was called exactly once for
  every reference handed in, except those handed to \<open>Reset\<close> of an object that held the same instance:
  these are never released.\<close>

theorem cf_ref_balanced:
  assumes "cf_run acquired dropped s" "\<forall>x\<in>set (objs s). x = None"
  shows "mset (freed s) + dropped = acquired"
  by (rule cf.no_leak[OF assms(1) owned_all_gone[OF assms(2)]])

text \<open>A reference reset to another one, then destroyed.\<close>

theorem cf_ref_balanced_witness:
  "\<exists>s. res_bind (CFRef_Reset (CFRef_of no_owners (Some ''a'')) 0 (Some ''b'')) (\<lambda>s. CFRef_destroy s 0) = Inr s
    \<and> mset (freed s) = {#Some ''a'', Some ''b''#}"
proof -
  let ?s1 = "\<lparr>objs = [Some (Some ''b'')], freed = [Some ''a'']\<rparr>"
  let ?s2 = "\<lparr>objs = [None], freed = [Some ''a'', Some ''b'']\<rparr>"
  have r: "CFRef_Reset (CFRef_of no_owners (Some ''a'')) 0 (Some ''b'') = Inr ?s1"
    by (simp add: CFRef_Reset_def CFRef_of_def no_owners_def generic_data_def set_data_def)
  have d: "CFRef_destroy ?s1 0 = Inr ?s2" by (simp add: CFRef_destroy_def generic_data_def)
  have "generic_data (CFRef_of no_owners (Some ''a'')) 0 = Inr (Some ''a'')"
    by (simp add: CFRef_of_def no_owners_def generic_data_def)
  from cf_run.destroy[OF cf_run.reset_other[OF cf_run.of_instance[OF cf_run.start] this _ r] d]
  have "cf_run ({#} + slot_owns None (Some (Some ''a'')) + slot_owns None (Some (Some ''b''))) {#} ?s2"
    by simp
  from cf_ref_balanced[OF this] show ?thesis using r d by simp
qed

end
