(* ===== verification/Task_Runner_Laws.thy ===== *)
theory Task_Runner_Laws
  imports Message_Loop_Laws
begin

text \<open>
  What the users of a task runner rely on, derived from the laws of the registry, of the loop and of the
  time types together: with a clock that does not go backwards, closures posted by \<open>TaskRunner::PostTask\<close>
  wait in a first-in first-out queue, and one flush runs all of them in posting order.
\<close>

section \<open>A loop used as a queue\<close>

text \<open>\<open>std::chrono::steady_clock\<close> never goes backwards, and its readings are counted from its epoch.\<close>

definition clock_sane :: "('c, 'u) process \<Rightarrow> bool" where
  "clock_sane p \<longleftrightarrow> mono (clock p) \<and> (\<forall>i. 0 \<le> clock p i \<and> clock p i \<le> int64_max)"

text \<open>\<open>fifo m n l cs p\<close>: loop \<open>l\<close> is alive and without observers, its queue holds the closures \<open>cs\<close> in
  this order, all of them due, and \<open>n\<close> tasks have been registered in the life of the registry.\<close>

definition fifo :: "nat \<Rightarrow> nat \<Rightarrow> nat \<Rightarrow> 'c list \<Rightarrow> ('c, 'u) process \<Rightarrow> bool" where
  "fifo m n l cs p \<longleftrightarrow>
     proc_inv m p \<and> tq_inv n m (queues p) \<and> clock_sane p \<and> (\<forall>s. settime p s = 0)
     \<and> (\<exists>lp e. loops p l = Some lp \<and> \<not> terminated lp
          \<and> queue_entries (queues p) (tqid_key (queue_id lp)) = Some e \<and> task_observers e = []
          \<and> map dt_task (delayed_tasks e) = map Some cs
          \<and> (\<forall>t\<in>set (delayed_tasks e). clock_ok (dt_target_time t) \<and> dt_target_time t \<le> fst (Now p)))"

lemma Now_later: "clock_sane p \<Longrightarrow> fst (Now p) \<le> fst (Now (snd (Now p)))"
  by (simp add: Now_def TimePoint_Now_def clock_sane_def less_eq_TimePoint_def monoD)

lemma Now_clock_ok: "clock_sane p \<Longrightarrow> clock_ok (fst (Now p))"
  by (simp add: Now_def TimePoint_Now_def clock_sane_def clock_ok_def)

lemma dtq_push_last:
  "(\<And>u. u \<in> set q \<Longrightarrow> \<not> dt_gt u t) \<Longrightarrow> dtq_push t q = q @ [t]"
  by (induction t q rule: dtq_push.induct) auto

lemma dtq_push_newest:
  assumes "entry_inv n e" "n < 2 ^ 32" "order_counter tq = word_of_nat n"
    and "\<forall>u\<in>set (delayed_tasks e). dt_target_time u \<le> t"
  shows "dtq_push (task_for tq c t) (delayed_tasks e) = delayed_tasks e @ [task_for tq c t]"
proof (rule dtq_push_last)
  fix u assume u: "u \<in> set (delayed_tasks e)"
  then obtain i where "i < n" "dt_order u = task_order i" using assms(1) by (auto simp: entry_inv_def)
  moreover have "dt_order (task_for tq c t) = task_order n"
    using assms(3) by (simp add: task_order_def)
  ultimately have "dt_order u < dt_order (task_for tq c t)" using task_order_mono assms(2) by simp
  then show "\<not> dt_gt u (task_for tq c t)" using assms(4) u by (auto simp: dt_gt_def)
qed

text \<open>Registering a task that is due not before any other of its queue puts it last.\<close>

lemma register_last:
  assumes "tq_inv n m tq" "n < 2 ^ 32" "queue_entries tq (tqid_key qid) = Some e" "wakeable e = Some l"
    and "\<forall>u\<in>set (delayed_tasks e). clock_ok (dt_target_time u) \<and> dt_target_time u \<le> t" "clock_ok t" "clock_ok now"
  shows "RegisterTask tq qid c t now =
    Inr ((set_entry tq qid (e\<lparr>delayed_tasks := delayed_tasks e @ [task_for tq c t]\<rparr>))
           \<lparr>order_counter := order_counter tq + 1\<rparr>,
         [(l, dt_target_time (hd (delayed_tasks e @ [task_for tq c t])))])"
proof -
  let ?q = "delayed_tasks e @ [task_for tq c t]"
  have push: "dtq_push (task_for tq c t) (delayed_tasks e) = ?q"
    using tq_inv_entry[OF assms(1,3)] assms(1,2,5) by (intro dtq_push_newest) (auto simp: tq_inv_def)
  have "clock_ok (dt_target_time (hd ?q))" using assms(5,6) by (cases "delayed_tasks e") auto
  then show ?thesis
    using RegisterTask_eq[OF tq_inv_lock[OF assms(1,3)] assms(3), of c t now] push assms(4)
      clock_ok_diff[OF _ assms(7)] by (simp add: Let_def wakes_for_def)
qed

lemma post_fifo:
  assumes "fifo m n l cs p" "n < 2 ^ 32"
  shows "\<exists>p'. TaskRunner_PostTask p l (Some c) = Inr p' \<and> fifo m (Suc n) l (cs @ [c]) p'
    \<and> user p' = user p \<and> tls_message_loop p' = tls_message_loop p \<and> clock p' = clock p
    \<and> clock_reads p' = clock_reads p + 2
    \<and> map_option running (loops p' l) = map_option running (loops p l)"
proof -
  obtain lp e where l: "loops p l = Some lp" "\<not> terminated lp"
    and e: "queue_entries (queues p) (tqid_key (queue_id lp)) = Some e" "task_observers e = []"
      "map dt_task (delayed_tasks e) = map Some cs"
      "\<forall>t\<in>set (delayed_tasks e). clock_ok (dt_target_time t) \<and> dt_target_time t \<le> fst (Now p)"
    and inv: "proc_inv m p" "tq_inv n m (queues p)" "clock_sane p" "\<forall>s. settime p s = 0"
    using assms(1) by (auto simp: fifo_def)
  let ?t = "fst (Now p)" and ?p = "snd (Now p)"
  let ?now = "fst (Now ?p)" and ?pp = "snd (Now ?p)"
  have sane: "clock_sane ?p" "clock_sane ?pp" using inv(3) by (simp_all add: clock_sane_def)
  have w: "wakeable e = Some l" using proc_inv_loop[OF inv(1) l(1)] e(1) by (metis option.inject)
  let ?x = "task_for (queues p) (Some c) ?t"
  let ?q = "delayed_tasks e @ [?x]"
  let ?tq = "(set_entry (queues p) (queue_id lp) (e\<lparr>delayed_tasks := ?q\<rparr>))
      \<lparr>order_counter := order_counter (queues p) + 1\<rparr>"
  have r: "RegisterTask (queues p) (queue_id lp) (Some c) ?t ?now = Inr (?tq, [(l, dt_target_time (hd ?q))])"
    by (rule register_last[OF inv(2) assms(2) e(1) w e(4) Now_clock_ok[OF inv(3)] Now_clock_ok[OF sane(1)]])
  let ?p' = "set_loop (?pp\<lparr>queues := ?tq\<rparr>) l (lp\<lparr>timer_fd := Some (rearm_spec (dt_target_time (hd ?q)))\<rparr>)"
  have post: "PostTask ?p l (Some c) ?t = Inr ?p'"
    using l r inv(4) WakeUp_Inr[of "?pp\<lparr>queues := ?tq\<rparr>" l lp "dt_target_time (hd ?q)" ?p']
    by (simp add: PostTask_def case_Now)
  have later: "dt_target_time u \<le> fst (Now ?p')" if "u \<in> set ?q" for u
  proof -
    have "fst (Now ?p') = fst (Now ?pp)" by (simp add: Now_def)
    then have "?t \<le> fst (Now ?p')"
      using order_trans[OF Now_later[OF inv(3)] Now_later[OF sane(1)]] by simp
    then show ?thesis using that e(4) by auto
  qed
  have "proc_inv m ?p'"
    by (rule proc_inv_post[OF _ post]) (use inv(1) in \<open>rule proc_inv_cong[rotated 3]; simp\<close>)
  moreover have "tq_inv (Suc n) m (queues ?p')" using tq_inv_register[OF inv(2) r] by simp
  moreover have "clock_ok (dt_target_time u)" if "u \<in> set ?q" for u
    using that e(4) Now_clock_ok[OF inv(3)] by auto
  moreover have "clock_sane ?p'" using sane(2) by (simp add: clock_sane_def)
  ultimately have "fifo m (Suc n) l (cs @ [c]) ?p'"
    using l e inv(4) later unfolding fifo_def by simp
  then show ?thesis
    using post l(1) by (intro exI[of _ ?p']) (simp add: TaskRunner_PostTask_def case_Now)
qed

fun post_all :: "('c, 'u) process \<Rightarrow> nat \<Rightarrow> 'c list \<Rightarrow> ('c, 'u) process res" where
  "post_all p l [] = Inr p"
| "post_all p l (c # cs) = res_bind (TaskRunner_PostTask p l (Some c)) (\<lambda>p. post_all p l cs)"

lemma post_all_fifo:
  assumes "fifo m n l bs p" "n + length cs \<le> 2 ^ 32"
  shows "\<exists>p'. post_all p l cs = Inr p' \<and> fifo m (n + length cs) l (bs @ cs) p'
    \<and> user p' = user p \<and> tls_message_loop p' = tls_message_loop p \<and> clock p' = clock p
    \<and> map_option running (loops p' l) = map_option running (loops p l)"
  using assms
proof (induction cs arbitrary: n p bs)
  case (Cons c cs)
  obtain p1 where p1: "TaskRunner_PostTask p l (Some c) = Inr p1" "fifo m (Suc n) l (bs @ [c]) p1"
    "user p1 = user p" "tls_message_loop p1 = tls_message_loop p" "clock p1 = clock p" "map_option running (loops p1 l) = map_option running (loops p l)"
    using post_fifo[OF Cons.prems(1), of c] Cons.prems(2) by auto
  from Cons.IH[OF p1(2)] Cons.prems(2) p1 show ?case by auto
qed auto

section \<open>Flushing the queue\<close>

text \<open>A closure that only changes the client's state, by \<open>f\<close>.\<close>

definition plain :: "('c, 'u) caller \<Rightarrow> ('u \<Rightarrow> 'c \<Rightarrow> 'u) \<Rightarrow> 'c \<Rightarrow> bool" where
  "plain call f c \<longleftrightarrow> (\<forall>p. call c p = Inr (p\<lparr>user := f (user p) c\<rparr>))"

lemma run_invocations_plain:
  assumes "\<forall>c\<in>set cs. plain call f c" "GetObserversToNotify (queues p) qid = Inr []"
  shows "run_invocations call qid (map Some cs @ rest) p
    = run_invocations call qid rest (p\<lparr>user := foldl f (user p) cs\<rparr>)"
  using assms by (induction cs arbitrary: p) (auto simp: invoke_def plain_def)

text \<open>One flush takes everything out of the queue before anything runs.\<close>

lemma flush_fifo:
  assumes "fifo m n l cs p"
  shows "\<exists>p' qid. RunExpiredTasksNow call p l = run_invocations call qid (map Some cs) p'
    \<and> fifo m n l [] p' \<and> user p' = user p \<and> GetObserversToNotify (queues p') qid = Inr []
    \<and> tls_message_loop p' = tls_message_loop p \<and> clock p' = clock p \<and> clock_reads p' = clock_reads p + 1
    \<and> map_option running (loops p' l) = map_option running (loops p l)"
proof -
  obtain lp e where l: "loops p l = Some lp" "\<not> terminated lp"
    and e: "queue_entries (queues p) (tqid_key (queue_id lp)) = Some e" "task_observers e = []"
      "map dt_task (delayed_tasks e) = map Some cs"
      "\<forall>t\<in>set (delayed_tasks e). clock_ok (dt_target_time t) \<and> dt_target_time t \<le> fst (Now p)"
    and inv: "proc_inv m p" "tq_inv n m (queues p)" "clock_sane p" "\<forall>s. settime p s = 0"
    using assms by (auto simp: fifo_def)
  have w: "wakeable e = Some l" using proc_inv_loop[OF inv(1) l(1)] e(1) by (metis option.inject)
  have lock: "tqid_key (queue_id lp) \<in> queue_locks (queues p)" by (rule tq_inv_lock[OF inv(2) e(1)])
  have all: "takeWhile (\<lambda>t. dt_target_time t \<le> fst (Now p)) (delayed_tasks e) = delayed_tasks e"
    "dropWhile (\<lambda>t. dt_target_time t \<le> fst (Now p)) (delayed_tasks e) = []"
    using e(4) by simp_all
  let ?tq = "set_entry (queues p) (queue_id lp) (e\<lparr>delayed_tasks := []\<rparr>)"
  let ?ts = "rearm_times (fst (Now p)) (delayed_tasks e)"
  have G: "GetTasksToRunNow (queues p) (queue_id lp) FlushAll (fst (Now p)) []
      = Inr (?tq, map Some cs, map (Pair l) ?ts)"
    using GetTasksToRunNow_all[OF lock e(1), of "fst (Now p)" "[]"] all e(3) w by (simp add: wakes_for_def)
  obtain p' where p': "wake_all ((snd (Now p))\<lparr>queues := ?tq\<rparr>) (map (Pair l) ?ts) = Inr p'"
    using wake_all_ok[of "(snd (Now p))\<lparr>queues := ?tq\<rparr>" l lp] l(1) inv(4) by auto
  have g: "grab_tasks p (queue_id lp) FlushAll = Inr (map Some cs, p')"
    using p' by (simp add: grab_tasks_def case_Now G)
  note eq = wake_all_loop[OF _ p', of lp]
  have lp': "\<exists>lp'. loops p' l = Some lp' \<and> queue_id lp' = queue_id lp \<and> terminated lp' = terminated lp
      \<and> running lp' = running lp" and rest: "queues p' = ?tq" "user p' = user p" "clock p' = clock p"
    "settime p' = settime p" "tls_message_loop p' = tls_message_loop p" "clock_reads p' = clock_reads p + 1"
    using eq l(1) by (auto split: if_splits)
  have "tq_inv n m ?tq"
    using tq_inv_entry[OF inv(2) e(1)] by (intro tq_inv_set_entry[OF inv(2) lock]) (simp add: entry_inv_def)
  then have "fifo m n l [] p'"
    using grab_tasks_all(3)[OF inv(1) l(1) g e(1)] inv(3,4) lp' rest l(2) e(2)
    by (auto simp: fifo_def clock_sane_def)
  moreover have "GetObserversToNotify (queues p') (queue_id lp) = Inr []"
    using rest(1) lock e(2) by (simp add: GetObserversToNotify_def)
  ultimately show ?thesis
    using g l(1) lp' rest(2,3,5,6)
    by (intro exI[of _ p'] exI[of _ "queue_id lp"]) (auto simp: RunExpiredTasksNow_def FlushTasks_def)
qed

section \<open>Reachable processes\<close>

text \<open>The registry inside a reachable process is a reachable registry.\<close>

lemma ml_step_tq_reach:
  assumes "ml_step m p m' p'" "tq_reach n m (queues p)"
  shows "\<exists>n'. tq_reach n' m' (queues p')"
  using assms
proof (induction rule: ml_step.induct)
  case (create m p a b c l p')
  then obtain tq where "SetWakeable (fst (CreateTaskQueue (queues p))) (snd (CreateTaskQueue (queues p)))
      (Some (num_loops p)) = Inr tq" "queues p' = tq"
    by (auto simp: Create_def Let_def res_simps split: prod.splits)
  with create show ?case using tq_reach.set_wakeable[OF tq_reach.create] by metis
next
  case (post p l c t p' m)
  show ?case
  proof (cases "queues p' = queues p")
    case False
    then obtain tq wk and lp :: MessageLoopImpl where
      "RegisterTask (queues p) (queue_id lp) c t (fst (Now p)) = Inr (tq, wk)"
      "wake_all ((snd (Now p))\<lparr>queues := tq\<rparr>) wk = Inr p'"
      using post.hyps by (auto simp: PostTask_def res_simps case_Now split: if_splits)
    with wake_all_queues post.prems show ?thesis using tq_reach.register by fastforce
  qed (use post.prems in auto)
next
  case (grab p l lp cs p' m)
  then obtain tq wk where "GetTasksToRunNow (queues p) (queue_id lp) FlushAll (fst (Now p)) [] = Inr (tq, cs, wk)"
    "wake_all ((snd (Now p))\<lparr>queues := tq\<rparr>) wk = Inr p'"
    by (auto simp: grab_tasks_def res_simps case_Now)
  with wake_all_queues grab.prems show ?case using tq_reach.flush by fastforce
next
  case (wake p l lp t p' m)
  then show ?case by (auto simp: WakeUp_Inr)
qed (auto simp: MessageLoopImpl_destroy_def AddTaskObserver_def RemoveTaskObserver_def DisposeTasks_of_def
    set_terminated_def set_running_def res_simps split: if_splits,
    (blast intro: tq_reach.dispose tq_reach.add_observer tq_reach.remove_observer tq_reach.dispose_tasks)+)

lemma ml_reach_tq_reach: "ml_reach m p \<Longrightarrow> \<exists>n. tq_reach n m (queues p)"
proof (induction rule: ml_reach.induct)
  case (start ck st u)
  show ?case using tq_reach.start by (auto simp: new_process_def)
next
  case (step m p m' p')
  then show ?case using ml_step_tq_reach by blast
qed

text \<open>A live loop with an empty queue and no observers, in a reachable process in which \<open>n\<close> tasks have
  been registered.\<close>

definition idle_loop :: "nat \<Rightarrow> nat \<Rightarrow> nat \<Rightarrow> ('c, 'u) process \<Rightarrow> bool" where
  "idle_loop m n l p \<longleftrightarrow>
     ml_reach m p \<and> tq_reach n m (queues p) \<and> clock_sane p \<and> (\<forall>s. settime p s = 0)
     \<and> (\<exists>lp e. loops p l = Some lp \<and> \<not> terminated lp
          \<and> queue_entries (queues p) (tqid_key (queue_id lp)) = Some e
          \<and> task_observers e = [] \<and> delayed_tasks e = [])"

lemma idle_loop_fifo: "idle_loop m n l p \<Longrightarrow> fifo m n l [] p"
  by (auto simp: idle_loop_def fifo_def ml_reach_inv tq_reach_inv)

text \<open>A process whose only thread, number 1, has just initialised its loop, number 0.\<close>

definition fresh_loop :: "(nat \<Rightarrow> int) \<Rightarrow> 'u \<Rightarrow> ('c, 'u) process" where
  "fresh_loop ck u = (new_process ck (\<lambda>_. 0) u)
     \<lparr>queues := set_entry (fst (CreateTaskQueue new_MessageLoopTaskQueues)) (TaskQueueId 0)
        (new_TaskQueueEntry\<lparr>wakeable := Some 0\<rparr>),
      loops := [0 \<mapsto> \<lparr>queue_id = TaskQueueId 0, terminated = False, running = False, timer_fd = None\<rparr>],
      num_loops := 1, tls_message_loop := [1 \<mapsto> 0]\<rparr>"

lemma fresh_loop_Ensure:
  "EnsureInitializedForCurrentThread (new_process ck (\<lambda>_. 0) u) 1 3 4 0 = Inr (fresh_loop ck u)"
  by (simp add: EnsureInitializedForCurrentThread_def Create_def CreateTaskQueue_def fresh_loop_def
      new_process_def Let_def SetWakeable_def new_MessageLoopTaskQueues_def new_TaskQueueEntry_def
      set_entry_def tqid_key_def)

lemma fresh_loop_facts:
  "loops (fresh_loop ck u) 0 = Some \<lparr>queue_id = TaskQueueId 0, terminated = False, running = False, timer_fd = None\<rparr>"
  "tls_message_loop (fresh_loop ck u) 1 = Some 0" "user (fresh_loop ck u) = u" "clock (fresh_loop ck u) = ck"
  by (simp_all add: fresh_loop_def new_process_def)

lemma fresh_loop_idle:
  assumes "mono ck" "\<And>i. 0 \<le> ck i \<and> ck i \<le> int64_max"
  shows "idle_loop 1 0 0 (fresh_loop ck u :: ('c, 'u) process)"
proof -
  let ?p0 = "new_process ck (\<lambda>_. 0) u :: ('c, 'u) process"
  have "EnsureInitializedForCurrentThread ?p0 1 3 4 0 = Inr (fresh_loop ck u)" by (rule fresh_loop_Ensure)
  then obtain p1 where c: "Create ?p0 3 4 0 = Inr (0, p1)"
    and f: "fresh_loop ck u = p1\<lparr>tls_message_loop := [1 \<mapsto> 0]\<rparr>"
    by (auto simp: EnsureInitializedForCurrentThread_def res_simps new_process_def Create_def Let_def
        split: prod.splits)
  have r: "ml_reach 1 (fresh_loop ck u :: ('c, 'u) process)"
    unfolding f using ml_reach.step[OF ml_reach.step[OF ml_reach.start ml_step.create[OF _ c]] ml_step.tls]
    by simp
  have "tq_reach 0 1 (queues (fresh_loop ck u :: ('c, 'u) process))"
  proof -
    let ?tq = "fst (CreateTaskQueue (new_MessageLoopTaskQueues :: ('c, nat) MessageLoopTaskQueues))"
    have "SetWakeable ?tq (TaskQueueId 0) (Some 0) = Inr (queues (fresh_loop ck u :: ('c, 'u) process))"
      by (simp add: fresh_loop_def SetWakeable_def CreateTaskQueue_def new_MessageLoopTaskQueues_def
          new_TaskQueueEntry_def Let_def)
    from tq_reach.set_wakeable[OF tq_reach.create[OF tq_reach.start] this] show ?thesis by simp
  qed
  with r assms show ?thesis
    by (simp add: idle_loop_def clock_sane_def fresh_loop_def new_process_def new_TaskQueueEntry_def)
qed

definition ramp_clock :: "nat \<Rightarrow> int" where
  "ramp_clock i = min (10 * int i) 1000000"

lemma ramp_idle: "idle_loop 1 0 0 (fresh_loop ramp_clock u)"
  by (rule fresh_loop_idle) (auto simp: mono_def ramp_clock_def int64_bounds)

section \<open>Properties\<close>

text \<open>A task runner is a first-in first-out queue: on an idle live loop of any reachable process, closures
  posted one after the other by \<open>TaskRunner::PostTask\<close> are all accepted, one flush of the loop runs each of
  them once and in posting order, and afterwards nothing is pending.\<close>

theorem task_runner_fifo:
  assumes "idle_loop m n l p" "n + length cs \<le> 2 ^ 32" "\<forall>c\<in>set cs. plain call f c"
  shows "\<exists>p1 p2 lp. post_all p l cs = Inr p1 \<and> RunExpiredTasksNow call p1 l = Inr p2
    \<and> user p2 = foldl f (user p) cs
    \<and> loops p2 l = Some lp \<and> GetNumPendingTasks (queues p2) (queue_id lp) = Inr 0"
proof -
  obtain p1 where p1: "post_all p l cs = Inr p1" "fifo m (n + length cs) l cs p1" "user p1 = user p"
    using post_all_fifo[OF idle_loop_fifo[OF assms(1)] assms(2)] by auto
  obtain p2 qid where p2: "RunExpiredTasksNow call p1 l = run_invocations call qid (map Some cs) p2"
    "fifo m (n + length cs) l [] p2" "user p2 = user p1" "GetObserversToNotify (queues p2) qid = Inr []"
    using flush_fifo[OF p1(2), of call] by blast
  have run: "RunExpiredTasksNow call p1 l = Inr (p2\<lparr>user := foldl f (user p) cs\<rparr>)"
    using run_invocations_plain[OF assms(3) p2(4), of "[]"] p1(3) p2(1,3) by simp
  obtain lp e where lp: "loops p2 l = Some lp" "queue_entries (queues p2) (tqid_key (queue_id lp)) = Some e"
    "delayed_tasks e = []" "tq_inv (n + length cs) m (queues p2)"
    using p2(2) by (auto simp: fifo_def)
  then have "GetNumPendingTasks (queues p2) (queue_id lp) = Inr 0"
    using tq_inv_lock[OF lp(4,2)] by (simp add: GetNumPendingTasks_def)
  then show ?thesis using p1(1) run lp(1) by simp
qed

theorem task_runner_fifo_witness:
  "\<exists>p1 p2. post_all (fresh_loop ramp_clock []) 0 [''a'', ''b'', ''c''] = Inr p1
    \<and> RunExpiredTasksNow (\<lambda>c p. Inr (p\<lparr>user := user p @ [c]\<rparr>)) p1 0 = Inr p2
    \<and> user p2 = [''a'', ''b'', ''c'']"
  using task_runner_fifo[OF ramp_idle, of "[''a'', ''b'', ''c'']" "\<lambda>c p. Inr (p\<lparr>user := user p @ [c]\<rparr>)"
      "\<lambda>u c. u @ [c]" "[]"]
  by (auto simp: plain_def fresh_loop_facts)

end
