(* ===== verification/Thread.thy ===== *)
theory Thread
  imports Task_Runner_Laws Waitable_Event
begin

text \<open>
  \<open>source/base/thread/thread.h\<close> and \<open>thread.cpp\<close>: a thread with a message loop. The members are a record;
  the child's part of \<open>Start\<close> and the posting part of \<open>Join\<close> are operations on the process of the message
  loop. The hand-over between the two threads in \<open>Start\<close> is a state machine over the waitable event, with
  the starting thread as number 0 of the event.

  The lemmas show that \<open>Start\<close> publishes the child's task runner and leaves no reference to its stack
  behind, and that a joined thread first runs everything posted before the join.
\<close>

record Thread =
  thread_id :: "nat option"      \<comment> \<open>\<open>thread_\<close>, null or the running thread\<close>
  task_runner :: "nat option"    \<comment> \<open>\<open>task_runner_\<close>, null or the loop it posts to\<close>
  joined :: bool
  name :: string

definition new_Thread :: "string \<Rightarrow> Thread" where
  "new_Thread n = \<lparr>thread_id = None, task_runner = None, joined = False, name = n\<rparr>"

definition GetTaskRunner :: "Thread \<Rightarrow> nat option" where
  "GetTaskRunner t = task_runner t"

definition GetName :: "Thread \<Rightarrow> string" where
  "GetName t = name t"

text \<open>The name passed to \<open>prctl\<close>, if the call is made.\<close>

definition SetCurrentThreadName :: "string \<Rightarrow> string option" where
  "SetCurrentThreadName n = (if n = [] then None else Some n)"

section \<open>Start\<close>

text \<open>The child, on thread \<open>th\<close>, up to the assignment of the local \<open>task_runner\<close>: it makes sure of its
  loop and returns the runner, that is the loop's number.\<close>

definition child_init ::
  "('c, 'u) process \<Rightarrow> nat \<Rightarrow> int \<Rightarrow> int \<Rightarrow> int \<Rightarrow> (nat \<times> ('c, 'u) process) res" where
  "child_init p th epoll_fd timerfd ctl_result =
     res_bind (EnsureInitializedForCurrentThread p th epoll_fd timerfd ctl_result) (\<lambda>p.
     res_bind (GetCurrent p th) (\<lambda>loop. Inr (loop, p)))"

text \<open>The child after the signal: the given function, or the loop.\<close>

definition child_body ::
  "('c, 'u) caller \<Rightarrow> ('c, 'u) process \<Rightarrow> nat \<Rightarrow> 'c closure \<Rightarrow> 'c epoll_response list
     \<Rightarrow> (bool \<times> ('c, 'u) process) res" where
  "child_body call p loop thread_func rs =
     (case thread_func of
        Some f \<Rightarrow> res_bind (call f p) (\<lambda>p. Inr (True, p))
      | None \<Rightarrow> DoRun call p loop rs)"

text \<open>The hand-over: where the two threads are, the event \<open>ev\<close>, the local \<open>task_runner\<close> of \<open>Start\<close> and the
  member.\<close>

datatype child_pc = ChildInit | ChildAssign nat | ChildSignal | ChildBody
datatype owner_pc = OwnerWait | OwnerAssign | OwnerDone

record handover =
  ev :: event
  local_runner :: "nat option"
  member_runner :: "nat option"
  child :: child_pc
  owner :: owner_pc

definition Start_begin :: handover where
  "Start_begin = \<lparr>ev = new_event, local_runner = None, member_runner = None, child = ChildInit,
     owner = OwnerWait\<rparr>"

definition child_assign :: "handover \<Rightarrow> nat \<Rightarrow> handover" where
  "child_assign s loop = s\<lparr>local_runner := Some loop, child := ChildSignal\<rparr>"

definition child_signal :: "handover \<Rightarrow> nat option \<Rightarrow> handover" where
  "child_signal s pick = s\<lparr>ev := Signal (ev s) pick, child := ChildBody\<rparr>"

definition owner_test :: "handover \<Rightarrow> handover" where
  "owner_test s =
     (let e = Wait_test (ev s) 0
      in s\<lparr>ev := e, owner := (if returned e \<noteq> returned (ev s) then OwnerAssign else OwnerWait)\<rparr>)"

definition owner_assign :: "handover \<Rightarrow> handover" where
  "owner_assign s = s\<lparr>member_runner := local_runner s, owner := OwnerDone\<rparr>"

text \<open>The interleavings of \<open>Start\<close> with its child, whose loop is \<open>loop\<close>.\<close>

inductive start_run :: "nat \<Rightarrow> handover \<Rightarrow> bool" for loop where
  begin': "start_run loop Start_begin"
| init: "start_run loop s \<Longrightarrow> child s = ChildInit \<Longrightarrow> start_run loop (s\<lparr>child := ChildAssign loop\<rparr>)"
| assign: "start_run loop s \<Longrightarrow> child s = ChildAssign l \<Longrightarrow> start_run loop (child_assign s l)"
| signal: "start_run loop s \<Longrightarrow> child s = ChildSignal \<Longrightarrow> pick_ok (ev s) pick \<Longrightarrow>
    start_run loop (child_signal s pick)"
| test: "start_run loop s \<Longrightarrow> owner s = OwnerWait \<Longrightarrow> 0 \<notin> blocked (ev s) \<Longrightarrow>
    start_run loop (owner_test s)"
| spurious: "start_run loop s \<Longrightarrow> 0 \<in> blocked (ev s) \<Longrightarrow> start_run loop (s\<lparr>ev := Wake (ev s) 0\<rparr>)"
| publish: "start_run loop s \<Longrightarrow> owner s = OwnerAssign \<Longrightarrow> start_run loop (owner_assign s)"

text \<open>Before the signal the owner waits; after it the local runner is set, and the signal is there
  until the owner takes it.\<close>

definition start_inv :: "nat \<Rightarrow> handover \<Rightarrow> bool" where
  "start_inv loop s \<longleftrightarrow>
     blocked (ev s) \<subseteq> {0} \<and> (\<forall>l. child s = ChildAssign l \<longrightarrow> l = loop)
     \<and> (child s \<in> {ChildSignal, ChildBody} \<longrightarrow> local_runner s = Some loop)
     \<and> (child s \<noteq> ChildBody \<longrightarrow> \<not> signaled (ev s) \<and> owner s = OwnerWait)
     \<and> (child s = ChildBody \<and> owner s = OwnerWait \<longrightarrow> signaled (ev s) \<and> blocked (ev s) = {})
     \<and> (owner s \<noteq> OwnerWait \<longrightarrow> 0 \<notin> blocked (ev s))
     \<and> (owner s = OwnerDone \<longrightarrow> member_runner s = Some loop)"

lemma start_run_inv: "start_run loop s \<Longrightarrow> start_inv loop s"
proof (induction rule: start_run.induct)
  case begin'
  show ?case by (simp add: start_inv_def Start_begin_def new_event_def)
next
  case (init s)
  then show ?case by (simp add: start_inv_def)
next
  case (assign s l)
  then show ?case by (auto simp: start_inv_def child_assign_def)
next
  case (signal s pick)
  then show ?case
    by (auto simp: start_inv_def child_signal_def Signal_def pick_ok_def Let_def split: option.splits)
next
  case (test s)
  then show ?case by (auto simp: start_inv_def owner_test_def Wait_test_def Let_def)
next
  case (spurious s)
  then show ?case by (auto simp: start_inv_def Wake_def)
next
  case (publish s)
  then show ?case by (auto simp: start_inv_def owner_assign_def)
qed

section \<open>Join\<close>

text \<open>\<open>Join\<close> up to the blocking \<open>thread_->join()\<close>. The closure it posts is \<open>terminate\<close>.\<close>

definition Join :: "('c, 'u) process \<Rightarrow> Thread \<Rightarrow> 'c \<Rightarrow> (Thread \<times> ('c, 'u) process) res" where
  "Join p t terminate =
     (if joined t then Inr (t, p)
      else let t = t\<lparr>joined := True\<rparr> in
        case task_runner t of
          None \<Rightarrow> Inl NullDeref
        | Some loop \<Rightarrow>
            res_bind (TaskRunner_PostTask p loop (Some terminate)) (\<lambda>p.
              case thread_id t of None \<Rightarrow> Inl NullDeref | Some th \<Rightarrow> Inr (t, p)))"

definition Thread_destroy :: "('c, 'u) process \<Rightarrow> Thread \<Rightarrow> 'c \<Rightarrow> (Thread \<times> ('c, 'u) process) res" where
  "Thread_destroy p t terminate = Join p t terminate"

text \<open>What the posted closure does when thread \<open>th\<close> runs it.\<close>

definition terminate_current :: "('c, 'u) process \<Rightarrow> nat \<Rightarrow> ('c, 'u) process res" where
  "terminate_current p th = res_bind (GetCurrent p th) (\<lambda>loop. DoTerminate p loop)"

lemma DoTerminate_ok:
  assumes "loops p l = Some lp" "\<forall>s. settime p s = 0"
  shows "\<exists>p' lp'. DoTerminate p l = Inr p' \<and> loops p' l = Some lp' \<and> terminated lp' \<and> \<not> running lp'
    \<and> user p' = user p \<and> queues p' = queues p \<and> clock p' = clock p"
  using assms
  by (simp add: DoTerminate_def set_terminated_def Terminate_def set_running_def case_Now WakeUp_def
      TimerRearm_def Let_def)

text \<open>A return of \<open>epoll_wait\<close> because the timer expired.\<close>

definition timer_fired :: "'c epoll_response \<Rightarrow> bool" where
  "timer_fired r \<longleftrightarrow> \<not> ev_error r \<and> epoll_result r = 1 \<and> ev_is_timer r
     \<and> TimerDrain (read_size r) (read_count r) \<and> others r = []"

text \<open>When the flush after a timer event terminates the loop, the loop is left.\<close>

lemma run_loop_terminated:
  assumes "timer_fired r" "loops p l = Some lp" "running lp"
    and "RunExpiredTasksNow call p l = Inr p'" "loops p' l = Some lp'" "\<not> running lp'"
    and "clock_sane p'" "clock_ok start" "start \<le> fst (Now p')" "0 < left_ms" "left_ms \<le> int64_max"
  shows "\<exists>p''. run_loop call l start left_ms (r # rs) p = Inr (True, p'') \<and> user p'' = user p'
    \<and> (\<exists>lp''. loops p'' l = Some lp'' \<and> terminated lp'' = terminated lp')"
proof -
  let ?now = "fst (Now p')" and ?p = "snd (Now p')"
  let ?d = "ticks ?now - ticks start"
  have d: "0 \<le> ?d" "?d \<le> int64_max" and diff: "tp_diff ?now start = Inr (TimeDelta ?d)"
    using Now_clock_ok[OF assms(7)] assms(8,9)
    by (auto simp: clock_ok_def less_eq_TimePoint_def int64_bounds)
  let ?left = "left_ms - ?d div 1000000"
  have left: "in_int64 ?left" using elapsed_bounds[OF d(1)] d(2) assms(10,11) by (auto simp: int64_bounds)
  let ?q = "if ?left \<le> 0 then set_loop ?p l (lp'\<lparr>running := False\<rparr>) else ?p"
  have "run_loop call l start left_ms (r # rs) p = run_loop call l start ?left rs ?q"
    using assms(1-5) left
    by (simp add: timer_fired_def OnEventFired_def case_Now set_running_def diff elapsed_bounds(1)[OF d(1)])
  also have "\<dots> = Inr (True, ?q)" using assms(5,6) by (cases rs) auto
  finally show ?thesis using assms(5) by auto
qed

section \<open>Properties\<close>

text \<open>(C22) When \<open>Start\<close> returns, in any interleaving with the new thread and with any spurious wake-ups,
  \<open>task_runner_\<close> is the runner of the new thread's loop, and the new thread has passed its last use of the
  locals of \<open>Start\<close>. While the new thread is past its signal, the starting thread is not blocked: its next
  test succeeds.\<close>

theorem start_publishes_runner:
  assumes "start_run loop s"
  shows "(owner s = OwnerDone \<longrightarrow> member_runner s = Some loop \<and> child s = ChildBody)
    \<and> (child s = ChildBody \<and> owner s = OwnerWait \<longrightarrow> 0 \<notin> blocked (ev s) \<and> owner (owner_test s) = OwnerAssign)"
  using start_run_inv[OF assms]
  by (auto simp: start_inv_def owner_test_def Wait_test_def)

text \<open>The starting thread blocks first, then the new thread runs through.\<close>

definition demo_handover :: handover where
  "demo_handover = child_signal (child_assign ((owner_test Start_begin)\<lparr>child := ChildAssign 7\<rparr>) 7) (Some 0)"

theorem start_publishes_runner_witness:
  "owner (owner_assign (owner_test demo_handover)) = OwnerDone
    \<and> member_runner (owner_assign (owner_test demo_handover)) = Some 7"
proof -
  note steps = demo_handover_def owner_test_def Start_begin_def new_event_def Wait_test_def child_assign_def
    child_signal_def Signal_def Let_def
  have "start_run 7 demo_handover"
    unfolding demo_handover_def
    by (intro start_run.signal start_run.assign start_run.init start_run.test start_run.begin')
      (simp_all add: steps pick_ok_def)
  moreover have "owner demo_handover = OwnerWait" "0 \<notin> blocked (ev demo_handover)"
    by (simp_all add: steps)
  ultimately have r: "start_run 7 (owner_test demo_handover)" by (intro start_run.test)
  have "owner (owner_test demo_handover) = OwnerAssign" by (simp add: steps)
  from start_publishes_runner[OF start_run.publish[OF r this]] show ?thesis
    by (simp add: owner_assign_def)
qed

text \<open>(C9) Join drains the thread: on a running idle loop, closures posted before \<open>Join\<close> all run, once and in
  posting order, when the timer wakes the thread; then the closure that \<open>Join\<close> posted terminates the loop,
  the loop is left whatever else would have come, and the thread can be joined. Nothing posted after that
  is accepted.\<close>

theorem join_drains:
  assumes idle: "idle_loop m n l p" and run: "loops p l = Some lp" "running lp"
    and n: "n + length cs < 2 ^ 32" and plain: "\<forall>c\<in>set cs. plain call f c"
    and T: "\<forall>p. call T p = terminate_current p th" "tls_message_loop p th = Some l"
    and t: "\<not> joined t" "task_runner t = Some l" "thread_id t = Some th"
    and r: "timer_fired r" "0 < left_ms" "left_ms \<le> int64_max" "\<forall>i. ticks start \<le> clock p i" "clock_ok start"
  shows "\<exists>p1 p2 p3 lp3. post_all p l cs = Inr p1 \<and> Join p1 t T = Inr (t\<lparr>joined := True\<rparr>, p2)
    \<and> run_loop call l start left_ms (r # rs) p2 = Inr (True, p3) \<and> user p3 = foldl f (user p) cs
    \<and> loops p3 l = Some lp3 \<and> terminated lp3 \<and> (\<forall>c t. PostTask p3 l (Some c) t = Inr p3)"
proof -
  obtain p1 where p1: "post_all p l cs = Inr p1" "fifo m (n + length cs) l cs p1" "user p1 = user p"
    "tls_message_loop p1 = tls_message_loop p" "map_option running (loops p1 l) = Some True"
    "clock p1 = clock p"
    using post_all_fifo[OF idle_loop_fifo[OF idle], of cs] n run by auto
  obtain p2 where p2: "TaskRunner_PostTask p1 l (Some T) = Inr p2" "fifo m (Suc (n + length cs)) l (cs @ [T]) p2"
    "user p2 = user p" "tls_message_loop p2 th = Some l" "map_option running (loops p2 l) = Some True"
    "clock p2 = clock p"
    using post_fifo[OF p1(2) n, of T] p1 T(2) by auto
  have join: "Join p1 t T = Inr (t\<lparr>joined := True\<rparr>, p2)" using t p2(1) by (simp add: Join_def)
  obtain p' qid where g: "RunExpiredTasksNow call p2 l = run_invocations call qid (map Some (cs @ [T])) p'"
    "fifo m (Suc (n + length cs)) l [] p'" "user p' = user p" "GetObserversToNotify (queues p') qid = Inr []"
    "tls_message_loop p' th = Some l" "clock p' = clock p"
    using flush_fifo[OF p2(2), of call] p2 by auto
  let ?u = "p'\<lparr>user := foldl f (user p) cs\<rparr>"
  obtain lp' where lp': "loops ?u l = Some lp'" "\<forall>s. settime ?u s = 0" using g(2) by (auto simp: fifo_def)
  obtain q lq where q: "DoTerminate ?u l = Inr q" "loops q l = Some lq" "terminated lq" "\<not> running lq"
    "user q = foldl f (user p) cs" "queues q = queues p'" "clock q = clock p"
    using DoTerminate_ok[OF lp'] g(6) by auto
  have "RunExpiredTasksNow call p2 l = Inr q"
    using run_invocations_plain[OF plain g(4), of "[Some T]"] T(1) g q
    by (simp add: invoke_def terminate_current_def GetCurrent_def)
  moreover obtain lp2 where "loops p2 l = Some lp2" "running lp2" using p2(5) by auto
  moreover have "clock_sane q" "start \<le> fst (Now q)"
    using idle r(4) q(7) by (auto simp: clock_sane_def idle_loop_def Now_def TimePoint_Now_def less_eq_TimePoint_def)
  ultimately obtain p3 lp3 where "run_loop call l start left_ms (r # rs) p2 = Inr (True, p3)"
    "user p3 = foldl f (user p) cs" "loops p3 l = Some lp3" "terminated lp3"
    using run_loop_terminated[OF r(1), of p2 l lp2 call q lq start left_ms rs] q r by auto
  moreover from this(3,4) have "\<forall>c t. PostTask p3 l (Some c) t = Inr p3" by (simp add: PostTask_def)
  ultimately show ?thesis using p1(1) join by blast
qed

lemma idle_loop_running:
  assumes "idle_loop m n l p" "loops p l = Some lp"
  shows "idle_loop m n l (set_loop p l (lp\<lparr>running := b\<rparr>))"
proof -
  have "set_running p l b = Inr (set_loop p l (lp\<lparr>running := b\<rparr>))" using assms(2) by (simp add: set_running_def)
  from ml_step.running[OF this] show ?thesis
    using assms ml_reach.step by (fastforce simp: idle_loop_def clock_sane_def)
qed

text \<open>Two closures posted to a running loop, then the join.\<close>

definition demo_worker :: "(string, string list) process" where
  "demo_worker = set_loop (fresh_loop ramp_clock []) 0
     \<lparr>queue_id = TaskQueueId 0, terminated = False, running = True, timer_fd = None\<rparr>"

definition demo_worker_call :: "(string, string list) caller" where
  "demo_worker_call c p =
     (if c = ''terminate'' then terminate_current p 1 else Inr (p\<lparr>user := user p @ [c]\<rparr>))"

definition demo_fired :: "'c epoll_response" where
  "demo_fired = \<lparr>ev_error = False, epoll_result = 1, errno_eintr = False, ev_is_timer = True, read_size = 8,
     read_count = 1, others = []\<rparr>"

theorem join_drains_witness:
  "\<exists>p1 t p2 p3. post_all demo_worker 0 [''a'', ''b''] = Inr p1
    \<and> Join p1 \<lparr>thread_id = Some 1, task_runner = Some 0, joined = False, name = ''w''\<rparr> ''terminate'' = Inr (t, p2)
    \<and> run_loop demo_worker_call 0 (TimePoint 0) 1000 [demo_fired] p2 = Inr (True, p3)
    \<and> user p3 = [''a'', ''b'']"
proof -
  have idle: "idle_loop 1 0 0 demo_worker"
    using idle_loop_running[OF ramp_idle fresh_loop_facts(1), of "[]" True] by (simp add: demo_worker_def)
  have facts: "loops demo_worker 0 = Some \<lparr>queue_id = TaskQueueId 0, terminated = False, running = True,
      timer_fd = None\<rparr>" "tls_message_loop demo_worker 1 = Some 0" "user demo_worker = []"
      "clock demo_worker = ramp_clock"
    by (simp_all add: demo_worker_def fresh_loop_facts del: One_nat_def)
  have fired: "timer_fired (demo_fired :: string epoll_response)"
    by (simp add: timer_fired_def demo_fired_def TimerDrain_def)
  have "\<forall>c\<in>set [''a'', ''b'']. plain demo_worker_call (\<lambda>u c. u @ [c]) c"
    "\<forall>p. demo_worker_call ''terminate'' p = terminate_current p 1"
    by (simp_all add: plain_def demo_worker_call_def)
  from join_drains[OF idle facts(1) _ _ this facts(2) _ _ _ fired, of
      "\<lparr>thread_id = Some 1, task_runner = Some 0, joined = False, name = ''w''\<rparr>" 1000 "TimePoint 0" "[]"]
  show ?thesis using facts by (auto simp: int64_bounds ramp_clock_def clock_ok_def)
qed

text \<open>A thread that was never started cannot be destroyed: \<open>Join\<close>, which the destructor calls, dereferences
  the null \<open>task_runner_\<close>. A second \<open>Join\<close> does nothing.\<close>

theorem join_edge_cases:
  "Thread_destroy p (new_Thread nm) T = Inl NullDeref
   \<and> (Join p t T = Inr (t', p') \<longrightarrow> Join p' t' T = Inr (t', p'))"
  by (auto simp: Thread_destroy_def Join_def new_Thread_def Let_def res_simps split: option.splits if_splits)

theorem join_edge_cases_witness:
  "Thread_destroy demo_worker (new_Thread ''w'') ''T'' = Inl NullDeref
    \<and> Join demo_worker \<lparr>thread_id = Some 1, task_runner = Some 0, joined = True, name = ''w''\<rparr> ''T''
      = Inr (\<lparr>thread_id = Some 1, task_runner = Some 0, joined = True, name = ''w''\<rparr>, demo_worker)"
  using join_edge_cases[of demo_worker "''w''" "''T''"] by (simp add: Join_def)

end
