(* ===== verification/Client_Sync.thy ===== *)
theory Client_Sync
  imports Main
begin

text \<open>
  \<open>Client::PerformRequestSync\<close> (\<open>source/net/client.cpp\<close>): the calling thread submits a request with a
  callback that stores the response and notifies, and waits on a condition variable that lives on its own
  stack. The steps of the state machine are the sections between two points where another thread can
  run: the callback stores the response under the mutex, then, after releasing it, calls \<open>notify_one\<close>; the
  caller tests \<open>response_ready\<close> under the mutex and either returns or blocks. A wake-up can be spurious.
\<close>

datatype 'r sync_caller = SyncTest | SyncBlocked | SyncReturned "'r option"
datatype sync_callback = CallbackIdle | CallbackNotify | CallbackDone

record 'r sync =
  response_ready :: bool
  output_response :: "'r option"
  caller_at :: "'r sync_caller"
  callback_at :: sync_callback
  used_after_return :: bool     \<comment> \<open>\<open>notify_one\<close> was called after the caller's locals were gone\<close>

definition sync_start :: "'r sync" where
  "sync_start = \<lparr>response_ready = False, output_response = None, caller_at = SyncTest,
     callback_at = CallbackIdle, used_after_return = False\<rparr>"

definition callback_store :: "'r sync \<Rightarrow> 'r \<Rightarrow> 'r sync" where
  "callback_store s response =
     s\<lparr>output_response := Some response, response_ready := True, callback_at := CallbackNotify\<rparr>"

definition callback_notify :: "'r sync \<Rightarrow> 'r sync" where
  "callback_notify s =
     (case caller_at s of
        SyncTest \<Rightarrow> s\<lparr>callback_at := CallbackDone\<rparr>
      | SyncBlocked \<Rightarrow> s\<lparr>callback_at := CallbackDone, caller_at := SyncTest\<rparr>
      | SyncReturned r \<Rightarrow> s\<lparr>callback_at := CallbackDone, used_after_return := True\<rparr>)"

definition caller_test :: "'r sync \<Rightarrow> 'r sync" where
  "caller_test s =
     (if response_ready s then s\<lparr>caller_at := SyncReturned (output_response s)\<rparr>
      else s\<lparr>caller_at := SyncBlocked\<rparr>)"

text \<open>The interleavings, for a client that calls the callback at most once, with \<open>response\<close>.\<close>

inductive sync_run :: "'r \<Rightarrow> 'r sync \<Rightarrow> bool" for response where
  start: "sync_run response sync_start"
| store: "sync_run response s \<Longrightarrow> callback_at s = CallbackIdle \<Longrightarrow>
    sync_run response (callback_store s response)"
| notify: "sync_run response s \<Longrightarrow> callback_at s = CallbackNotify \<Longrightarrow> sync_run response (callback_notify s)"
| test: "sync_run response s \<Longrightarrow> caller_at s = SyncTest \<Longrightarrow> sync_run response (caller_test s)"
| spurious: "sync_run response s \<Longrightarrow> caller_at s = SyncBlocked \<Longrightarrow>
    sync_run response (s\<lparr>caller_at := SyncTest\<rparr>)"

definition sync_inv :: "'r \<Rightarrow> 'r sync \<Rightarrow> bool" where
  "sync_inv response s \<longleftrightarrow>
     (response_ready s \<longleftrightarrow> callback_at s \<noteq> CallbackIdle)
     \<and> output_response s = (if response_ready s then Some response else None)
     \<and> (\<forall>r. caller_at s = SyncReturned r \<longrightarrow> response_ready s \<and> r = Some response)
     \<and> (caller_at s = SyncBlocked \<longrightarrow> callback_at s \<noteq> CallbackDone)
     \<and> (used_after_return s \<longrightarrow> callback_at s = CallbackDone)"

lemma sync_run_inv: "sync_run response s \<Longrightarrow> sync_inv response s"
proof (induction rule: sync_run.induct)
  case start
  show ?case by (simp add: sync_inv_def sync_start_def)
next
  case (store s)
  then show ?case by (auto simp: sync_inv_def callback_store_def)
next
  case (notify s)
  then show ?case by (auto simp: sync_inv_def callback_notify_def split: sync_caller.splits)
next
  case (test s)
  then show ?case by (auto simp: sync_inv_def caller_test_def)
next
  case (spurious s)
  then show ?case by (auto simp: sync_inv_def)
qed

section \<open>Properties\<close>

text \<open>The synchronous call returns the response and does not miss it: in every interleaving it returns
  only the response the callback was called with; when the response is stored and the caller is blocked,
  the notification is still to come and makes it test again; and its next test returns.\<close>

theorem sync_returns_response:
  assumes "sync_run response s"
  shows "(\<forall>r. caller_at s = SyncReturned r \<longrightarrow> r = Some response)
    \<and> (response_ready s \<and> caller_at s = SyncBlocked \<longrightarrow>
         callback_at s = CallbackNotify \<and> caller_at (callback_notify s) = SyncTest)
    \<and> (response_ready s \<and> caller_at s = SyncTest \<longrightarrow> caller_at (caller_test s) = SyncReturned (Some response))"
  using sync_run_inv[OF assms]
  by (auto simp: sync_inv_def callback_notify_def caller_test_def intro: sync_callback.exhaust)

theorem sync_returns_response_witness:
  "caller_at (caller_test (callback_notify (callback_store (caller_test sync_start) ''r''))) = SyncReturned (Some ''r'')"
proof -
  have "sync_run ''r'' (caller_test (callback_notify (callback_store (caller_test sync_start) ''r'')))"
    by (intro sync_run.intros)
      (simp_all add: sync_start_def caller_test_def callback_store_def callback_notify_def)
  from sync_returns_response[OF this] show ?thesis
    by (simp add: sync_start_def caller_test_def callback_store_def callback_notify_def)
qed

text \<open>The notification can come too late: the callback releases the mutex before it notifies, so a
  caller that tests in between returns, and the callback then uses the condition variable of a
  function that has ended. This can happen for every response.\<close>

theorem sync_notify_after_return:
  "\<exists>s. sync_run response s \<and> caller_at s = SyncReturned (Some response) \<and> used_after_return s"
proof -
  let ?s = "callback_notify (caller_test (callback_store sync_start response))"
  have "sync_run response ?s"
    by (intro sync_run.intros) (simp_all add: sync_start_def caller_test_def callback_store_def)
  moreover have "caller_at ?s = SyncReturned (Some response)" "used_after_return ?s"
    by (simp_all add: sync_start_def caller_test_def callback_store_def callback_notify_def)
  ultimately show ?thesis by blast
qed

end
