(* ===== verification/Request_Impl.thy ===== *)
theory Request_Impl
  imports Sha256_Laws
begin

text \<open>
  \<open>source/net/request.cpp\<close> and \<open>request_impl.cpp\<close>: the request object, its copy, its body and its
  hash, which names the request everywhere else in the client. \<open>headers_\<close> is a
  \<open>std::unordered_map\<close>: the list of its pairs in the order in which the container iterates, an order
  the standard leaves open. \<open>malloc\<close> is assumed to return memory.

  The lemmas show what the hash depends on and what it ignores.
\<close>

definition GetMethod :: string where "GetMethod = ''GET''"
definition PostMethod :: string where "PostMethod = ''POST''"
definition PutMethod :: string where "PutMethod = ''PUT''"
definition HeadMethod :: string where "HeadMethod = ''HEAD''"

record RequestImpl =
  url :: string
  headers :: "(string \<times> string) list"
  method_name :: string
  body :: "byte list option"    \<comment> \<open>\<open>data_\<close>, null or the bytes it points to\<close>
  body_length :: nat            \<comment> \<open>\<open>data_length_\<close>\<close>

section \<open>Construction\<close>

definition new_RequestImpl :: "string \<Rightarrow> (string \<times> string) list \<Rightarrow> RequestImpl" where
  "new_RequestImpl u header_map =
     \<lparr>url = u, headers = header_map, method_name = GetMethod, body = None, body_length = 0\<rparr>"

text \<open>\<open>data(data_length)\<close> returns the pointer and the length.\<close>

definition request_data :: "RequestImpl \<Rightarrow> byte list option \<times> nat" where
  "request_data r = (body r, body_length r)"

definition memcpy_from :: "byte list option \<Rightarrow> nat \<Rightarrow> byte list res" where
  "memcpy_from src n =
     (case src of
        None \<Rightarrow> Inl NullDeref
      | Some bs \<Rightarrow> if n \<le> length bs then Inr (take n bs) else Inl OutOfBounds)"

definition copy_RequestImpl :: "RequestImpl \<Rightarrow> RequestImpl res" where
  "copy_RequestImpl request =
     (let r = \<lparr>url = url request, headers = headers request, method_name = method_name request,
               body = None, body_length = 0\<rparr>
      in case request_data request of (data, data_length) \<Rightarrow>
         if data_length > 0
         then res_bind (memcpy_from data data_length) (\<lambda>bs.
                Inr (r\<lparr>body := Some bs, body_length := data_length\<rparr>))
         else Inr r)"

text \<open>The destructor: whether \<open>free\<close> is called, and the object after it. The two functions \<open>CreateRequest\<close>, the second on
  the pointee of a \<open>shared_ptr\<close>, and the accessors.\<close>

definition RequestImpl_destroy :: "RequestImpl \<Rightarrow> bool \<times> RequestImpl" where
  "RequestImpl_destroy r = (if body r \<noteq> None then (True, r\<lparr>body := None, body_length := 0\<rparr>) else (False, r))"

definition CreateRequest :: "string \<Rightarrow> (string \<times> string) list \<Rightarrow> RequestImpl" where
  "CreateRequest u header_map = new_RequestImpl u header_map"

definition CreateRequest_copy :: "RequestImpl option \<Rightarrow> RequestImpl res" where
  "CreateRequest_copy request = (case request of None \<Rightarrow> Inl NullDeref | Some r \<Rightarrow> copy_RequestImpl r)"

definition request_url :: "RequestImpl \<Rightarrow> string" where
  "request_url r = url r"

definition request_headerMap :: "RequestImpl \<Rightarrow> (string \<times> string) list" where
  "request_headerMap r = headers r"

definition request_method :: "RequestImpl \<Rightarrow> string" where
  "request_method r = method_name r"

definition request_serialise :: "RequestImpl \<Rightarrow> string" where
  "request_serialise r = []"

definition setUrl :: "RequestImpl \<Rightarrow> string \<Rightarrow> RequestImpl" where
  "setUrl r u = r\<lparr>url := u\<rparr>"

definition setMethod :: "RequestImpl \<Rightarrow> string \<Rightarrow> RequestImpl" where
  "setMethod r m = r\<lparr>method_name := m\<rparr>"

text \<open>\<open>setData\<close> allocates one byte more and terminates the copy with 0.\<close>

definition setData :: "RequestImpl \<Rightarrow> byte list option \<Rightarrow> nat \<Rightarrow> RequestImpl res" where
  "setData r data data_length =
     (let r = r\<lparr>body_length := data_length\<rparr>;
          r = (if body r \<noteq> None then r\<lparr>body := None, body_length := 0\<rparr> else r)
      in if data_length > 0
         then res_bind (memcpy_from data data_length) (\<lambda>bs.
                Inr (r\<lparr>body := Some (bs @ [0]), body_length := data_length\<rparr>))
         else Inr r)"

section \<open>The hash\<close>

definition isspace :: "char \<Rightarrow> bool" where
  "isspace c \<longleftrightarrow> c \<in> {CHR '' '', CHR 0x09, CHR 0x0A, CHR 0x0B, CHR 0x0C, CHR 0x0D}"

text \<open>The tokens that repeated \<open>std::getline(ss, token, ',')\<close> extracts: a trailing comma does not start
  another token.\<close>

function getline_tokens :: "string \<Rightarrow> string list" where
  "getline_tokens s =
     (if s = [] then []
      else takeWhile (\<lambda>c. c \<noteq> CHR '','') s
           # getline_tokens (tl (dropWhile (\<lambda>c. c \<noteq> CHR '','') s)))"
  by pat_completeness auto
termination
proof (relation "measure length", simp, clarsimp)
  fix s :: string assume "s \<noteq> []"
  then have "length (tl t) < length s" if "length t \<le> length s" for t :: string
    using that by (cases t) (auto simp: Suc_le_eq)
  then show "length (dropWhile (\<lambda>c. c \<noteq> CHR '','') s) - Suc 0 < length s"
    using length_dropWhile_le[of "\<lambda>c. c \<noteq> CHR '',''" s] by simp
qed

declare getline_tokens.simps [simp del]

definition find_header :: "(string \<times> string) list \<Rightarrow> string \<Rightarrow> string option" where
  "find_header hs k = map_of hs k"

definition excluded_headers :: "RequestImpl \<Rightarrow> string list" where
  "excluded_headers r =
     (case find_header (headers r) ''Vary'' of
        None \<Rightarrow> []
      | Some v \<Rightarrow> map (filter (\<lambda>c. \<not> isspace c)) (getline_tokens v))"

definition to_bytes :: "string \<Rightarrow> byte list" where
  "to_bytes s = map of_char s"

definition amalgamation :: "RequestImpl \<Rightarrow> byte list res" where
  "amalgamation r =
     (let excluded = excluded_headers r;
          text' = foldl (\<lambda>acc (k, v). if k \<in> set excluded then acc else acc @ k @ v) (url r) (headers r)
      in case body r of
           None \<Rightarrow> Inr (to_bytes text')
         | Some bs \<Rightarrow> res_bind (memcpy_from (Some bs) (body_length r)) (\<lambda>d. Inr (to_bytes text' @ d)))"

definition hash :: "RequestImpl \<Rightarrow> string res" where
  "hash r = res_bind (amalgamation r) sha256"

section \<open>Well-formed requests\<close>

definition request_ok :: "RequestImpl \<Rightarrow> bool" where
  "request_ok r \<longleftrightarrow>
     (case body r of None \<Rightarrow> body_length r = 0 | Some bs \<Rightarrow> body_length r \<le> length bs)
     \<and> distinct (map fst (headers r))"

lemma new_RequestImpl_ok: "distinct (map fst hs) \<Longrightarrow> request_ok (new_RequestImpl u hs)"
  by (simp add: request_ok_def new_RequestImpl_def)

text \<open>The bytes the request carries.\<close>

definition payload :: "RequestImpl \<Rightarrow> byte list" where
  "payload r = (case body r of None \<Rightarrow> [] | Some bs \<Rightarrow> take (body_length r) bs)"

lemma payload_headers [simp]: "payload (r\<lparr>headers := hs\<rparr>) = payload r"
  by (simp add: payload_def cong: option.case_cong)

lemma setData_ok:
  assumes "distinct (map fst (headers r))" "n \<le> length bs"
  shows "\<exists>r'. setData r (Some bs) n = Inr r' \<and> request_ok r' \<and> payload r' = take n bs
    \<and> url r' = url r \<and> headers r' = headers r \<and> method_name r' = method_name r"
  using assms by (auto simp: setData_def memcpy_from_def request_ok_def payload_def Let_def
      split: option.splits)

text \<open>The headers that count, in iteration order.\<close>

definition counted :: "RequestImpl \<Rightarrow> (string \<times> string) list" where
  "counted r = filter (\<lambda>(k, v). k \<notin> set (excluded_headers r)) (headers r)"

lemma foldl_counted:
  "foldl (\<lambda>acc (k, v). if k \<in> X then acc else acc @ k @ v) u hs
     = u @ concat (map (\<lambda>(k, v). k @ v) (filter (\<lambda>(k, v). k \<notin> X) hs))"
  by (induction hs arbitrary: u) auto

lemma amalgamation_eq:
  assumes "request_ok r"
  shows "amalgamation r =
    Inr (to_bytes (url r @ concat (map (\<lambda>(k, v). k @ v) (counted r))) @ payload r)"
  using assms
  by (auto simp: amalgamation_def foldl_counted counted_def request_ok_def payload_def memcpy_from_def
      Let_def split: option.splits)

lemma getline_tokens_no_comma: "t \<in> set (getline_tokens s) \<Longrightarrow> CHR '','' \<notin> set t"
proof (induction s rule: getline_tokens.induct)
  case (1 s)
  then show ?case
    using getline_tokens.simps[of s] by (auto split: if_splits dest: set_takeWhileD)
qed

text \<open>A list of names without commas, joined by commas, splits into that list.\<close>

fun join_comma :: "string list \<Rightarrow> string" where
  "join_comma [] = []"
| "join_comma [t] = t"
| "join_comma (t # ts) = t @ CHR '','' # join_comma ts"

lemma getline_tokens_last: "CHR '','' \<notin> set t \<Longrightarrow> t \<noteq> [] \<Longrightarrow> getline_tokens t = [t]"
proof -
  assume t: "CHR '','' \<notin> set t" "t \<noteq> []"
  then have tw: "takeWhile (\<lambda>c. c \<noteq> CHR '','') t = t" and dw: "dropWhile (\<lambda>c. c \<noteq> CHR '','') t = []"
    by (auto simp: takeWhile_eq_all_conv)
  show ?thesis
    unfolding getline_tokens.simps[of t] tw dw using t(2) by (simp add: getline_tokens.simps[of "[]"])
qed

lemma getline_tokens_join_comma:
  assumes "\<forall>t\<in>set ts. CHR '','' \<notin> set t \<and> t \<noteq> []"
  shows "getline_tokens (join_comma ts) = ts"
  using assms
proof (induction ts rule: join_comma.induct)
  case 1
  show ?case by (simp add: getline_tokens.simps)
next
  case (2 t)
  then show ?case by (simp add: getline_tokens_last)
next
  case (3 t u ts)
  have "takeWhile (\<lambda>c. c \<noteq> CHR '','') (t @ CHR '','' # join_comma (u # ts)) = t"
    "dropWhile (\<lambda>c. c \<noteq> CHR '','') (t @ CHR '','' # join_comma (u # ts)) = CHR '','' # join_comma (u # ts)"
    using 3(2) by (auto simp: takeWhile_append dropWhile_append)
  then show ?case using 3 by (simp add: getline_tokens.simps[of "t @ _"])
qed

section \<open>Properties\<close>

text \<open>(C32) The request hash: for a well-formed request whose amalgamation is shorter than \<open>2\<^sup>2\<^sup>9\<close> bytes,
  \<open>hash\<close> returns the hexadecimal SHA-256 of the URL, the names and values of the headers not named in
  \<open>Vary\<close> in iteration order, and the body. The method does not enter it.\<close>

theorem request_hash:
  assumes "request_ok r"
    and "msg = to_bytes (url r @ concat (map (\<lambda>(k, v). k @ v) (counted r))) @ payload r"
    and "length msg < 2 ^ 29"
  shows "hash r = Inr (concat (map hex_byte (fips_sha256 msg)))
    \<and> hash (setMethod r m) = hash r"
proof -
  have "request_ok (setMethod r m)" "counted (setMethod r m) = counted r" "url (setMethod r m) = url r"
    "payload (setMethod r m) = payload r"
    using assms(1)
    by (simp_all add: request_ok_def setMethod_def counted_def excluded_headers_def payload_def
        cong: option.case_cong)
  then show ?thesis
    using assms sha256_eq[OF assms(3)] by (simp add: hash_def amalgamation_eq)
qed

theorem request_hash_witness:
  "hash (new_RequestImpl ''u'' [(''k'', ''v'')])
     = Inr (concat (map hex_byte (fips_sha256 (to_bytes ''ukv''))))"
proof -
  let ?r = "new_RequestImpl ''u'' [(''k'', ''v'')]"
  have c: "counted ?r = [(''k'', ''v'')]"
    by (simp add: counted_def excluded_headers_def find_header_def new_RequestImpl_def)
  show ?thesis
    using request_hash[of ?r "to_bytes ''ukv''"] c
    by (simp add: new_RequestImpl_ok payload_def to_bytes_def) (simp add: new_RequestImpl_def)
qed

text \<open>\<open>Vary\<close>: when the value of the \<open>Vary\<close> header is a comma-separated list of header names, with
  any spacing, changing the value of a header named there does not change the hash.\<close>

theorem vary_headers_ignored:
  assumes "request_ok r" "map_of (headers r) ''Vary'' = Some (join_comma names)"
    and "\<forall>t\<in>set names. CHR '','' \<notin> set t \<and> t \<noteq> []"
    and "k \<in> set (map (filter (\<lambda>c. \<not> isspace c)) names)" "k \<noteq> ''Vary''"
  shows "hash (r\<lparr>headers := map (\<lambda>(k', v). (k', if k' = k then w else v)) (headers r)\<rparr>) = hash r"
proof -
  let ?hs = "map (\<lambda>(k', v). (k', if k' = k then w else v)) (headers r)"
  let ?r = "r\<lparr>headers := ?hs\<rparr>"
  have "map_of (map (\<lambda>(k', v). (k', if k' = k then w else v)) hs) ''Vary'' = map_of hs ''Vary''" for hs
    using assms(5) by (induction hs) auto
  then have m: "map_of ?hs ''Vary'' = map_of (headers r) ''Vary''" .
  have ex: "excluded_headers ?r = excluded_headers r"
    using m by (simp add: excluded_headers_def find_header_def)
  have k: "k \<in> set (excluded_headers r)"
    using assms(2-4) by (simp add: excluded_headers_def find_header_def getline_tokens_join_comma)
  have "filter (\<lambda>(k, v). k \<notin> X) (map (\<lambda>(k', v). (k', if k' = k then w else v)) hs)
      = filter (\<lambda>(k, v). k \<notin> X) hs" if "k \<in> X" for X hs
    using that by (induction hs) auto
  from this[OF k] have "counted ?r = counted r" by (simp add: counted_def ex)
  moreover have "map fst ?hs = map fst (headers r)" by (simp add: comp_def case_prod_beta)
  then have "distinct (map fst ?hs) \<longleftrightarrow> distinct (map fst (headers r))" by (simp only:)
  then have "request_ok ?r"
    using assms(1) by (auto simp add: request_ok_def split: option.splits simp del: map_map)
  ultimately show ?thesis
    using assms(1) by (simp add: hash_def amalgamation_eq)
qed

theorem vary_headers_ignored_witness:
  "hash (new_RequestImpl ''u'' [(''Vary'', ''A, B''), (''B'', ''2'')])
     = hash (new_RequestImpl ''u'' [(''Vary'', ''A, B''), (''B'', ''1'')])"
  using vary_headers_ignored[of "new_RequestImpl ''u'' [(''Vary'', ''A, B''), (''B'', ''1'')]"
      "[''A'', '' B'']" "''B''" "''2''"]
  by (simp add: new_RequestImpl_ok isspace_def) (simp add: new_RequestImpl_def)

text \<open>Copies: copying a well-formed request, with or without a body, succeeds and yields a
  well-formed request with the same URL, method, headers, body bytes and hash.\<close>

theorem request_copy:
  assumes "request_ok r"
  shows "\<exists>r'. copy_RequestImpl r = Inr r' \<and> request_ok r' \<and> url r' = url r
    \<and> method_name r' = method_name r \<and> headers r' = headers r \<and> payload r' = payload r \<and> hash r' = hash r"
proof -
  let ?b = "if body_length r > 0 then Some (payload r) else None"
  let ?r = "\<lparr>url = url r, headers = headers r, method_name = method_name r, body = ?b,
    body_length = body_length r\<rparr>"
  have "copy_RequestImpl r = Inr ?r"
    using assms by (auto simp: copy_RequestImpl_def request_data_def memcpy_from_def request_ok_def
        payload_def Let_def split: option.splits)
  moreover have ok: "request_ok ?r" and p: "payload ?r = payload r"
    using assms by (auto simp: request_ok_def payload_def split: option.splits)
  moreover have "counted ?r = counted r" by (simp add: counted_def excluded_headers_def)
  ultimately show ?thesis
    using assms by (simp add: hash_def amalgamation_eq p[simplified])
qed

theorem request_copy_witness:
  "\<exists>r r'. setData (new_RequestImpl ''u'' []) (Some [1, 2, 3]) 2 = Inr r \<and> copy_RequestImpl r = Inr r'
    \<and> payload r' = [1, 2] \<and> hash r' = hash r"
proof -
  obtain r where r: "setData (new_RequestImpl ''u'' []) (Some [1, 2, 3]) 2 = Inr r" "request_ok r"
    "payload r = take 2 [1, 2, 3]"
    using setData_ok[of "new_RequestImpl ''u'' []" 2 "[1, 2, 3]"]
    by (auto simp: new_RequestImpl_def)
  from request_copy[OF r(2)] r show ?thesis by auto
qed

text \<open>The amalgamation has no separators: a request with one header has the same hash as the
  request whose URL ends with that header's name and value, so requests to different resources can
  share the name under which the client stores them.\<close>

theorem hash_ambiguous:
  "k \<noteq> ''Vary'' \<Longrightarrow> hash (new_RequestImpl u [(k, v)]) = hash (new_RequestImpl (u @ k @ v) [])"
  by (simp add: hash_def amalgamation_eq new_RequestImpl_ok counted_def excluded_headers_def
      find_header_def payload_def) (simp add: new_RequestImpl_def)

theorem hash_ambiguous_witness:
  "hash (new_RequestImpl ''http://a/'' [(''b'', ''c'')]) = hash (new_RequestImpl ''http://a/bc'' [])"
  using hash_ambiguous[of "''b''" "''http://a/''" "''c''"] by simp

end
