(* ===== verification/Double_Arith.thy ===== *)
theory Double_Arith
  imports FF_Prelude Complex_Main
begin

text \<open>
  The C++ type \<open>double\<close>, as far as the sources use it: finite values, given as rational numbers, and operations
  that are the exact operation followed by one rounding to 53 significant bits, to nearest and with ties to
  even (IEEE 754 binary64). The exponent is not bounded: the quantities computed here are times between a
  nanosecond and some centuries, in units from nanoseconds to seconds, far from the largest and the smallest
  double. Infinities, NaN and the sign of zero do not occur for the same reason.
\<close>

type_synonym double = rat

section \<open>Exponent and rounding\<close>

text \<open>The number of digits of a positive integer in base \<open>b\<close>, and the exponent of a positive number: the digits of
  numerator and denominator give it up to one.\<close>

function digits :: "int \<Rightarrow> int \<Rightarrow> nat" where
  "digits b n = (if n \<le> 0 \<or> b \<le> 1 then 0 else Suc (digits b (n div b)))"
  by pat_completeness auto
termination
  by (relation "measure (\<lambda>(b, n). nat n)") (auto simp: int_div_less_self)

declare digits.simps [simp del]

definition expo :: "int \<Rightarrow> rat \<Rightarrow> int" where
  "expo b x =
     (let (p, q) = quotient_of x;
          e = int (digits b p) - int (digits b q)
      in if (rat_of_int b) powi e \<le> x then e else e - 1)"

text \<open>Rounding to an integer, to nearest, ties to even.\<close>

definition round_even :: "rat \<Rightarrow> int" where
  "round_even x =
     (let f = \<lfloor>x\<rfloor>; d = x - rat_of_int f
      in if d < 1 / 2 \<or> (d = 1 / 2 \<and> even f) then f else f + 1)"

text \<open>Rounding to 53 significant bits.\<close>

definition fl :: "rat \<Rightarrow> double" where
  "fl x = (if x = 0 then 0
           else let u = 2 powi (expo 2 \<bar>x\<bar> - 52) in rat_of_int (round_even (x / u)) * u)"

section \<open>Operations\<close>

definition double_of_int :: "int \<Rightarrow> double" where
  "double_of_int n = fl (rat_of_int n)"

definition double_plus :: "double \<Rightarrow> double \<Rightarrow> double" where
  "double_plus x y = fl (x + y)"

definition double_minus :: "double \<Rightarrow> double \<Rightarrow> double" where
  "double_minus x y = fl (x - y)"

definition double_times :: "double \<Rightarrow> double \<Rightarrow> double" where
  "double_times x y = fl (x * y)"

definition double_div :: "double \<Rightarrow> double \<Rightarrow> double" where
  "double_div x y = fl (x / y)"

text \<open>Conversion to \<open>int64_t\<close> drops the fraction; a value that does not fit is undefined behaviour.\<close>

definition truncate_rat :: "rat \<Rightarrow> int" where
  "truncate_rat x = (if 0 \<le> x then \<lfloor>x\<rfloor> else \<lceil>x\<rceil>)"

definition int64_of_double :: "double \<Rightarrow> int res" where
  "int64_of_double x = int64 (truncate_rat x)"

section \<open>Exponent\<close>

lemma digits_bounds:
  assumes "0 < n" "1 < b"
  shows "0 < digits b n \<and> b ^ (digits b n - 1) \<le> n \<and> n < b ^ digits b n"
  using assms
proof (induction b n rule: digits.induct)
  case (1 b n)
  have step: "digits b n = Suc (digits b (n div b))" using 1(2,3) by (simp add: digits.simps)
  have n: "n = b * (n div b) + n mod b" "0 \<le> n mod b" "n mod b < b" using 1(3) by simp_all
  show ?case
  proof (cases "n div b = 0")
    case True
    then have "digits b (n div b) = 0" by (simp add: digits.simps)
    with step True n 1(2) show ?thesis by auto
  next
    case False
    then have "0 < n div b" using 1(2,3) by (simp add: order_neq_le_trans pos_imp_zdiv_nonneg_iff)
    with 1 have IH: "0 < digits b (n div b)" "b ^ (digits b (n div b) - 1) \<le> n div b" "n div b < b ^ digits b (n div b)"
      by auto
    have "b * b ^ (digits b (n div b) - 1) \<le> b * (n div b)" using IH(2) 1(3) by (intro mult_left_mono) auto
    moreover have "b * (n div b + 1) \<le> b * b ^ digits b (n div b)" using IH(3) 1(3) by (intro mult_left_mono) auto
    moreover have "b * b ^ (digits b (n div b) - 1) = b ^ digits b (n div b)" using IH(1) by (cases "digits b (n div b)") auto
    ultimately have "b ^ digits b (n div b) \<le> n" "n < b * b ^ digits b (n div b)"
      using n by (simp_all only: distrib_left)
    then show ?thesis unfolding step by simp
  qed
qed

lemma digits_rat_bounds:
  assumes "0 < p" "1 < b"
  shows "0 < digits b p" "rat_of_int b ^ (digits b p - 1) \<le> rat_of_int p"
    "rat_of_int p < rat_of_int b ^ digits b p"
  using digits_bounds[OF assms] by (simp_all add: of_int_le_iff of_int_less_iff flip: of_int_power)

lemma powi_diff_nat: "1 < b \<Longrightarrow> rat_of_int b powi (int m - int n) = rat_of_int b ^ m / rat_of_int b ^ n"
  by (simp add: power_int_diff)

lemma two_powi_less: "(2::rat) powi a < 2 powi b \<longleftrightarrow> a < b"
  using power_int_increasing[of b a "2::rat"] power_int_strict_increasing[of a b "2::rat"] by force

lemma expo_bounds:
  assumes "0 < x" "1 < b"
  shows "rat_of_int b powi expo b x \<le> x" "x < rat_of_int b powi (expo b x + 1)"
proof -
  obtain p q where pq: "quotient_of x = (p, q)" by fastforce
  have q: "0 < q" using quotient_of_denom_pos[OF pq] .
  have x: "x = rat_of_int p / rat_of_int q" using quotient_of_div[OF pq] .
  have p: "0 < p" using assms(1) q unfolding x by (simp add: zero_less_divide_iff)
  let ?B = "rat_of_int b" and ?m = "digits b p" and ?n = "digits b q"
  let ?e = "int ?m - int ?n"
  note P = digits_rat_bounds[OF p assms(2)] and Q = digits_rat_bounds[OF q assms(2)]
  have B: "0 < ?B" using assms(2) by simp
  have "x < ?B ^ ?m / ?B ^ (?n - 1)"
    unfolding x using P(3) Q(2) p q B by (intro frac_less) auto
  also have "\<dots> = ?B powi (?e + 1)"
    using powi_diff_nat[OF assms(2), of ?m "?n - 1"] Q(1) by (simp add: of_nat_diff algebra_simps)
  finally have up: "x < ?B powi (?e + 1)" .
  have "?B powi (?e - 1) = ?B ^ (?m - 1) / ?B ^ ?n"
    using powi_diff_nat[OF assms(2), of "?m - 1" ?n] P(1) by (simp add: of_nat_diff algebra_simps)
  also have "\<dots> \<le> x"
    unfolding x using P(2) Q(3) p q B by (intro frac_le) auto
  finally have "?B powi (?e - 1) \<le> x" .
  with up show "?B powi expo b x \<le> x" "x < ?B powi (expo b x + 1)"
    by (auto simp: expo_def pq Let_def)
qed

section \<open>Rounding\<close>

lemma round_even_error: "\<bar>rat_of_int (round_even x) - x\<bar> \<le> 1 / 2"
proof -
  have f: "rat_of_int \<lfloor>x\<rfloor> \<le> x" "x < rat_of_int \<lfloor>x\<rfloor> + 1" by linarith+
  show ?thesis
  proof (cases "x - rat_of_int \<lfloor>x\<rfloor> < 1 / 2 \<or> (x - rat_of_int \<lfloor>x\<rfloor> = 1 / 2 \<and> even \<lfloor>x\<rfloor>)")
    case True
    then have "round_even x = \<lfloor>x\<rfloor>" by (simp add: round_even_def)
    with True f show ?thesis by (simp add: abs_if) linarith
  next
    case False
    then have "round_even x = \<lfloor>x\<rfloor> + 1" "1 / 2 \<le> x - rat_of_int \<lfloor>x\<rfloor>" by (auto simp: round_even_def Let_def)
    with f show ?thesis by (auto simp: abs_if)
  qed
qed

lemma round_even_of_int [simp]: "round_even (rat_of_int n) = n"
  by (simp add: round_even_def)

lemma fl_0 [simp]: "fl 0 = 0"
  by (simp add: fl_def)

text \<open>The relative error of one rounding.\<close>

lemma fl_error: "\<bar>fl x - x\<bar> \<le> \<bar>x\<bar> / 2 ^ 53"
proof (cases "x = 0")
  case False
  let ?e = "expo 2 \<bar>x\<bar>" and ?u = "2 powi (expo 2 \<bar>x\<bar> - 52) :: rat"
  have u: "0 < ?u" by simp
  have "fl x - x = (rat_of_int (round_even (x / ?u)) - x / ?u) * ?u"
    using False u by (simp add: fl_def Let_def left_diff_distrib)
  then have "\<bar>fl x - x\<bar> = \<bar>rat_of_int (round_even (x / ?u)) - x / ?u\<bar> * ?u"
    by (simp add: abs_mult)
  also have "\<dots> \<le> 1 / 2 * ?u"
    using round_even_error u by (intro mult_right_mono) auto
  also have "\<dots> = 2 powi ?e / 2 ^ 53"
    by (simp add: power_int_diff)
  also have "\<dots> \<le> \<bar>x\<bar> / 2 ^ 53"
    using expo_bounds(1)[of "\<bar>x\<bar>" 2] False by (intro divide_right_mono) auto
  finally show ?thesis .
qed simp

text \<open>Rounding keeps the sign.\<close>

lemma fl_sign:
  "0 < fl x \<longleftrightarrow> 0 < x" "fl x < 0 \<longleftrightarrow> x < 0" "0 \<le> fl x \<longleftrightarrow> 0 \<le> x" "fl x \<le> 0 \<longleftrightarrow> x \<le> 0"
proof -
  have "\<bar>x\<bar> / 2 ^ 53 < \<bar>x\<bar>" if "x \<noteq> 0" using that by (simp add: field_simps)
  with fl_error[of x] have pos: "0 < x \<Longrightarrow> 0 < fl x" and neg: "x < 0 \<Longrightarrow> fl x < 0"
    by (auto simp: abs_if split: if_splits)
  consider "x < 0" | "x = 0" | "0 < x" by linarith
  then show "0 < fl x \<longleftrightarrow> 0 < x" "fl x < 0 \<longleftrightarrow> x < 0" "0 \<le> fl x \<longleftrightarrow> 0 \<le> x" "fl x \<le> 0 \<longleftrightarrow> x \<le> 0"
    using pos neg by (cases; force)+
qed

text \<open>Numbers with at most 53 significant bits are not changed.\<close>

lemma fl_exact:
  assumes "\<bar>k\<bar> < 2 ^ 53"
  shows "fl (rat_of_int k * 2 powi j) = rat_of_int k * 2 powi j"
proof (cases "k = 0")
  case False
  let ?x = "rat_of_int k * 2 powi j"
  let ?e = "expo 2 \<bar>?x\<bar>"
  have k: "\<bar>rat_of_int k\<bar> < 2 ^ 53" using assms by (metis of_int_abs of_int_less_iff of_int_numeral of_int_power)
  have "(2::rat) powi ?e \<le> \<bar>?x\<bar>" using expo_bounds(1)[of "\<bar>?x\<bar>" 2] False by simp
  also have "\<dots> < 2 ^ 53 * 2 powi j" using k by (simp add: abs_mult)
  also have "\<dots> = (2::rat) powi (53 + j)" by (simp add: power_int_add)
  finally have "?e < 53 + j" by (simp only: two_powi_less)
  then obtain m where m: "j - (?e - 52) = int m" using zero_le_imp_eq_int[of "j - (?e - 52)"] by auto
  have "?x / 2 powi (?e - 52) = rat_of_int k * 2 powi (j - (?e - 52))" by (simp add: power_int_diff)
  also have "\<dots> = rat_of_int (k * 2 ^ m)" unfolding m by simp
  finally have q: "?x / 2 powi (?e - 52) = rat_of_int (k * 2 ^ m)" .
  have "?x = ?x / 2 powi (?e - 52) * 2 powi (?e - 52)" by simp
  also have "\<dots> = rat_of_int (round_even (?x / 2 powi (?e - 52))) * 2 powi (?e - 52)"
    by (simp only: q round_even_of_int)
  finally have "rat_of_int (round_even (?x / 2 powi (?e - 52))) * 2 powi (?e - 52) = ?x" by (rule sym)
  then show ?thesis using False by (simp add: fl_def Let_def)
qed simp

lemma double_of_int_exact:
  assumes "\<bar>n\<bar> < 2 ^ 53"
  shows "double_of_int n = rat_of_int n"
  using fl_exact[OF assms, of 0] by (simp add: double_of_int_def)

text \<open>Rounding is monotone.\<close>

lemma round_even_mono:
  assumes "x \<le> y"
  shows "round_even x \<le> round_even y"
proof (cases "\<lfloor>x\<rfloor> = \<lfloor>y\<rfloor>")
  case True
  then show ?thesis using assms by (auto simp: round_even_def Let_def)
next
  case False
  with assms have "\<lfloor>x\<rfloor> + 1 \<le> \<lfloor>y\<rfloor>" using floor_mono[OF assms] by linarith
  moreover have "round_even x \<le> \<lfloor>x\<rfloor> + 1" "\<lfloor>y\<rfloor> \<le> round_even y" by (auto simp: round_even_def Let_def)
  ultimately show ?thesis by linarith
qed

lemma round_even_minus [simp]: "round_even (- x) = - round_even x"
proof (cases "x \<in> \<int>")
  case True
  then obtain n where "x = rat_of_int n" by (rule Ints_cases)
  then show ?thesis using round_even_of_int[of "- n"] by simp
next
  case False
  then have f: "\<lfloor>- x\<rfloor> = - \<lfloor>x\<rfloor> - 1" by (simp add: floor_minus ceiling_altdef) (metis Ints_of_int)
  have p: "even (- \<lfloor>x\<rfloor> - 1) \<longleftrightarrow> odd \<lfloor>x\<rfloor>" by simp
  show ?thesis unfolding round_even_def f Let_def p by (auto simp: field_simps)
qed

lemma fl_minus [simp]: "fl (- x) = - fl x"
  by (simp add: fl_def Let_def)

lemma fl_mono_pos:
  assumes "0 < x" "x \<le> y"
  shows "fl x \<le> fl y"
proof -
  let ?ex = "expo 2 x" and ?ey = "expo 2 y"
  let ?u = "\<lambda>e. 2 powi (e - 52) :: rat"
  have fx: "fl x = rat_of_int (round_even (x / ?u ?ex)) * ?u ?ex" and fy: "fl y = rat_of_int (round_even (y / ?u ?ey)) * ?u ?ey"
    using assms by (simp_all add: fl_def Let_def)
  have bx: "2 powi ?ex \<le> x" "x < 2 powi (?ex + 1)" and by': "2 powi ?ey \<le> y" "y < 2 powi (?ey + 1)"
    using expo_bounds[of x 2] expo_bounds[of y 2] assms by simp_all
  then have "(2::rat) powi ?ex < 2 powi (?ey + 1)" using assms(2) by linarith
  then have le: "?ex \<le> ?ey" by (simp add: two_powi_less)
  show ?thesis
  proof (cases "?ex = ?ey")
    case True
    have "round_even (x / ?u ?ex) \<le> round_even (y / ?u ?ey)"
      using assms(2) True by (intro round_even_mono) (simp add: divide_right_mono)
    then show ?thesis unfolding fx fy True by (intro mult_right_mono) auto
  next
    case False
    have "x / ?u ?ex \<le> rat_of_int (2 ^ 53)"
      using bx(2) by (simp add: field_simps power_int_diff power_int_add)
    then have "round_even (x / ?u ?ex) \<le> 2 ^ 53" using round_even_mono round_even_of_int by metis
    then have "rat_of_int (round_even (x / ?u ?ex)) \<le> rat_of_int (2 ^ 53)" by (simp only: of_int_le_iff)
    then have "fl x \<le> rat_of_int (2 ^ 53) * ?u ?ex" unfolding fx by (intro mult_right_mono) auto
    also have "\<dots> = 2 powi (?ex + 1)" by (simp add: power_int_diff power_int_add)
    also have "\<dots> \<le> 2 powi ?ey" using le False by (intro power_int_increasing) auto
    also have "\<dots> = rat_of_int (2 ^ 52) * ?u ?ey" by (simp add: power_int_diff)
    also have "\<dots> \<le> fl y"
    proof -
      have "rat_of_int (2 ^ 52) \<le> y / ?u ?ey" using by' by (simp add: field_simps power_int_diff)
      then have "2 ^ 52 \<le> round_even (y / ?u ?ey)" using round_even_mono round_even_of_int by metis
      then have "rat_of_int (2 ^ 52) \<le> rat_of_int (round_even (y / ?u ?ey))" by (simp only: of_int_le_iff)
      then show ?thesis unfolding fy by (intro mult_right_mono) auto
    qed
    finally show ?thesis .
  qed
qed

lemma fl_mono:
  assumes "x \<le> y"
  shows "fl x \<le> fl y"
proof -
  consider "0 < x" | "x \<le> 0" "0 \<le> y" | "y < 0" by linarith
  then show ?thesis
  proof cases
    case 1
    then show ?thesis using assms by (rule fl_mono_pos)
  next
    case 2
    then show ?thesis using fl_sign(4)[of x] fl_sign(3)[of y] by linarith
  next
    case 3
    then show ?thesis using fl_mono_pos[of "- y" "- x"] assms by simp
  qed
qed

end
