(* ===== verification/Double_Print.thy ===== *)
theory Double_Print
  imports Double_Arith Logging
begin

text \<open>
  How \<open>std::ostream\<close> writes integers and doubles by default: a double as \<open>printf\<close> does with the format \<open>%g\<close>, six
  significant digits, correctly rounded, without trailing zeros, in fixed notation for exponents from -4 to 5 and
  in scientific notation otherwise. The lemmas give the number that a string in fixed notation denotes: it is the
  double up to half a unit in the sixth digit.
\<close>

section \<open>Formatting\<close>

definition show_int :: "int \<Rightarrow> string" where
  "show_int n = (if n < 0 then CHR ''-'' # show_nat (nat (- n)) else show_nat (nat n))"

text \<open>The six significant digits of a positive number, as an integer, and the exponent of the first one.\<close>

definition sig6 :: "rat \<Rightarrow> int \<times> int" where
  "sig6 x = (let e = expo 10 x; m = round_even (x / 10 powi (e - 5))
             in if m = 1000000 then (100000, e + 1) else (m, e))"

definition strip_zeros :: "string \<Rightarrow> string" where
  "strip_zeros s = rev (dropWhile (\<lambda>c. c = CHR ''0'') (rev s))"

definition with_fraction :: "string \<Rightarrow> string \<Rightarrow> string" where
  "with_fraction ip fp = (if strip_zeros fp = [] then ip else ip @ CHR ''.'' # strip_zeros fp)"

definition show_positive :: "rat \<Rightarrow> string" where
  "show_positive x =
     (case sig6 x of (m, e) \<Rightarrow> let ds = show_nat (nat m) in
        if 0 \<le> e \<and> e < 6 then with_fraction (take (nat e + 1) ds) (drop (nat e + 1) ds)
        else if - 4 \<le> e \<and> e < 0 then with_fraction ''0'' (replicate (nat (- e - 1)) CHR ''0'' @ ds)
        else with_fraction (take 1 ds) (drop 1 ds)
             @ CHR ''e'' # (if e < 0 then CHR ''-'' else CHR ''+'')
               # (if \<bar>e\<bar> < 10 then CHR ''0'' # show_nat (nat \<bar>e\<bar>) else show_nat (nat \<bar>e\<bar>)))"

definition show_double :: "double \<Rightarrow> string" where
  "show_double x = (if x = 0 then ''0'' else if x < 0 then CHR ''-'' # show_positive (- x) else show_positive x)"

section \<open>The number a string denotes\<close>

definition digit_value :: "char \<Rightarrow> int" where
  "digit_value c = int (of_char c) - 48"

definition digits_value :: "string \<Rightarrow> int" where
  "digits_value s = foldl (\<lambda>n c. 10 * n + digit_value c) 0 s"

definition read_fixed :: "string \<Rightarrow> rat" where
  "read_fixed s =
     (let ip = takeWhile (\<lambda>c. c \<noteq> CHR ''.'') s; fp = drop 1 (dropWhile (\<lambda>c. c \<noteq> CHR ''.'') s)
      in rat_of_int (digits_value ip) + rat_of_int (digits_value fp) / 10 ^ length fp)"

lemma digits_value_foldl: "foldl (\<lambda>n c. 10 * n + digit_value c) a s = a * 10 ^ length s + digits_value s"
proof (induction s arbitrary: a)
  case (Cons c s)
  show ?case
    using Cons[of "10 * a + digit_value c"] Cons[of "digit_value c"] by (simp add: digits_value_def algebra_simps)
qed (simp add: digits_value_def)

lemma digits_value_append: "digits_value (s @ t) = digits_value s * 10 ^ length t + digits_value t"
  using digits_value_foldl[of "digits_value s" t] by (simp add: digits_value_def)

lemma digits_value_simps [simp]:
  "digits_value [] = 0" "digits_value [c] = digit_value c" "digit_value CHR ''0'' = 0"
  "digits_value (replicate k CHR ''0'' @ s) = digits_value s"
proof -
  show "digits_value (replicate k CHR ''0'' @ s) = digits_value s"
    by (induction k) (simp_all add: digits_value_def digit_value_def)
qed (simp_all add: digits_value_def digit_value_def)

lemma show_nat_value: "digits_value (show_nat n) = int n"
proof (induction n rule: show_nat.induct)
  case (1 n)
  have d: "digit_value (char_of (48 + k)) = int k" if "k < 10" for k :: nat using that by (simp add: digit_value_def)
  show ?case
  proof (cases "n < 10")
    case True
    then show ?thesis using d by (simp add: show_nat.simps[of n])
  next
    case False
    then show ?thesis
      using 1 d[of "n mod 10"] by (simp add: show_nat.simps[of n] digits_value_append del: of_nat_mod)
        (metis mult.commute of_nat_add of_nat_mult of_nat_numeral div_mult_mod_eq)
  qed
qed

lemma show_nat_no_dot: "CHR ''.'' \<notin> set (show_nat n)"
proof (induction n rule: show_nat.induct)
  case (1 n)
  have d: "char_of (48 + k) \<noteq> CHR ''.''" if "k < 10" for k :: nat
  proof
    assume "char_of (48 + k) = CHR ''.''"
    then have "(of_char (char_of (48 + k) :: char) :: nat) = of_char CHR ''.''" by simp
    with that show False by simp
  qed
  from 1 d[of n] d[of "n mod 10"] show ?case by (auto simp: show_nat.simps[of n])
qed

lemma show_nat_length: "10 ^ k \<le> n \<Longrightarrow> n < 10 ^ Suc k \<Longrightarrow> length (show_nat n) = Suc k"
proof (induction k arbitrary: n)
  case 0
  then show ?case by (simp add: show_nat.simps)
next
  case (Suc k)
  have "10 ^ k \<le> n div 10" "n div 10 < 10 ^ Suc k" using Suc.prems by auto
  then have "length (show_nat (n div 10)) = Suc k" by (rule Suc.IH)
  moreover have "10 \<le> n" using Suc.prems(1) by (meson le_trans one_le_power power_increasing self_le_power
        one_le_numeral zero_less_Suc)
  ultimately show ?case by (simp add: show_nat.simps[of n])
qed

text \<open>Dropping trailing zeros after the point does not change the number.\<close>

lemma strip_zeros_append: "\<exists>k. s = strip_zeros s @ replicate k CHR ''0''"
proof -
  have "takeWhile (\<lambda>c. c = CHR ''0'') (rev s) = replicate (length (takeWhile (\<lambda>c. c = CHR ''0'') (rev s))) CHR ''0''"
    by (rule replicate_eqI[symmetric, THEN sym]) (auto dest: set_takeWhileD)
  moreover have "s = rev (takeWhile (\<lambda>c. c = CHR ''0'') (rev s) @ dropWhile (\<lambda>c. c = CHR ''0'') (rev s))" by simp
  ultimately have "s = strip_zeros s @ replicate (length (takeWhile (\<lambda>c. c = CHR ''0'') (rev s))) CHR ''0''"
    unfolding strip_zeros_def rev_append by (metis rev_replicate)
  then show ?thesis by blast
qed

lemma strip_zeros_value:
  "rat_of_int (digits_value (strip_zeros s)) / 10 ^ length (strip_zeros s) = rat_of_int (digits_value s) / 10 ^ length s"
proof -
  obtain k where k: "s = strip_zeros s @ replicate k CHR ''0''" using strip_zeros_append by blast
  have "digits_value s = digits_value (strip_zeros s) * 10 ^ k"
    using digits_value_append[of "strip_zeros s" "replicate k CHR ''0''"] digits_value_simps(4)[of k "[]"]
    unfolding k[symmetric] by simp
  moreover have "length s = length (strip_zeros s) + k"
    using arg_cong[OF k, of length] by simp
  ultimately show ?thesis by (simp add: power_add)
qed

lemma with_fraction_value:
  assumes "CHR ''.'' \<notin> set ip" "CHR ''.'' \<notin> set fp"
  shows "read_fixed (with_fraction ip fp) = rat_of_int (digits_value (ip @ fp)) / 10 ^ length fp"
proof -
  let ?f = "strip_zeros fp"
  have tk: "takeWhile (\<lambda>c. c \<noteq> CHR ''.'') ip = ip" "dropWhile (\<lambda>c. c \<noteq> CHR ''.'') ip = []"
    using assms(1) by (auto simp: takeWhile_eq_all_conv)
  have "read_fixed (with_fraction ip fp) = rat_of_int (digits_value ip) + rat_of_int (digits_value ?f) / 10 ^ length ?f"
  proof (cases "?f = []")
    case True
    then show ?thesis by (simp add: read_fixed_def with_fraction_def tk)
  next
    case False
    have "takeWhile (\<lambda>c. c \<noteq> CHR ''.'') (ip @ CHR ''.'' # ?f) = ip" "dropWhile (\<lambda>c. c \<noteq> CHR ''.'') (ip @ CHR ''.'' # ?f) = CHR ''.'' # ?f"
      using assms(1) by (auto simp: takeWhile_append dropWhile_append)
    with False show ?thesis by (simp add: read_fixed_def with_fraction_def Let_def)
  qed
  also have "\<dots> = rat_of_int (digits_value (ip @ fp)) / 10 ^ length fp"
    unfolding strip_zeros_value by (simp add: digits_value_append field_simps)
  finally show ?thesis .
qed

section \<open>Accuracy\<close>

lemma ten_powi_split: "(10::rat) powi e = 10 ^ 5 * 10 powi (e - 5)"
  by (simp add: power_int_diff)

lemma sig6_bounds:
  assumes "0 < x" "sig6 x = (m, e)"
  shows "100000 \<le> m" "m < 1000000" "\<bar>rat_of_int m * 10 powi (e - 5) - x\<bar> \<le> x / 200000"
proof -
  let ?e = "expo 10 x" let ?u = "10 powi (?e - 5) :: rat" let ?m = "round_even (x / ?u)"
  have u: "0 < ?u" by simp
  have b: "10 powi ?e \<le> x" "x < 10 powi (?e + 1)" using expo_bounds[OF assms(1), of 10] by simp_all
  have lo: "10 ^ 5 * ?u \<le> x" using b(1) unfolding ten_powi_split[of ?e] .
  have "(10::rat) powi (?e + 1) = 10 * 10 powi ?e" by (simp add: power_int_add)
  then have hi: "x < 10 ^ 6 * ?u" using b(2) unfolding ten_powi_split[of ?e] by simp
  have "rat_of_int 100000 \<le> x / ?u" "x / ?u \<le> rat_of_int 1000000" using lo hi u by (simp_all add: field_simps)
  then have m: "100000 \<le> ?m" "?m \<le> 1000000" using round_even_mono round_even_of_int by metis+
  have "\<bar>rat_of_int ?m - x / ?u\<bar> * ?u \<le> 1 / 2 * ?u"
    using round_even_error u by (intro mult_right_mono) auto
  moreover have "\<bar>rat_of_int ?m * ?u - x\<bar> = \<bar>rat_of_int ?m - x / ?u\<bar> * ?u"
  proof -
    have "rat_of_int ?m * ?u - x = (rat_of_int ?m - x / ?u) * ?u" using u by (simp add: left_diff_distrib)
    then show ?thesis using u by (simp add: abs_mult)
  qed
  ultimately have "\<bar>rat_of_int ?m * ?u - x\<bar> \<le> 1 / 2 * ?u" by linarith
  also have "\<dots> \<le> x / 200000" using lo by simp
  finally have err: "\<bar>rat_of_int ?m * ?u - x\<bar> \<le> x / 200000" .
  have carry: "rat_of_int 100000 * 10 powi (?e + 1 - 5) = 1000000 * ?u"
    using power_int_add[of "10::rat" "?e - 5" 1] by (simp add: algebra_simps)
  show "100000 \<le> m" "m < 1000000" "\<bar>rat_of_int m * 10 powi (e - 5) - x\<bar> \<le> x / 200000"
    using assms(2) m err carry by (auto simp: sig6_def Let_def split: if_splits)
qed

lemma show_positive_value:
  assumes "0 < x" "sig6 x = (m, e)" "- 4 \<le> e" "e < 6"
  shows "read_fixed (show_positive x) = rat_of_int m * 10 powi (e - 5)"
proof -
  note m = sig6_bounds[OF assms(1,2)]
  let ?ds = "show_nat (nat m)"
  have len: "length ?ds = 6" using show_nat_length[of 5 "nat m"] m by simp
  have v: "digits_value ?ds = m" using m by (simp add: show_nat_value)
  have dot: "CHR ''.'' \<notin> set (take k ?ds)" "CHR ''.'' \<notin> set (drop k ?ds)" "CHR ''.'' \<notin> set ?ds" for k
    using show_nat_no_dot[of "nat m"] in_set_takeD in_set_dropD by metis+
  show ?thesis
  proof (cases "0 \<le> e")
    case True
    then have "read_fixed (show_positive x) = rat_of_int m / 10 ^ (6 - (nat e + 1))"
      using assms with_fraction_value[OF dot(1,2), of "nat e + 1" "nat e + 1"] v len
      by (simp add: show_positive_def Let_def)
    also have "\<dots> = rat_of_int m * 10 powi (e - 5)"
      using True assms(4) powi_diff_nat[of 10 "nat e" 5] power_diff[of "10::rat" "nat e" 5]
      by (simp add: power_int_def field_simps nat_diff_distrib)
    finally show ?thesis .
  next
    case False
    then have "read_fixed (show_positive x) = rat_of_int m / 10 ^ (nat (- e - 1) + 6)"
      using assms with_fraction_value[of "''0''" "replicate (nat (- e - 1)) CHR ''0'' @ ?ds"] dot(3) v len
        digits_value_append[of "''0''" "replicate (nat (- e - 1)) CHR ''0'' @ ?ds"]
      by (simp add: show_positive_def Let_def)
    also have "nat (- e - 1) + 6 = nat (5 - e)" using False by simp
    finally show ?thesis using False by (simp add: power_int_def field_simps)
  qed
qed

text \<open>What is printed for a positive number whose six significant digits fit the fixed notation denotes that number up
  to half a unit in the sixth digit.\<close>

lemma show_double_accurate:
  assumes "0 < x" "- 4 \<le> snd (sig6 x)" "snd (sig6 x) < 6"
  shows "\<bar>read_fixed (show_double x) - x\<bar> \<le> x / 200000"
proof -
  obtain m e where s: "sig6 x = (m, e)" by fastforce
  with sig6_bounds(3)[OF assms(1) s] show_positive_value[OF assms(1) s] assms show ?thesis by (simp add: show_double_def)
qed

lemma sig6_examples:
  "sig6 (1 / 8) = (125000, - 1)" "sig6 1234567 = (123457, 6)" "sig6 (5 / 2) = (250000, 0)" "sig6 (1 / 100000) = (100000, - 5)"
  "sig6 999999 = (999999, 5)"
  by code_simp+

lemma digit_chars:
  "char_of (48 :: nat) = CHR ''0''" "char_of (49 :: nat) = CHR ''1''" "char_of (50 :: nat) = CHR ''2''"
  "char_of (51 :: nat) = CHR ''3''" "char_of (52 :: nat) = CHR ''4''" "char_of (53 :: nat) = CHR ''5''"
  "char_of (54 :: nat) = CHR ''6''" "char_of (55 :: nat) = CHR ''7''" "char_of (56 :: nat) = CHR ''8''"
  "char_of (57 :: nat) = CHR ''9''"
  by (simp_all add: char_of_def bit_Suc_0_iff)

lemma show_double_examples:
  "show_double 0 = ''0''" "show_double (1 / 8) = ''0.125''" "show_double 1234567 = ''1.23457e+06''"
  "show_double (5 / 2) = ''2.5''" "show_double (1 / 100000) = ''1e-05''" "show_double 999999 = ''999999''"
  by (simp_all add: show_double_def show_positive_def sig6_examples Let_def show_nat.simps with_fraction_def strip_zeros_def
      digit_chars)

end
