(* ===== verification/Response.thy ===== *)
theory Response
  imports Request_Impl Double_Print
begin

text \<open>
  \<open>include/ffnetwork/response.h\<close> and \<open>source/net/response_impl.cpp\<close>: the response a task delivers, its
  metrics and their textual form. A null \<open>shared_ptr\<close> is \<open>None\<close>; the header map is a map, since no operation
  depends on its order.
\<close>

section \<open>Codes and data\<close>

text \<open>\<open>HttpStatusCode\<close> is an enumeration with the underlying type \<open>int\<close>, and the client casts what curl reports to it:
  every \<open>int\<close> is a value, and the named ones are those of the table.\<close>

type_synonym HttpStatusCode = int

definition StatusCodeInvalid :: HttpStatusCode where "StatusCodeInvalid = 0"

definition HttpStatusCode_names :: "(string \<times> HttpStatusCode) list" where
  "HttpStatusCode_names =
    [(''StatusCodeInvalid'', StatusCodeInvalid),
     (''StatusCodeContinue'', 100), (''StatusCodeSwitchProtocols'', 101),
     (''StatusCodeOK'', 200), (''StatusCodeCreated'', 201), (''StatusCodeAccepted'', 202),
     (''StatusCodeNonAuthoritativeInformation'', 203), (''StatusCodeNoContent'', 204),
     (''StatusCodeResetContent'', 205), (''StatusCodePartialContent'', 206),
     (''StatusCodeMovedMultipleChoices'', 300), (''StatusCodeMovedPermanently'', 301), (''StatusCodeFound'', 302),
     (''StatusCodeSeeOther'', 303), (''StatusCodeNotModified'', 304), (''StatusCodeUseProxy'', 305),
     (''StatusCodeUnused'', 306), (''StatusCodeTemporaryRedirect'', 307),
     (''StatusCodeBadRequest'', 400), (''StatusCodeUnauthorised'', 401), (''StatusCodePaymentRequired'', 402),
     (''StatusCodeForbidden'', 403), (''StatusCodeNotFound'', 404), (''StatusCodeMethodNotAllowed'', 405),
     (''StatusCodeNotAcceptable'', 406), (''StatusCodeProxyAuthenticationRequired'', 407),
     (''StatusCodeRequestTimeout'', 408), (''StatusCodeConflict'', 409), (''StatusCodeGone'', 410),
     (''StatusCodeLengthRequired'', 411), (''StatusCodePreconditionFailed'', 412),
     (''StatusCodeRequestEntityTooLarge'', 413), (''StatusCodeRequestURITooLong'', 414),
     (''StatusCodeUnsupportedMediaTypes'', 415), (''StatusCodeRequestRangeUnsatisfied'', 416),
     (''StatusCodeExpectationFail'', 417),
     (''StatusCodeInternalServerError'', 500), (''StatusCodeNotImplemented'', 501), (''StatusCodeBadGateway'', 502),
     (''StatusCodeServiceUnavailable'', 503), (''StatusCodeGatewayTimeout'', 504),
     (''StatusCodeHTTPVersionNotSupported'', 505)]"

text \<open>The cast of a \<open>long\<close> keeps the low 32 bits.\<close>

definition HttpStatusCode_of :: "int \<Rightarrow> HttpStatusCode" where
  "HttpStatusCode_of status_code = sint (word_of_int status_code :: 32 word)"

datatype ResponseCode =
    Invalid | OK | InvalidHandle | InvalidParameter | RuntimeError | Timeout | UserCancel
  | ConnectToServerFailed | InvalidUrl | UnknownError

text \<open>The value a response code has as an \<open>int\<close>.\<close>

fun ResponseCode_value :: "ResponseCode \<Rightarrow> int" where
  "ResponseCode_value Invalid = - 1"
| "ResponseCode_value OK = 0"
| "ResponseCode_value InvalidHandle = 1000"
| "ResponseCode_value InvalidParameter = 1001"
| "ResponseCode_value RuntimeError = 1002"
| "ResponseCode_value Timeout = 1003"
| "ResponseCode_value UserCancel = 1004"
| "ResponseCode_value ConnectToServerFailed = 1005"
| "ResponseCode_value InvalidUrl = 1006"
| "ResponseCode_value UnknownError = 1007"

record Metrics =
  request_start_ms :: "64 word"
  request_end_ms :: "64 word"
  dns_time_ms :: double
  connect_time_ms :: double
  ssl_time_ms :: double
  pretransfer_time_ms :: double
  transfer_start_time_ms :: double
  totoal_time_ms :: double
  socket_reuse :: bool
  send_byte_count :: int
  receive_byte_count :: int

definition new_Metrics :: Metrics where
  "new_Metrics = \<lparr>request_start_ms = 0, request_end_ms = 0, dns_time_ms = 0, connect_time_ms = 0, ssl_time_ms = 0,
     pretransfer_time_ms = 0, transfer_start_time_ms = 0, totoal_time_ms = 0, socket_reuse = False,
     send_byte_count = - 1, receive_byte_count = - 1\<rparr>"

text \<open>\<open>metrics_dump_info\<close>: a newline, then a line for each entry; a null pointer is dereferenced.\<close>

definition metrics_lines :: "Metrics \<Rightarrow> (string \<times> string) list" where
  "metrics_lines m =
     [(''request_start_time: '', show_nat (unat (request_start_ms m))),
      (''request_end_ms: '', show_nat (unat (request_end_ms m))),
      (''dns_time_ms: '', show_double (dns_time_ms m)),
      (''connect_time_ms: '', show_double (connect_time_ms m)),
      (''ssl_time_ms: '', show_double (ssl_time_ms m)),
      (''pretransfer_time_ms: '', show_double (pretransfer_time_ms m)),
      (''transfer_start_time_ms: '', show_double (transfer_start_time_ms m)),
      (''totoal_time_ms: '', show_double (totoal_time_ms m)),
      (''receive byte count: '', show_int (receive_byte_count m)),
      (''send byte count: '', show_int (send_byte_count m))]"

definition metrics_dump_info :: "Metrics option \<Rightarrow> string res" where
  "metrics_dump_info metrics =
     (case metrics of None \<Rightarrow> Inl NullDeref
      | Some m \<Rightarrow> Inr ([CHR 0x0A] @ concat (map (\<lambda>(k, v). k @ v @ [CHR 0x0A]) (metrics_lines m))))"

record ResponseImpl =
  response_request :: "RequestImpl option"
  response_metrics :: "Metrics option"
  status_code :: HttpStatusCode
  response_code :: ResponseCode
  response_cancelled :: bool
  response_headers :: "string \<rightharpoonup> string"

text \<open>The default constructor leaves the two codes unset; \<open>Construct\<close> sets them before the response is
  handed out. The model gives them the values 0 and \<open>Invalid\<close>.\<close>

definition new_ResponseImpl :: ResponseImpl where
  "new_ResponseImpl = \<lparr>response_request = None, response_metrics = None,
     status_code = StatusCodeInvalid, response_code = Invalid, response_cancelled = False,
     response_headers = Map.empty\<rparr>"

definition ResponseImpl_of ::
  "RequestImpl \<Rightarrow> HttpStatusCode \<Rightarrow> ResponseCode \<Rightarrow> Metrics \<Rightarrow> bool \<Rightarrow> ResponseImpl" where
  "ResponseImpl_of req sc rc ms c = \<lparr>response_request = Some req, response_metrics = Some ms,
     status_code = sc, response_code = rc, response_cancelled = c, response_headers = Map.empty\<rparr>"

definition Construct ::
  "ResponseImpl \<Rightarrow> RequestImpl \<Rightarrow> HttpStatusCode \<Rightarrow> ResponseCode \<Rightarrow> Metrics \<Rightarrow> ResponseImpl" where
  "Construct r req sc rc ms =
     r\<lparr>response_request := Some req, status_code := sc, response_code := rc, response_metrics := Some ms\<rparr>"

definition Response_request :: "ResponseImpl \<Rightarrow> RequestImpl option" where
  "Response_request r = response_request r"

definition Response_metrics :: "ResponseImpl \<Rightarrow> Metrics option" where
  "Response_metrics r = response_metrics r"

definition statusCode :: "ResponseImpl \<Rightarrow> HttpStatusCode" where
  "statusCode r = status_code r"

definition responseCode :: "ResponseImpl \<Rightarrow> ResponseCode" where
  "responseCode r = response_code r"

definition Response_cancelled :: "ResponseImpl \<Rightarrow> bool" where
  "Response_cancelled r = response_cancelled r"

text \<open>Both versions of \<open>headerMap\<close>; the one that is not constant gives a reference, which a caller may replace.\<close>

definition headerMap :: "ResponseImpl \<Rightarrow> string \<rightharpoonup> string" where
  "headerMap r = response_headers r"

lemmas response_accessors = Response_request_def Response_metrics_def statusCode_def responseCode_def
  Response_cancelled_def headerMap_def

text \<open>\<open>operator[] const\<close> throws for a missing header.\<close>

definition response_header :: "ResponseImpl \<Rightarrow> string \<Rightarrow> string res" where
  "response_header r header_name = map_at (response_headers r) header_name"

text \<open>The other \<open>operator[]\<close> returns a reference into the map, after inserting the empty string for a missing
  header: the response after the call, and the string referred to. An assignment through the reference.\<close>

definition response_header_ref :: "ResponseImpl \<Rightarrow> string \<Rightarrow> ResponseImpl \<times> string" where
  "response_header_ref r header_name =
     (case response_headers r header_name of
        Some v \<Rightarrow> (r, v)
      | None \<Rightarrow> (r\<lparr>response_headers := (response_headers r)(header_name \<mapsto> [])\<rparr>, []))"

definition assign_header :: "ResponseImpl \<Rightarrow> string \<Rightarrow> string \<Rightarrow> ResponseImpl" where
  "assign_header r header_name value =
     (let r = fst (response_header_ref r header_name)
      in r\<lparr>response_headers := (response_headers r)(header_name \<mapsto> value)\<rparr>)"

text \<open>The constructor from a serialised response and the operations on metadata do nothing with their
  arguments; \<open>serialise\<close> and \<open>expectedContentLength\<close> return constants.\<close>

definition ResponseImpl_deserialised :: "string \<Rightarrow> 8 word list \<Rightarrow> ResponseImpl option \<Rightarrow> ResponseImpl" where
  "ResponseImpl_deserialised serialised data response = \<lparr>response_request = None, response_metrics = None,
     status_code = StatusCodeInvalid, response_code = OK, response_cancelled = False,
     response_headers = Map.empty\<rparr>"

definition setMetadata :: "ResponseImpl \<Rightarrow> string \<Rightarrow> string \<Rightarrow> ResponseImpl" where
  "setMetadata r key value = r"

definition metadata :: "ResponseImpl \<Rightarrow> string \<rightharpoonup> string" where
  "metadata r = Map.empty"

definition serialise :: "ResponseImpl \<Rightarrow> string" where
  "serialise r = []"

definition expectedContentLength :: "ResponseImpl \<Rightarrow> 64 word" where
  "expectedContentLength r = 0"

section \<open>Properties\<close>

text \<open>The named status codes are distinct, and the cast of a status that fits an \<open>int\<close> does not change it.\<close>

lemma HttpStatusCode_named:
  "distinct (map snd HttpStatusCode_names)" "distinct (map fst HttpStatusCode_names)"
  "(n, v) \<in> set HttpStatusCode_names \<Longrightarrow> HttpStatusCode_of v = v"
proof -
  show "distinct (map snd HttpStatusCode_names)" "distinct (map fst HttpStatusCode_names)"
    by (simp_all add: HttpStatusCode_names_def StatusCodeInvalid_def)
  show "(n, v) \<in> set HttpStatusCode_names \<Longrightarrow> HttpStatusCode_of v = v"
    by (auto simp: HttpStatusCode_names_def StatusCodeInvalid_def HttpStatusCode_of_def)
qed

lemma HttpStatusCode_of_id [simp]: "- (2 ^ 31) \<le> n \<Longrightarrow> n < 2 ^ 31 \<Longrightarrow> HttpStatusCode_of n = n"
  by (simp add: HttpStatusCode_of_def int_word_sint)

lemma ResponseCode_value_inj: "inj ResponseCode_value"
proof (rule injI)
  fix a b
  show "ResponseCode_value a = ResponseCode_value b \<Longrightarrow> a = b"
    by (cases a; cases b) simp_all
qed

text \<open>Reading headers: through a constant response a missing header throws and nothing changes; through any
  other it inserts the empty string, after which the constant access returns that string, other headers
  are untouched and a second read changes nothing; an assigned header is read back by both.\<close>

theorem response_header_access:
  "(response_header r h = Inl OutOfRange \<longleftrightarrow> response_headers r h = None)
   \<and> response_header (fst (response_header_ref r h)) h = Inr (snd (response_header_ref r h))
   \<and> (\<forall>h'. h' = h \<or> response_header (fst (response_header_ref r h)) h' = response_header r h')
   \<and> fst (response_header_ref (fst (response_header_ref r h)) h) = fst (response_header_ref r h)
   \<and> response_header (assign_header r h v) h = Inr v \<and> snd (response_header_ref (assign_header r h v) h) = v"
  by (auto simp: response_header_def response_header_ref_def assign_header_def Let_def map_at_def
      split: option.splits)

text \<open>Nothing survives a round trip through \<open>serialise\<close>: the result has no request, no headers and status 0,
  and metadata set is not returned.\<close>

theorem response_serialise_empty:
  "serialise r = [] \<and> response_headers (ResponseImpl_deserialised (serialise r) d None) = Map.empty
   \<and> status_code (ResponseImpl_deserialised (serialise r) d None) = 0 \<and> metadata (setMetadata r k v) k = None"
  by (simp add: serialise_def ResponseImpl_deserialised_def metadata_def StatusCodeInvalid_def)

end
