(* ===== verification/Request_Task.thy ===== *)
theory Request_Task
  imports Response Time_Utils
begin

text \<open>
  \<open>source/net/request_task_impl.cpp\<close>: the task that owns a curl handle, configures it, receives its header
  callbacks and delivers the response. A call \<open>curl_easy_setopt\<close> is a value of \<open>setopt\<close>; a \<open>curl_slist\<close> is a
  list of strings. The delegate that \<open>Resume\<close> and \<open>Cancel\<close> call is the client:
  those two operations are in the theory of the client.
\<close>

section \<open>The curl handle\<close>

datatype setopt =
    URL string | FOLLOWLOCATION int | WRITEFUNCTION | WRITEDATA nat | HEADERFUNCTION | WRITEHEADER nat
  | TIMEOUT int | PRIVATE string | HTTPGET int | PUT int | POST int | NOBODY int | CUSTOMREQUEST string
  | POSTFIELDSIZE nat | POSTFIELDS "byte list option" | RANGE string | HEADEROPT_UNIFIED
  | HTTPHEADER "string list"

record HandleInfo =
  handle_valid :: bool               \<comment> \<open>\<open>handle\<close> is not null\<close>
  request_hash :: string
  request_headers :: "string list"
  handle_options :: "setopt list"    \<comment> \<open>the calls on the easy handle, in order\<close>

definition method_options :: "RequestImpl \<Rightarrow> setopt list" where
  "method_options request =
     (if method_name request = GetMethod then [HTTPGET 1]
      else if method_name request = PutMethod then [PUT 1]
      else if method_name request = PostMethod then [POST 1]
      else if method_name request = HeadMethod then [HTTPGET 1, NOBODY 1]
      else [CUSTOMREQUEST (method_name request)])"

text \<open>\<open>ConstructHeaders\<close>: the calls it makes and the list it builds.\<close>

fun ConstructHeaders :: "(string \<times> string) list \<Rightarrow> setopt list \<times> string list" where
  "ConstructHeaders [] = ([], [])"
| "ConstructHeaders ((k, v) # hs) =
     (case ConstructHeaders hs of (opts, sl) \<Rightarrow>
        if k = ''Range'' then (RANGE v # opts, sl) else (opts, (k @ '': '' @ v) # sl))"

text \<open>\<open>ConstructCurlHandle\<close> on platforms other than Apple's; \<open>self\<close> stands for the task pointer.\<close>

definition ConstructCurlHandle :: "RequestImpl \<Rightarrow> nat \<Rightarrow> string \<Rightarrow> HandleInfo" where
  "ConstructCurlHandle request self h =
     (let data_opts = (case request_data request of (d, n) \<Rightarrow>
            if n \<noteq> 0 then [POSTFIELDSIZE n, POSTFIELDS d] else []);
          (header_opts, sl) = ConstructHeaders (headers request)
      in \<lparr>handle_valid = True, request_hash = h, request_headers = sl,
          handle_options =
            [URL (url request), FOLLOWLOCATION 1, WRITEFUNCTION, WRITEDATA self, HEADERFUNCTION,
             WRITEHEADER self, TIMEOUT 30, PRIVATE h]
            @ method_options request @ data_opts @ header_opts @ [HEADEROPT_UNIFIED, HTTPHEADER sl]\<rparr>)"

text \<open>The constructor, with the result of \<open>curl_easy_init\<close>: on a null handle \<open>curl_easy_setopt\<close> only returns an error.
  The destructor, with the calls it makes.\<close>

definition new_HandleInfo :: "bool \<Rightarrow> RequestImpl \<Rightarrow> nat \<Rightarrow> string \<Rightarrow> HandleInfo" where
  "new_HandleInfo init_ok request self h =
     (let info = ConstructCurlHandle request self h
      in if init_ok then info else info\<lparr>handle_valid := False, handle_options := []\<rparr>)"

datatype handle_free = Curl_slist_free_all "string list" | Curl_easy_cleanup

definition HandleInfo_destroy :: "HandleInfo \<Rightarrow> handle_free list" where
  "HandleInfo_destroy info =
     (if request_headers info \<noteq> [] then [Curl_slist_free_all (request_headers info)] else [])
     @ (if handle_valid info then [Curl_easy_cleanup] else [])"

section \<open>The task\<close>

record RequestTaskImpl =
  task_request :: RequestImpl
  task_cancelled :: bool
  task_handle :: HandleInfo
  task_response :: ResponseImpl
  task_identifier :: string
  task_metrics :: Metrics
  has_callback :: bool      \<comment> \<open>\<open>completion_callback_\<close> is not empty\<close>

definition new_RequestTaskImpl :: "RequestImpl \<Rightarrow> nat \<Rightarrow> bool \<Rightarrow> RequestTaskImpl res" where
  "new_RequestTaskImpl request self init_ok =
     res_bind (hash request) (\<lambda>h.
       Inr \<lparr>task_request = request, task_cancelled = False,
            task_handle = new_HandleInfo init_ok request self h, task_response = new_ResponseImpl,
            task_identifier = h, task_metrics = new_Metrics, has_callback = False\<rparr>)"

definition setCompletionCallback :: "RequestTaskImpl \<Rightarrow> bool \<Rightarrow> RequestTaskImpl" where
  "setCompletionCallback t cb = t\<lparr>has_callback := cb\<rparr>"

definition taskIdentifier :: "RequestTaskImpl \<Rightarrow> string" where
  "taskIdentifier t = task_identifier t"

definition isCancelled :: "RequestTaskImpl \<Rightarrow> bool" where
  "isCancelled t = task_cancelled t"

text \<open>What \<open>curl_easy_getinfo\<close> stores for each question of \<open>FillMetrics\<close>: the times in seconds, \<open>None\<close> where it
  returns an error and leaves the field as it is, and the byte counts.\<close>

record getinfo =
  namelookup_time :: "double option"
  connect_time :: "double option"
  appconnect_time :: "double option"
  pretransfer_time :: "double option"
  starttransfer_time :: "double option"
  total_time :: "double option"
  size_upload :: int
  size_download :: int

definition to_ms :: "double \<Rightarrow> double option \<Rightarrow> double" where
  "to_ms old answer = double_times (case answer of None \<Rightarrow> old | Some s \<Rightarrow> s) 1000"

definition FillMetrics :: "RequestTaskImpl \<Rightarrow> getinfo \<Rightarrow> 32 word \<Rightarrow> RequestTaskImpl" where
  "FillMetrics t info now_ms =
     (if \<not> handle_valid (task_handle t) then t else
      let m = task_metrics t
      in t\<lparr>task_metrics := m\<lparr>
           dns_time_ms := to_ms (dns_time_ms m) (namelookup_time info),
           connect_time_ms := to_ms (connect_time_ms m) (connect_time info),
           ssl_time_ms := to_ms (ssl_time_ms m) (appconnect_time info),
           pretransfer_time_ms := to_ms (pretransfer_time_ms m) (pretransfer_time info),
           transfer_start_time_ms := to_ms (transfer_start_time_ms m) (starttransfer_time info),
           totoal_time_ms := to_ms (totoal_time_ms m) (total_time info),
           send_byte_count := size_upload info, receive_byte_count := size_download info,
           request_end_ms := ucast now_ms\<rparr>\<rparr>)"

text \<open>\<open>DidFinished\<close> and \<open>DidCancelled\<close> return the task and the response handed to the callback, if any.\<close>

definition DidFinished ::
  "RequestTaskImpl \<Rightarrow> HttpStatusCode \<Rightarrow> ResponseCode \<Rightarrow> getinfo \<Rightarrow> 32 word
     \<Rightarrow> RequestTaskImpl \<times> ResponseImpl option" where
  "DidFinished t http_code rc info now_ms =
     (let t = FillMetrics t info now_ms;
          r = Construct (task_response t) (task_request t) http_code rc (task_metrics t);
          t = t\<lparr>task_response := r\<rparr>
      in (t, if has_callback t then Some r else None))"

definition DidCancelled :: "RequestTaskImpl \<Rightarrow> RequestTaskImpl \<times> ResponseImpl option" where
  "DidCancelled t =
     (let t = t\<lparr>task_cancelled := True\<rparr>;
          r = ResponseImpl_of (task_request t) StatusCodeInvalid UserCancel (task_metrics t) True
      in (t, if has_callback t then Some r else None))"

section \<open>Header callback\<close>

definition find_char :: "char \<Rightarrow> string \<Rightarrow> nat option" where
  "find_char c s = (if c \<in> set s then Some (length (takeWhile (\<lambda>x. x \<noteq> c) s)) else None)"

definition OnReceiveHeader :: "RequestTaskImpl \<Rightarrow> string \<Rightarrow> RequestTaskImpl" where
  "OnReceiveHeader t header =
     (let (key, val) = (case find_char CHR '':'' header of
             None \<Rightarrow> ([], [])
           | Some pos \<Rightarrow> (take pos header, drop (min (pos + 2) (length header)) header))
      in if key \<noteq> []
         then t\<lparr>task_response := (task_response t)\<lparr>response_headers :=
                  (response_headers (task_response t))(key \<mapsto> val)\<rparr>\<rparr>
         else t)"

text \<open>\<open>header_callback\<close>: what it returns to curl and the task after it; a null task pointer makes it
  return 0, which aborts the transfer.\<close>

definition header_callback ::
  "RequestTaskImpl option \<Rightarrow> string \<Rightarrow> nat \<times> RequestTaskImpl option" where
  "header_callback str data =
     (case str of None \<Rightarrow> (0, None) | Some t \<Rightarrow> (length data, Some (OnReceiveHeader t data)))"

text \<open>\<open>OnReceiveData\<close> only writes the length to the log.\<close>

definition OnReceiveData :: "RequestTaskImpl \<Rightarrow> string \<Rightarrow> RequestTaskImpl" where
  "OnReceiveData t data = t"

definition write_callback ::
  "RequestTaskImpl option \<Rightarrow> string \<Rightarrow> nat \<times> RequestTaskImpl option" where
  "write_callback str data =
     (case str of None \<Rightarrow> (0, None) | Some t \<Rightarrow> (length data, Some (OnReceiveData t data)))"

section \<open>Lemmas\<close>

lemma FillMetrics_simps [simp]:
  "task_request (FillMetrics t info now_ms) = task_request t" "task_cancelled (FillMetrics t info now_ms) = task_cancelled t"
  "task_handle (FillMetrics t info now_ms) = task_handle t" "task_response (FillMetrics t info now_ms) = task_response t"
  "task_identifier (FillMetrics t info now_ms) = task_identifier t" "has_callback (FillMetrics t info now_ms) = has_callback t"
  by (simp_all add: FillMetrics_def Let_def)

lemma new_HandleInfo_simps [simp]:
  "request_hash (new_HandleInfo init_ok r self h) = h" "handle_valid (new_HandleInfo init_ok r self h) = init_ok"
  by (simp_all add: new_HandleInfo_def ConstructCurlHandle_def Let_def split: prod.split)

lemma OnReceiveHeader_simps [simp]:
  "task_request (OnReceiveHeader t line) = task_request t" "task_handle (OnReceiveHeader t line) = task_handle t"
  "task_identifier (OnReceiveHeader t line) = task_identifier t" "has_callback (OnReceiveHeader t line) = has_callback t"
  "response_cancelled (task_response (OnReceiveHeader t line)) = response_cancelled (task_response t)"
  by (simp_all add: OnReceiveHeader_def Let_def split: prod.split)

section \<open>Properties\<close>

text \<open>What a sequence of header lines says about a key: the last line that starts with the key and a colon counts, and
  the value is what follows the character behind the colon. A line without a colon starts with no key and a colon,
  and the empty string is not a key.\<close>

definition starts_with_key :: "string \<Rightarrow> string \<Rightarrow> bool" where
  "starts_with_key k line \<longleftrightarrow> take (length k + 1) line = k @ '':''"

definition last_header :: "string list \<Rightarrow> string \<rightharpoonup> string" where
  "last_header lines k =
     (if k = [] \<or> CHR '':'' \<in> set k then None
      else case filter (starts_with_key k) (rev lines) of
             [] \<Rightarrow> None
           | line # _ \<Rightarrow> Some (drop (length k + 2) line))"

lemma last_header_Nil [simp]: "last_header [] = Map.empty"
  by (simp add: last_header_def fun_eq_iff)

lemma find_char_None: "find_char c s = None \<longleftrightarrow> c \<notin> set s"
  by (simp add: find_char_def)

lemma find_char_Some:
  assumes "find_char c s = Some n"
  shows "c \<notin> set (take n s)" "s = take n s @ c # drop (Suc n) s"
proof -
  have n: "c \<in> set s" "n = length (takeWhile (\<lambda>x. x \<noteq> c) s)" using assms by (auto simp: find_char_def split: if_splits)
  then obtain k rest where s: "s = k @ c # rest" "c \<notin> set k" by (meson split_list_first)
  then have "n = length k" using n(2) by (simp add: takeWhile_append)
  then show "c \<notin> set (take n s)" "s = take n s @ c # drop (Suc n) s" using s by simp_all
qed

text \<open>A line with a colon starts with one key and a colon only.\<close>

lemma starts_with_key_append:
  assumes "CHR '':'' \<notin> set k" "CHR '':'' \<notin> set k'"
  shows "starts_with_key k (k' @ CHR '':'' # v) \<longleftrightarrow> k = k'"
proof
  assume s: "starts_with_key k (k' @ CHR '':'' # v)"
  then obtain w where "k' @ CHR '':'' # v = k @ CHR '':'' # w"
    by (metis append_take_drop_id starts_with_key_def append.assoc append_Cons append_Nil)
  then show "k = k'" using assms by (auto simp: append_eq_append_conv2 append_eq_Cons_conv Cons_eq_append_conv)
qed (simp add: starts_with_key_def)

lemma last_header_snoc:
  "last_header (lines @ [line]) k =
     (if k \<noteq> [] \<and> CHR '':'' \<notin> set k \<and> starts_with_key k line then Some (drop (length k + 2) line)
      else last_header lines k)"
  by (simp add: last_header_def)

lemma OnReceiveHeader_headers:
  "response_headers (task_response (OnReceiveHeader t line)) k =
     (if k \<noteq> [] \<and> CHR '':'' \<notin> set k \<and> starts_with_key k line then Some (drop (length k + 2) line)
      else response_headers (task_response t) k)"
proof (cases "find_char CHR '':'' line")
  case None
  then have "CHR '':'' \<notin> set (take (length k + 1) line)" by (auto simp: find_char_None dest: in_set_takeD)
  then have "\<not> starts_with_key k line" by (auto simp: starts_with_key_def)
  with None show ?thesis by (simp add: OnReceiveHeader_def)
next
  case (Some n)
  let ?k = "take n line"
  note l = find_char_Some[OF Some]
  have len: "length ?k = n" using l(2) by (metis add_Suc_right append_take_drop_id find_char_def Some option.inject
    option.distinct(1) length_take min.absorb2 length_takeWhile_le)
  have "starts_with_key k line \<longleftrightarrow> k = ?k" if "CHR '':'' \<notin> set k"
    using starts_with_key_append[OF that l(1), of "drop (Suc n) line"] l(2) by simp
  moreover have "drop (min (n + 2) (length line)) line = drop (n + 2) line" by (simp add: min_def)
  ultimately show ?thesis using Some l(1) len by (auto simp: OnReceiveHeader_def)
qed

lemma last_header_dom: "finite (dom (last_header lines))"
proof (induction lines rule: rev_induct)
  case (snoc line lines)
  have "dom (last_header (lines @ [line])) \<subseteq> insert (takeWhile (\<lambda>x. x \<noteq> CHR '':'') line) (dom (last_header lines))"
  proof
    fix k
    assume k: "k \<in> dom (last_header (lines @ [line]))"
    show "k \<in> insert (takeWhile (\<lambda>x. x \<noteq> CHR '':'') line) (dom (last_header lines))"
    proof (cases "CHR '':'' \<notin> set k \<and> starts_with_key k line")
      case True
      then obtain w where "line = k @ CHR '':'' # w"
        by (metis append_take_drop_id starts_with_key_def append.assoc append_Cons append_Nil)
      then show ?thesis using True by (simp add: takeWhile_append)
    next
      case False
      then have "last_header (lines @ [line]) k = last_header lines k" by (auto simp: last_header_snoc)
      then show ?thesis using k by (simp add: domIff)
    qed
  qed
  then show ?case using snoc finite_subset by blast
qed simp

text \<open>Lines one after the other.\<close>

abbreviation set_headers :: "RequestTaskImpl \<Rightarrow> (string \<rightharpoonup> string) \<Rightarrow> RequestTaskImpl" where
  "set_headers t m \<equiv> t\<lparr>task_response := (task_response t)\<lparr>response_headers := m\<rparr>\<rparr>"

lemma OnReceiveHeader_only_headers: "OnReceiveHeader t line = set_headers t (response_headers (task_response (OnReceiveHeader t line)))"
  by (simp add: OnReceiveHeader_def Let_def split: prod.split)

lemma OnReceiveHeader_lines:
  "foldl OnReceiveHeader t lines = set_headers t (response_headers (task_response t) ++ last_header lines)"
proof (induction lines rule: rev_induct)
  case (snoc line lines)
  let ?t = "foldl OnReceiveHeader t lines"
  have "response_headers (task_response (OnReceiveHeader ?t line)) = response_headers (task_response t) ++ last_header (lines @ [line])"
    by (auto simp: fun_eq_iff OnReceiveHeader_headers last_header_snoc map_add_def snoc.IH)
  then show ?case using OnReceiveHeader_only_headers[of ?t line] snoc.IH by simp
qed simp

text \<open>The lines of a transfer, given to \<open>header_callback\<close> one after the other: what it returned and the task.\<close>

fun receive_headers :: "RequestTaskImpl option \<Rightarrow> string list \<Rightarrow> nat list \<times> RequestTaskImpl option" where
  "receive_headers t [] = ([], t)"
| "receive_headers t (line # lines) =
     (case header_callback t line of (n, t) \<Rightarrow> apfst ((#) n) (receive_headers t lines))"

text \<open>(C33) Response headers: curl may give any sequence of lines at all to \<open>header_callback\<close>. Each is consumed whole, and
  afterwards the response has for every key without a colon, the empty one excepted, the value of the last line that
  starts with the key and a colon: what follows the character behind the colon, line end included. A key that no
  line starts with keeps its value, so lines without a colon and lines that start with one are skipped, and nothing but
  the headers of the response changes. A line \<open>Key: value\<close> gives the value, a line without the space loses a character.\<close>

theorem header_lines_collected:
  "receive_headers (Some t) lines = (map length lines,
      Some (t\<lparr>task_response := (task_response t)\<lparr>response_headers := response_headers (task_response t) ++ last_header lines\<rparr>\<rparr>))
    \<and> (k = [] \<or> CHR '':'' \<in> set k \<or> last_header (lines @ [k @ '': '' @ v]) k = Some v
        \<and> last_header (lines @ [k @ '':'' @ v]) k = Some (drop 1 v))"
proof
  have "receive_headers (Some t) lines = (map length lines, Some (foldl OnReceiveHeader t lines))" for t
    by (induction lines arbitrary: t) (simp_all add: header_callback_def)
  then show "receive_headers (Some t) lines = (map length lines,
      Some (t\<lparr>task_response := (task_response t)\<lparr>response_headers := response_headers (task_response t) ++ last_header lines\<rparr>\<rparr>))"
    by (simp add: OnReceiveHeader_lines)
  show "k = [] \<or> CHR '':'' \<in> set k \<or> last_header (lines @ [k @ '': '' @ v]) k = Some v
        \<and> last_header (lines @ [k @ '':'' @ v]) k = Some (drop 1 v)"
    by (auto simp: last_header_snoc starts_with_key_def)
qed

text \<open>The curl handle: every header of the request except \<open>Range\<close> becomes one line \<open>Key: value\<close> of
  the header list, in order, and \<open>Range\<close> becomes the range option instead; the body is attached with
  its length exactly when it is not empty; and the hash under which the client finds the task again is
  stored in the handle.\<close>

theorem curl_handle_configured:
  "request_headers (ConstructCurlHandle r self h)
     = map (\<lambda>(k, v). k @ '': '' @ v) (filter (\<lambda>(k, v). k \<noteq> ''Range'') (headers r))
   \<and> set (handle_options (ConstructCurlHandle r self h)) \<supseteq>
       {URL (url r), PRIVATE h, HTTPHEADER (request_headers (ConstructCurlHandle r self h))}
   \<and> (\<forall>v. RANGE v \<in> set (handle_options (ConstructCurlHandle r self h)) \<longleftrightarrow> (''Range'', v) \<in> set (headers r))
   \<and> (\<forall>n. POSTFIELDSIZE n \<in> set (handle_options (ConstructCurlHandle r self h))
        \<longleftrightarrow> n = body_length r \<and> n \<noteq> 0)"
proof -
  have sl: "snd (ConstructHeaders hs) = map (\<lambda>(k, v). k @ '': '' @ v) (filter (\<lambda>(k, v). k \<noteq> ''Range'') hs)" for hs
    by (induction hs rule: ConstructHeaders.induct) (auto split: prod.splits)
  have opt: "set (fst (ConstructHeaders hs)) = RANGE ` {v. (''Range'', v) \<in> set hs}" for hs
    by (induction hs rule: ConstructHeaders.induct) (auto split: prod.splits)
  have m: "set (method_options r) \<subseteq> {HTTPGET 1, PUT 1, POST 1, NOBODY 1, CUSTOMREQUEST (method_name r)}"
    by (simp add: method_options_def)
  obtain opts sl' where c: "ConstructHeaders (headers r) = (opts, sl')" by fastforce
  have *: "sl' = map (\<lambda>(k, v). k @ '': '' @ v) (filter (\<lambda>(k, v). k \<noteq> ''Range'') (headers r))"
    "set opts = RANGE ` {v. (''Range'', v) \<in> set (headers r)}"
    using sl[of "headers r"] opt[of "headers r"] c by simp_all
  show ?thesis
    using m * by (auto simp: ConstructCurlHandle_def c request_data_def)
qed

lemma to_ms_error:
  assumes "0 \<le> s"
  shows "\<bar>to_ms old (Some s) - 1000 * s\<bar> \<le> s / 2 ^ 43"
  using fl_error[of "s * 1000"] assms by (simp add: to_ms_def double_times_def abs_mult mult.commute)

text \<open>The times in the metrics: every time in seconds that curl reports is stored in milliseconds with a relative error
  of at most \<open>2\<^sup>-\<^sup>5\<^sup>3\<close>, and when the six significant digits of the result fit the fixed notation, the number printed by
  \<open>metrics_dump_info\<close> is within a hundredth of a thousandth of a millisecond per millisecond. A task whose handle
  could not be created keeps its metrics.\<close>

theorem metrics_accuracy:
  assumes "handle_valid (task_handle t)" "total_time info = Some s" "0 < s"
    and "- 4 \<le> snd (sig6 (to_ms 0 (Some s)))" "snd (sig6 (to_ms 0 (Some s))) < 6"
  shows "(let m = task_metrics (FillMetrics t info now_ms) in
      \<bar>totoal_time_ms m - 1000 * s\<bar> \<le> s / 2 ^ 43
      \<and> (''totoal_time_ms: '', show_double (totoal_time_ms m)) \<in> set (metrics_lines m)
      \<and> \<bar>read_fixed (show_double (totoal_time_ms m)) - 1000 * s\<bar> \<le> s / 100
      \<and> request_start_ms m = request_start_ms (task_metrics t) \<and> request_end_ms m = ucast now_ms)
    \<and> (\<forall>u. \<not> handle_valid (task_handle u) \<longrightarrow> FillMetrics u info now_ms = u)"
proof -
  let ?x = "to_ms 0 (Some s)"
  have x: "totoal_time_ms (task_metrics (FillMetrics t info now_ms)) = ?x"
    using assms(1,2) by (simp add: FillMetrics_def Let_def to_ms_def)
  have pos: "0 < ?x" using assms(3) by (simp add: to_ms_def double_times_def fl_sign)
  have e: "\<bar>?x - 1000 * s\<bar> \<le> s / 2 ^ 43" using to_ms_error[of s 0] assms(3) by simp
  have p: "\<bar>read_fixed (show_double ?x) - ?x\<bar> \<le> ?x / 200000" by (rule show_double_accurate[OF pos assms(4,5)])
  have "\<bar>read_fixed (show_double ?x) - 1000 * s\<bar> \<le> s / 100"
    using e p assms(3) by (simp add: abs_if split: if_splits)
  with e x assms(1) show ?thesis by (auto simp: Let_def metrics_lines_def FillMetrics_def)
qed

definition quarter_second :: getinfo where
  "quarter_second = \<lparr>namelookup_time = None, connect_time = None, appconnect_time = None, pretransfer_time = None,
     starttransfer_time = None, total_time = Some (1 / 4), size_upload = 0, size_download = 0\<rparr>"

definition plain_task :: RequestTaskImpl where
  "plain_task = \<lparr>task_request = new_RequestImpl [] [], task_cancelled = False,
     task_handle = new_HandleInfo True (new_RequestImpl [] []) 0 [], task_response = new_ResponseImpl,
     task_identifier = [], task_metrics = new_Metrics, has_callback = False\<rparr>"

theorem metrics_accuracy_witness:
  "\<bar>read_fixed (show_double (totoal_time_ms (task_metrics (FillMetrics plain_task quarter_second 7)))) - 250\<bar> \<le> 1 / 400"
proof -
  have "sig6 (to_ms 0 (Some (1 / 4))) = (250000, 2)" by code_simp
  moreover have "handle_valid (task_handle plain_task)"
    by (simp add: plain_task_def)
  ultimately show ?thesis
    using metrics_accuracy[of plain_task quarter_second "1 / 4" 7] by (simp add: quarter_second_def Let_def)
qed

end
