(* ===== verification/Curl_Client.thy ===== *)
theory Curl_Client
  imports Request_Task
begin

text \<open>
  \<open>source/net/curl_client.cpp\<close>: the client that owns the request thread, the map from
  request hashes to tasks and the curl multi handle.

  Tasks are numbered in order of creation, and an easy handle is the number of its task. The client's
  state holds the tasks, \<open>request_task_map_\<close>, the handles added to the multi handle, the closures posted
  to the request thread and not yet run (in posting order), and the responses given to callbacks, in
  order. Tasks are never freed: the model is of callers that keep the task pointers they were given (a
  task that is dropped takes its easy handle out of the multi handle with it). curl is not part of the
  sources: what \<open>curl_multi_info_read\<close> returns is an argument; the adding and removing of handles is
  recorded.
\<close>

section \<open>Global state of curl\<close>

datatype global_call = GlobalInit | GlobalCleanup

text \<open>\<open>ConfigCurlGlobalState\<close>: the counter \<open>curl_clients_active\<close> and the calls made.\<close>

definition ConfigCurlGlobalState :: "int \<times> global_call list \<Rightarrow> bool \<Rightarrow> int \<times> global_call list" where
  "ConfigCurlGlobalState st added_client =
     (case st of (previous, calls) \<Rightarrow>
        let active = (if added_client then previous + 1
                      else if previous \<noteq> 0 then previous - 1 else previous)
        in (active,
            if previous = 0 \<and> active = 1 then calls @ [GlobalInit]
            else if previous = 1 \<and> active = 0 then calls @ [GlobalCleanup]
            else calls))"

section \<open>The client\<close>

datatype posted_closure = StartRequest_of string | CancelRequest_of string

record CurlClient =
  tasks :: "RequestTaskImpl list"
  request_task_map :: "string \<rightharpoonup> nat"
  multi_handles :: "nat set"
  posted :: "posted_closure list"
  delivered :: "(nat \<times> ResponseImpl) list"

definition new_CurlClient :: CurlClient where
  "new_CurlClient = \<lparr>tasks = [], request_task_map = Map.empty, multi_handles = {}, posted = [],
     delivered = []\<rparr>"

definition set_task :: "CurlClient \<Rightarrow> nat \<Rightarrow> RequestTaskImpl \<Rightarrow> CurlClient" where
  "set_task c i t = c\<lparr>tasks := (tasks c)[i := t]\<rparr>"

definition deliver :: "CurlClient \<Rightarrow> nat \<Rightarrow> ResponseImpl option \<Rightarrow> CurlClient" where
  "deliver c i r = (case r of None \<Rightarrow> c | Some r \<Rightarrow> c\<lparr>delivered := delivered c @ [(i, r)]\<rparr>)"

definition CleanupRequest :: "CurlClient \<Rightarrow> string \<Rightarrow> CurlClient" where
  "CleanupRequest c h = c\<lparr>request_task_map := (request_task_map c)(h := None)\<rparr>"

text \<open>\<open>TaskWithRequest\<close> returns the number of the new task; \<open>has_cb\<close> says whether the callback given is
  callable, \<open>init_ok\<close> whether \<open>curl_easy_init\<close> succeeds.\<close>

definition TaskWithRequest :: "CurlClient \<Rightarrow> RequestImpl \<Rightarrow> bool \<Rightarrow> bool \<Rightarrow> (nat \<times> CurlClient) res" where
  "TaskWithRequest c request has_cb init_ok =
     res_bind (hash request) (\<lambda>h.
       let i = length (tasks c) in
       res_bind (new_RequestTaskImpl request i init_ok) (\<lambda>t.
         Inr (i, c\<lparr>tasks := tasks c @ [setCompletionCallback t has_cb],
                   request_task_map := (request_task_map c)(h \<mapsto> i)\<rparr>)))"

text \<open>\<open>Resume\<close> and \<open>Cancel\<close> of a task whose client is alive post to the request thread through
  \<open>RequestTaskStart\<close> and \<open>RequestTaskCancel\<close>.\<close>

definition Resume :: "CurlClient \<Rightarrow> nat \<Rightarrow> 32 word \<Rightarrow> CurlClient" where
  "Resume c i now_ms =
     (let t = tasks c ! i;
          t = t\<lparr>task_metrics := (task_metrics t)\<lparr>request_start_ms := ucast now_ms\<rparr>\<rparr>
      in (set_task c i t)\<lparr>posted := posted c @ [StartRequest_of (task_identifier t)]\<rparr>)"

definition Cancel :: "CurlClient \<Rightarrow> nat \<Rightarrow> CurlClient" where
  "Cancel c i = c\<lparr>posted := posted c @ [CancelRequest_of (task_identifier (tasks c ! i))]\<rparr>"

definition PerformRequest ::
  "CurlClient \<Rightarrow> RequestImpl \<Rightarrow> bool \<Rightarrow> bool \<Rightarrow> 32 word \<Rightarrow> (nat \<times> CurlClient) res" where
  "PerformRequest c request has_cb init_ok now_ms =
     res_bind (TaskWithRequest c request has_cb init_ok) (\<lambda>(i, c). Inr (i, Resume c i now_ms))"

text \<open>\<open>curl_multi_add_handle\<close> and \<open>curl_multi_remove_handle\<close> return an error for a null handle, which the client
  ignores.\<close>

definition StartRequest :: "CurlClient \<Rightarrow> string \<Rightarrow> CurlClient" where
  "StartRequest c h =
     (case request_task_map c h of
        None \<Rightarrow> c
      | Some i \<Rightarrow>
          if handle_valid (task_handle (tasks c ! i)) then c\<lparr>multi_handles := insert i (multi_handles c)\<rparr> else c)"

definition CancelRequest :: "CurlClient \<Rightarrow> string \<Rightarrow> CurlClient" where
  "CancelRequest c h =
     (case request_task_map c h of
        None \<Rightarrow> c
      | Some i \<Rightarrow>
          (case DidCancelled (tasks c ! i) of (t, r) \<Rightarrow>
             let c = deliver (set_task c i t) i r in
             CleanupRequest (c\<lparr>multi_handles := multi_handles c - {i}\<rparr>) h))"

fun run_posted :: "CurlClient \<Rightarrow> posted_closure \<Rightarrow> CurlClient" where
  "run_posted c (StartRequest_of h) = StartRequest c h"
| "run_posted c (CancelRequest_of h) = CancelRequest c h"

text \<open>\<open>loop.RunForTime(10 ms)\<close> of the request thread: it runs the first \<open>k\<close> posted closures; what was
  posted after its last flush is discarded with the queue.\<close>

definition RunForTime_turn :: "CurlClient \<Rightarrow> nat \<Rightarrow> CurlClient" where
  "RunForTime_turn c k = foldl run_posted (c\<lparr>posted := []\<rparr>) (take k (posted c))"

text \<open>While a handle is in the multi handle, \<open>curl_multi_perform\<close> gives header lines to the callback, whose user data is
  the task of the handle.\<close>

definition receive_header :: "CurlClient \<Rightarrow> nat \<Rightarrow> string \<Rightarrow> CurlClient" where
  "receive_header c i line =
     (case header_callback (Some (tasks c ! i)) line of (_, Some t) \<Rightarrow> set_task c i t | (_, None) \<Rightarrow> c)"

section \<open>Messages of the multi handle\<close>

datatype CURLcode = CURLE_OK | CURLE_COULDNT_CONNECT | CURLE_OPERATION_TIMEDOUT | CURLE_other nat

fun ConvertCurlCode :: "CURLcode \<Rightarrow> ResponseCode" where
  "ConvertCurlCode CURLE_OK = OK"
| "ConvertCurlCode CURLE_COULDNT_CONNECT = ConnectToServerFailed"
| "ConvertCurlCode CURLE_OPERATION_TIMEDOUT = Timeout"
| "ConvertCurlCode (CURLE_other n) = UnknownError"

text \<open>A message: done or another kind, the easy handle, the result, the HTTP status (a \<open>long\<close>), what the
  handle tells \<open>FillMetrics\<close> and the clock. \<open>CURLINFO_PRIVATE\<close> of the handle is the hash stored in its \<open>HandleInfo\<close>.\<close>

record CURLMsg =
  msg_done :: bool
  easy_handle :: nat
  msg_result :: CURLcode
  msg_status :: int
  msg_info :: getinfo
  msg_now :: "32 word"

text \<open>\<open>request_task_map_[*request_hash]\<close> inserts a null task for a missing key, which is then
  dereferenced.\<close>

definition HandleMsg :: "CurlClient \<Rightarrow> CURLMsg \<Rightarrow> CurlClient res" where
  "HandleMsg c m =
     (if msg_done m
      then let h = request_hash (task_handle (tasks c ! easy_handle m)) in
           res_bind (map_deref (request_task_map c) h) (\<lambda>i.
             case DidFinished (tasks c ! i) (HttpStatusCode_of (msg_status m)) (ConvertCurlCode (msg_result m))
                    (msg_info m) (msg_now m) of (t, r) \<Rightarrow>
               let c = deliver (set_task c i t) i r;
                   c = c\<lparr>multi_handles := multi_handles c - {easy_handle m}\<rparr>
               in Inr (CleanupRequest c h))
      else Inr c)"

text \<open>The two halves of a done message: the callback, which runs without the mutex of the client, and what is removed
  after it. \<open>HandleMsg\<close> takes them as one step; only a submission that comes in between can tell.\<close>

definition finish_task :: "CurlClient \<Rightarrow> nat \<Rightarrow> CURLMsg \<Rightarrow> CurlClient" where
  "finish_task c i m =
     (case DidFinished (tasks c ! i) (HttpStatusCode_of (msg_status m)) (ConvertCurlCode (msg_result m))
             (msg_info m) (msg_now m) of (t, r) \<Rightarrow> deliver (set_task c i t) i r)"

definition forget_transfer :: "CurlClient \<Rightarrow> nat \<Rightarrow> string \<Rightarrow> CurlClient" where
  "forget_transfer c handle h = CleanupRequest (c\<lparr>multi_handles := multi_handles c - {handle}\<rparr>) h"

fun HandleCurlMsg :: "CurlClient \<Rightarrow> CURLMsg list \<Rightarrow> (bool \<times> CurlClient) res" where
  "HandleCurlMsg c [] = Inr (False, c)"
| "HandleCurlMsg c (m # ms) =
     res_bind (HandleMsg c m) (\<lambda>c. res_bind (HandleCurlMsg c ms) (\<lambda>(_, c). Inr (True, c)))"

text \<open>The destructor, after the request thread was joined.\<close>

definition CurlClient_destroy :: "CurlClient \<Rightarrow> CurlClient" where
  "CurlClient_destroy c =
     c\<lparr>multi_handles := multi_handles c - ran (request_task_map c), request_task_map := Map.empty\<rparr>"

section \<open>Waiting\<close>

text \<open>The call in which the request thread waits, and how often the function logs an error. The answers of
  curl and the system are arguments: a result code that is not 0 is an error.\<close>

datatype wait_call =
    Curl_multi_wait int          \<comment> \<open>timeout in milliseconds\<close>
  | Usleep nat                   \<comment> \<open>microseconds\<close>
  | Select int "int \<times> int"     \<comment> \<open>number of descriptors, seconds and microseconds\<close>

record wait_answers =
  multi_wait_res :: int
  fdset_res :: int
  fdset_max_fd :: int
  timeout_res :: int
  timeout_answer :: int
  select_res :: int

definition WaitMulti :: "int \<Rightarrow> wait_answers \<Rightarrow> wait_call \<times> nat" where
  "WaitMulti timeout_ms a = (Curl_multi_wait timeout_ms, if multi_wait_res a \<noteq> 0 then 1 else 0)"

text \<open>\<open>usleep\<close> takes a 32-bit \<open>useconds_t\<close>.\<close>

definition WaitFD :: "int \<Rightarrow> wait_answers \<Rightarrow> wait_call \<times> nat" where
  "WaitFD timeout_ms a =
     (let logged = (if fdset_res a \<noteq> 0 then 1 else 0) + (if timeout_res a \<noteq> 0 then 1 else 0);
          wait_time = (if timeout_answer a = - 1 then timeout_ms else timeout_answer a)
      in if fdset_max_fd a = - 1 then (Usleep (unat (word_of_int wait_time :: 32 word)), logged)
         else (Select (fdset_max_fd a + 1) (wait_time sdiv 1000, (wait_time smod 1000) * 1000),
               if select_res a < 0 then logged + 1 else logged))"

section \<open>The request thread\<close>

text \<open>What other threads do to the client while the request thread runs.\<close>

datatype client_call =
    CallTask RequestImpl bool bool
  | CallResume nat "32 word"
  | CallCancel nat

fun apply_call :: "CurlClient \<Rightarrow> client_call \<Rightarrow> CurlClient res" where
  "apply_call c (CallTask request has_cb init_ok) = res_bind (TaskWithRequest c request has_cb init_ok) (\<lambda>(_, c). Inr c)"
| "apply_call c (CallResume i now_ms) = Inr (Resume c i now_ms)"
| "apply_call c (CallCancel i) = Inr (Cancel c i)"

fun apply_calls :: "CurlClient \<Rightarrow> client_call list \<Rightarrow> CurlClient res" where
  "apply_calls c [] = Inr c"
| "apply_calls c (k # ks) = res_bind (apply_call c k) (\<lambda>c. apply_calls c ks)"

text \<open>One turn of the loop of \<open>Run\<close>: the value of \<open>is_terminated_\<close> at the test, the calls of other threads
  since the last turn, the active transfers that \<open>curl_multi_perform\<close> reports, the messages, how many of the
  posted closures \<open>RunForTime\<close> runs, the value of \<open>is_terminated_\<close> after it, and the answers of the wait.\<close>

record run_turn =
  seen_terminated :: bool
  arrived :: "client_call list"
  active_requests :: int
  messages :: "CURLMsg list"
  closures_run :: nat
  seen_terminated_idle :: bool
  answers :: wait_answers

text \<open>The result of a turn: whether \<open>Run\<close> returns, the wait made, the client.\<close>

definition Run_turn :: "bool \<Rightarrow> CurlClient \<Rightarrow> run_turn \<Rightarrow> (bool \<times> wait_call list \<times> CurlClient) res" where
  "Run_turn use_multi_wait c r =
     (if seen_terminated r then Inr (True, [], c) else
      res_bind (apply_calls c (arrived r)) (\<lambda>c.
      res_bind (HandleCurlMsg c (messages r)) (\<lambda>(handled, c).
      if handled then Inr (False, [], c) else
      let c = RunForTime_turn c (closures_run r) in
      if active_requests r > 0
      then Inr (False, [fst ((if use_multi_wait then WaitMulti else WaitFD) 100 (answers r))], c)
      else Inr (seen_terminated_idle r, [], c))))"

text \<open>\<open>Run\<close> over the turns observed; \<open>False\<close> says that it is still running after them.\<close>

fun CurlClient_Run ::
  "bool \<Rightarrow> CurlClient \<Rightarrow> run_turn list \<Rightarrow> (bool \<times> wait_call list \<times> CurlClient) res" where
  "CurlClient_Run use_multi_wait c [] = Inr (False, [], c)"
| "CurlClient_Run use_multi_wait c (r # rs) =
     res_bind (Run_turn use_multi_wait c r) (\<lambda>(returned, ws, c).
     if returned then Inr (True, ws, c)
     else res_bind (CurlClient_Run use_multi_wait c rs) (\<lambda>(returned, ws', c). Inr (returned, ws @ ws', c)))"

end
