(* ===== verification/Curl_Client_Laws.thy ===== *)
theory Curl_Client_Laws
  imports Curl_Client
begin

text \<open>
  The correctness of \<open>CurlClient\<close>: an invariant of its reachable states, which gives that no callback is
  called twice; completion of the task a message is about, one message at a time, for a batch of messages
  and over a whole run of the request thread; what happens when two requests share a hash, or when a callback submits
  its request again; the balance of
  curl's global initialisation; the timeouts of the waits.
\<close>

section \<open>Reachable clients\<close>

text \<open>The runs of a client. With \<open>u\<close>, no request is submitted while one with the same hash is still in
  the map. A message concerns a handle that is in the multi handle, and so does a header line.\<close>

inductive cl_reach :: "bool \<Rightarrow> CurlClient \<Rightarrow> bool" for u where
  start: "cl_reach u new_CurlClient"
| task: "cl_reach u c \<Longrightarrow> TaskWithRequest c r cb ok = Inr (i, c')
    \<Longrightarrow> (u \<Longrightarrow> \<forall>h. hash r = Inr h \<longrightarrow> request_task_map c h = None) \<Longrightarrow> cl_reach u c'"
| resume: "cl_reach u c \<Longrightarrow> i < length (tasks c) \<Longrightarrow> cl_reach u (Resume c i now_ms)"
| cancel: "cl_reach u c \<Longrightarrow> i < length (tasks c) \<Longrightarrow> cl_reach u (Cancel c i)"
| turn: "cl_reach u c \<Longrightarrow> cl_reach u (RunForTime_turn c k)"
| msg: "cl_reach u c \<Longrightarrow> easy_handle m \<in> multi_handles c \<Longrightarrow> HandleMsg c m = Inr c' \<Longrightarrow> cl_reach u c'"
| header: "cl_reach u c \<Longrightarrow> i \<in> multi_handles c \<Longrightarrow> cl_reach u (receive_header c i line)"

text \<open>A task's name never changes; a task in the map is there under its own name and its callback has
  not been called; no callback was called twice; no null handle is in the multi handle. With \<open>u\<close>, every handle in the multi handle is the one
  the map knows.\<close>

definition client_inv :: "bool \<Rightarrow> CurlClient \<Rightarrow> bool" where
  "client_inv u c \<longleftrightarrow>
     (\<forall>i<length (tasks c). request_hash (task_handle (tasks c ! i)) = task_identifier (tasks c ! i))
     \<and> (\<forall>h i. request_task_map c h = Some i \<longrightarrow> i < length (tasks c) \<and> task_identifier (tasks c ! i) = h
          \<and> i \<notin> fst ` set (delivered c))
     \<and> (\<forall>i\<in>multi_handles c. i < length (tasks c) \<and> handle_valid (task_handle (tasks c ! i)))
     \<and> (\<forall>i\<in>fst ` set (delivered c). i < length (tasks c))
     \<and> distinct (map fst (delivered c))
     \<and> (u \<longrightarrow> (\<forall>i\<in>multi_handles c. request_task_map c (task_identifier (tasks c ! i)) = Some i))"

text \<open>Two tasks that agree on everything the invariant reads.\<close>

definition same_name :: "RequestTaskImpl \<Rightarrow> RequestTaskImpl \<Rightarrow> bool" where
  "same_name t t' \<longleftrightarrow> task_identifier t = task_identifier t'
     \<and> task_handle t = task_handle t'"

lemma client_inv_set_task:
  assumes "client_inv u c" "same_name t (tasks c ! i)"
  shows "client_inv u (set_task c i t)"
proof (cases "i < length (tasks c)")
  case True
  have nth: "task_identifier ((tasks c)[i := t] ! j) = task_identifier (tasks c ! j)"
    "task_handle ((tasks c)[i := t] ! j) = task_handle (tasks c ! j)" for j
    using assms(2) True by (auto simp: nth_list_update same_name_def)
  show ?thesis using assms(1) by (simp add: client_inv_def set_task_def nth)
next
  case False
  then show ?thesis using assms(1) by (simp add: set_task_def list_update_beyond client_inv_def)
qed

lemma client_inv_posted: "client_inv u (c\<lparr>posted := ps\<rparr>) \<longleftrightarrow> client_inv u c"
  by (simp add: client_inv_def)

lemma deliver_simps [simp]:
  "tasks (deliver c i r) = tasks c" "request_task_map (deliver c i r) = request_task_map c"
  "multi_handles (deliver c i r) = multi_handles c"
  "set (delivered (deliver c i r)) = set (delivered c) \<union> (case r of None \<Rightarrow> {} | Some r \<Rightarrow> {(i, r)})"
  by (auto simp: deliver_def split: option.splits)

lemma set_task_simps [simp]:
  "request_task_map (set_task c i t) = request_task_map c" "multi_handles (set_task c i t) = multi_handles c"
  "delivered (set_task c i t) = delivered c" "length (tasks (set_task c i t)) = length (tasks c)"
  by (simp_all add: set_task_def)

text \<open>Delivering to the task under a name and removing the name, as finishing and cancelling do.\<close>

lemma client_inv_complete:
  assumes inv: "client_inv u c" and m: "request_task_map c h = Some i" and t: "same_name t (tasks c ! i)"
    and hs: "hs \<subseteq> multi_handles c" "u \<Longrightarrow> i \<notin> hs"
  shows "client_inv u (CleanupRequest ((deliver (set_task c i t) i r)\<lparr>multi_handles := hs\<rparr>) h)"
proof -
  have i: "i < length (tasks c)" "task_identifier (tasks c ! i) = h" "i \<notin> fst ` set (delivered c)"
    using inv m by (auto simp: client_inv_def)
  have nth: "task_identifier (tasks (set_task c i t) ! j) = task_identifier (tasks c ! j)"
    "task_handle (tasks (set_task c i t) ! j) = task_handle (tasks c ! j)" for j
    using t i(1) by (auto simp: nth_list_update same_name_def set_task_def)
  have d: "distinct (map fst (delivered (deliver (set_task c i t) i r)))"
    using inv i(3) by (auto simp: deliver_def client_inv_def split: option.splits)
  have ne: "k \<noteq> i" if "request_task_map c h' = Some k" "h' \<noteq> h" for h' k
    using inv that i(2) by (auto simp: client_inv_def)
  have u: "task_identifier (tasks c ! j) \<noteq> h \<and> request_task_map c (task_identifier (tasks c ! j)) = Some j"
    if "u" "j \<in> hs" for j
  proof -
    have "request_task_map c (task_identifier (tasks c ! j)) = Some j"
      using inv that hs(1) by (auto simp: client_inv_def)
    moreover have "j \<noteq> i" using that hs(2) by auto
    ultimately show ?thesis using m by auto
  qed
  show ?thesis
    using inv d ne u hs(1) i(1) nth unfolding client_inv_def CleanupRequest_def
    by (auto split: option.splits if_splits)
qed

lemma same_name_cancel: "DidCancelled t = (t', r) \<Longrightarrow> same_name t' t"
  by (auto simp: DidCancelled_def Let_def same_name_def)

lemma same_name_finish: "DidFinished t sc rc info now_ms = (t', r) \<Longrightarrow> same_name t' t"
  by (auto simp: DidFinished_def Let_def same_name_def)

lemma client_inv_task:
  assumes inv: "client_inv u c" and t: "TaskWithRequest c r cb ok = Inr (i, c')"
    and fresh: "u \<Longrightarrow> \<forall>h. hash r = Inr h \<longrightarrow> request_task_map c h = None"
  shows "client_inv u c'"
proof -
  obtain h where h: "hash r = Inr h" using t by (auto simp: TaskWithRequest_def res_simps)
  let ?t = "setCompletionCallback \<lparr>task_request = r, task_cancelled = False,
      task_handle = new_HandleInfo ok r (length (tasks c)) h, task_response = new_ResponseImpl,
      task_identifier = h, task_metrics = new_Metrics, has_callback = False\<rparr> cb"
  have c': "c' = c\<lparr>tasks := tasks c @ [?t],
      request_task_map := (request_task_map c)(h \<mapsto> length (tasks c))\<rparr>"
    using t h by (auto simp: TaskWithRequest_def new_RequestTaskImpl_def Let_def)
  have id: "task_identifier ?t = h" "request_hash (task_handle ?t) = h"
    by (simp_all add: setCompletionCallback_def ConstructCurlHandle_def Let_def split: prod.splits)
  have u: "request_task_map c h = None" if u using fresh h that by blast
  show ?thesis
    using inv u unfolding c' client_inv_def
    by (auto simp: nth_append id less_Suc_eq split: if_splits)
qed

lemma client_inv_run_posted: "client_inv u c \<Longrightarrow> client_inv u (run_posted c p)"
proof (cases p)
  case (StartRequest_of h)
  assume "client_inv u c"
  then show ?thesis using StartRequest_of
    by (auto simp: StartRequest_def client_inv_def split: option.splits)
next
  case (CancelRequest_of h)
  assume inv: "client_inv u c"
  show ?thesis
  proof (cases "request_task_map c h")
    case None
    with inv CancelRequest_of show ?thesis by (simp add: CancelRequest_def)
  next
    case (Some i)
    obtain t r where d: "DidCancelled (tasks c ! i) = (t, r)" by fastforce
    from client_inv_complete[OF inv Some same_name_cancel[OF d], of "multi_handles c - {i}" r]
    show ?thesis using CancelRequest_of Some d by (simp add: CancelRequest_def Let_def)
  qed
qed

lemma client_inv_turn: "client_inv u c \<Longrightarrow> client_inv u (RunForTime_turn c k)"
proof -
  assume inv: "client_inv u c"
  have "client_inv u (foldl run_posted c ps)" if "client_inv u c" for c ps
    using that by (induction ps arbitrary: c) (auto intro: client_inv_run_posted)
  then show ?thesis using inv by (simp add: RunForTime_turn_def client_inv_posted)
qed

text \<open>Handling a message about a handle: the task the map has under the handle's name is completed.\<close>

lemma HandleMsg_done:
  assumes "msg_done m" "request_hash (task_handle (tasks c ! easy_handle m)) = h"
    and "request_task_map c h = Some i"
  shows "\<exists>t r. DidFinished (tasks c ! i) (HttpStatusCode_of (msg_status m)) (ConvertCurlCode (msg_result m))
        (msg_info m) (msg_now m) = (t, r)
    \<and> HandleMsg c m = Inr (CleanupRequest ((deliver (set_task c i t) i r)
        \<lparr>multi_handles := multi_handles c - {easy_handle m}\<rparr>) h)"
  using assms by (auto simp: HandleMsg_def Let_def split: prod.splits)

lemma client_inv_msg:
  assumes inv: "client_inv u c" and e: "easy_handle m \<in> multi_handles c" and h: "HandleMsg c m = Inr c'"
  shows "client_inv u c'"
proof (cases "msg_done m")
  case True
  let ?h = "request_hash (task_handle (tasks c ! easy_handle m))"
  have id: "?h = task_identifier (tasks c ! easy_handle m)"
    using inv e by (auto simp: client_inv_def)
  obtain i where i: "request_task_map c ?h = Some i"
    using h True by (cases "request_task_map c ?h") (auto simp: HandleMsg_def Let_def)
  obtain t r where d: "DidFinished (tasks c ! i) (HttpStatusCode_of (msg_status m)) (ConvertCurlCode (msg_result m))
        (msg_info m) (msg_now m) = (t, r)"
    and c': "c' = CleanupRequest ((deliver (set_task c i t) i r)
        \<lparr>multi_handles := multi_handles c - {easy_handle m}\<rparr>) ?h"
    using HandleMsg_done[OF True refl i] h by auto
  show ?thesis
    unfolding c'
  proof (rule client_inv_complete[OF inv i same_name_finish[OF d]])
    assume u
    then have "request_task_map c ?h = Some (easy_handle m)"
      using inv e id by (auto simp: client_inv_def)
    with i show "i \<notin> multi_handles c - {easy_handle m}" by simp
  qed auto
next
  case False
  with inv h show ?thesis by (simp add: HandleMsg_def)
qed

lemma receive_header_task: "receive_header c i line = set_task c i (OnReceiveHeader (tasks c ! i) line)"
  by (simp add: receive_header_def header_callback_def)

lemma client_inv_header: "client_inv u c \<Longrightarrow> client_inv u (receive_header c i line)"
  unfolding receive_header_task
  by (rule client_inv_set_task) (simp_all add: same_name_def)

lemma cl_reach_inv: "cl_reach u c \<Longrightarrow> client_inv u c"
proof (induction rule: cl_reach.induct)
  case start
  show ?case by (simp add: client_inv_def new_CurlClient_def)
next
  case (task c r cb ok i c')
  show ?case using client_inv_task[OF task.IH task.hyps(2)] task.hyps(3) by blast
next
  case (resume c i now_ms)
  have "client_inv u (set_task c i t)" if "same_name t (tasks c ! i)" for t
    by (rule client_inv_set_task[OF resume.IH that])
  then show ?case by (simp add: Resume_def Let_def client_inv_posted same_name_def)
next
  case (cancel c i)
  then show ?case by (simp add: Cancel_def client_inv_posted)
next
  case (turn c k)
  show ?case by (rule client_inv_turn[OF turn.IH])
next
  case (msg c m c')
  show ?case by (rule client_inv_msg[OF msg.IH msg.hyps(2,3)])
next
  case (header c i line)
  show ?case by (rule client_inv_header[OF header.IH])
qed

text \<open>With \<open>u\<close>, a done message completes the task of its own handle.\<close>

definition response_to :: "CurlClient \<Rightarrow> CURLMsg \<Rightarrow> ResponseImpl \<Rightarrow> bool" where
  "response_to c m r \<longleftrightarrow> status_code r = HttpStatusCode_of (msg_status m) \<and> response_code r = ConvertCurlCode (msg_result m)
     \<and> response_request r = Some (task_request (tasks c ! easy_handle m))"

lemma HandleMsg_own:
  assumes "cl_reach True c" "easy_handle m \<in> multi_handles c" "msg_done m"
  shows "\<exists>c' t r. HandleMsg c m = Inr c' \<and> cl_reach True c' \<and> tasks c' = (tasks c)[easy_handle m := t]
    \<and> has_callback t = has_callback (tasks c ! easy_handle m)
    \<and> delivered c' = delivered c @ (if has_callback t then [(easy_handle m, r)] else []) \<and> response_to c m r
    \<and> multi_handles c' = multi_handles c - {easy_handle m} \<and> posted c' = posted c
    \<and> request_task_map c' = (request_task_map c)(task_identifier (tasks c ! easy_handle m) := None)"
proof -
  let ?i = "easy_handle m"
  let ?h = "task_identifier (tasks c ! ?i)"
  have id: "request_hash (task_handle (tasks c ! ?i)) = ?h" and m: "request_task_map c ?h = Some ?i"
    using cl_reach_inv[OF assms(1)] assms(2) by (auto simp: client_inv_def)
  obtain t r where d: "DidFinished (tasks c ! ?i) (HttpStatusCode_of (msg_status m)) (ConvertCurlCode (msg_result m))
        (msg_info m) (msg_now m) = (t, r)"
    and h: "HandleMsg c m = Inr (CleanupRequest ((deliver (set_task c ?i t) ?i r)
        \<lparr>multi_handles := multi_handles c - {?i}\<rparr>) ?h)"
    using HandleMsg_done[OF assms(3) id m] by auto
  have "has_callback t = has_callback (tasks c ! ?i)" "response_to c m (task_response t)"
    "r = (if has_callback t then Some (task_response t) else None)"
    using d by (auto simp: DidFinished_def Construct_def Let_def response_to_def)
  then show ?thesis
    using h cl_reach.msg[OF assms(1,2) h]
    by (intro exI[of _ "CleanupRequest ((deliver (set_task c ?i t) ?i r)
        \<lparr>multi_handles := multi_handles c - {?i}\<rparr>) ?h"] exI[of _ t] exI[of _ "task_response t"])
      (simp add: CleanupRequest_def deliver_def set_task_def)
qed

section \<open>Batches of messages\<close>

text \<open>What curl promises about the messages of one call of \<open>HandleCurlMsg\<close>: the done ones are about
  different handles, all in the multi handle.\<close>

definition msgs_ok :: "CurlClient \<Rightarrow> CURLMsg list \<Rightarrow> bool" where
  "msgs_ok c ms \<longleftrightarrow> distinct (map easy_handle (filter msg_done ms))
     \<and> (\<forall>m\<in>set ms. msg_done m \<longrightarrow> easy_handle m \<in> multi_handles c)"

text \<open>The completions a batch of messages calls for, and what a delivered response says.\<close>

definition completions :: "CurlClient \<Rightarrow> CURLMsg list \<Rightarrow> (nat \<times> HttpStatusCode \<times> ResponseCode) list" where
  "completions c ms = map (\<lambda>m. (easy_handle m, HttpStatusCode_of (msg_status m), ConvertCurlCode (msg_result m)))
     (filter (\<lambda>m. msg_done m \<and> has_callback (tasks c ! easy_handle m)) ms)"

definition completion_of :: "nat \<times> ResponseImpl \<Rightarrow> nat \<times> HttpStatusCode \<times> ResponseCode" where
  "completion_of d = (fst d, status_code (snd d), response_code (snd d))"

text \<open>Growth of a client: responses are only added, tasks are kept and their callbacks stay.\<close>

definition grows :: "CurlClient \<Rightarrow> CurlClient \<Rightarrow> bool" where
  "grows c c' \<longleftrightarrow> (\<exists>ds. delivered c' = delivered c @ ds) \<and> length (tasks c) \<le> length (tasks c')
     \<and> (\<forall>i<length (tasks c). has_callback (tasks c' ! i) = has_callback (tasks c ! i))"

lemma grows_refl [simp]: "grows c c"
  by (simp add: grows_def)

lemma grows_trans: "grows a b \<Longrightarrow> grows b c \<Longrightarrow> grows a c"
  by (force simp: grows_def)

lemma grows_update [simp]:
  "grows c (c'\<lparr>posted := ps\<rparr>) = grows c c'" "grows c (c'\<lparr>multi_handles := hs\<rparr>) = grows c c'"
  "grows c (c'\<lparr>request_task_map := rm\<rparr>) = grows c c'" "grows (c\<lparr>posted := ps\<rparr>) c' = grows c c'"
  by (simp_all add: grows_def)

lemma grows_set_task:
  assumes "has_callback t = has_callback (tasks c ! i)"
  shows "grows c (deliver (set_task c i t) i r)"
proof -
  have "has_callback ((tasks c)[i := t] ! j) = has_callback (tasks c ! j)" if "j < length (tasks c)" for j
    using assms that by (cases "j = i") simp_all
  then show ?thesis by (simp add: grows_def deliver_def set_task_def split: option.splits)
qed

text \<open>One done message at the head of a batch.\<close>

lemma handle_batch_done:
  assumes "cl_reach True c" "msgs_ok c (m # ms)" "msg_done m"
  shows "\<exists>c1 ds. HandleMsg c m = Inr c1 \<and> cl_reach True c1 \<and> grows c c1 \<and> msgs_ok c1 ms
    \<and> delivered c1 = delivered c @ ds \<and> map completion_of ds @ completions c1 ms = completions c (m # ms)
    \<and> multi_handles c1 = multi_handles c - {easy_handle m}"
proof -
  let ?i = "easy_handle m"
  have i: "?i \<in> multi_handles c" using assms(2,3) by (simp add: msgs_ok_def)
  then have len: "?i < length (tasks c)" using cl_reach_inv[OF assms(1)] by (simp add: client_inv_def)
  obtain c1 t r where c1: "HandleMsg c m = Inr c1" "cl_reach True c1" "tasks c1 = (tasks c)[?i := t]"
    "has_callback t = has_callback (tasks c ! ?i)" "response_to c m r"
    "delivered c1 = delivered c @ (if has_callback t then [(?i, r)] else [])"
    "multi_handles c1 = multi_handles c - {?i}"
    using HandleMsg_own[OF assms(1) i assms(3)] by blast
  have cb: "has_callback (tasks c1 ! j) = has_callback (tasks c ! j)" for j
    using c1(3,4) len by (auto simp: nth_list_update)
  have "?i \<notin> easy_handle ` set (filter msg_done ms)" using assms(2,3) by (simp add: msgs_ok_def)
  then have "easy_handle n \<noteq> ?i" if "n \<in> set ms" "msg_done n" for n
    using that by (simp add: image_iff) metis
  then have "msgs_ok c1 ms" using assms(2,3) by (auto simp: msgs_ok_def c1(7))
  moreover have "grows c c1" using c1(3,6) cb by (simp add: grows_def)
  moreover have "map completion_of (if has_callback t then [(?i, r)] else []) @ completions c1 ms = completions c (m # ms)"
    using assms(3) c1(4,5) cb by (simp add: completions_def completion_of_def response_to_def)
  ultimately show ?thesis using c1(1,2,6,7) by blast
qed

lemma handle_batch:
  assumes "cl_reach True c" "msgs_ok c ms"
  shows "\<exists>c' ds. HandleCurlMsg c ms = Inr (ms \<noteq> [], c') \<and> cl_reach True c' \<and> grows c c'
    \<and> delivered c' = delivered c @ ds \<and> map completion_of ds = completions c ms
    \<and> multi_handles c' = multi_handles c - easy_handle ` set (filter msg_done ms)"
  using assms
proof (induction ms arbitrary: c)
  case Nil
  then show ?case by (auto simp: completions_def)
next
  case (Cons m ms)
  show ?case
  proof (cases "msg_done m")
    case True
    obtain c1 ds1 where c1: "HandleMsg c m = Inr c1" "cl_reach True c1" "grows c c1" "msgs_ok c1 ms"
      "delivered c1 = delivered c @ ds1" "map completion_of ds1 @ completions c1 ms = completions c (m # ms)"
      "multi_handles c1 = multi_handles c - {easy_handle m}"
      using handle_batch_done[OF Cons.prems True] by blast
    from Cons.IH[OF c1(2,4)] obtain c' ds where c': "HandleCurlMsg c1 ms = Inr (ms \<noteq> [], c')"
      "cl_reach True c'" "grows c1 c'" "delivered c' = delivered c1 @ ds"
      "map completion_of ds = completions c1 ms"
      "multi_handles c' = multi_handles c1 - easy_handle ` set (filter msg_done ms)"
      by blast
    have "multi_handles c' = multi_handles c - easy_handle ` set (filter msg_done (m # ms))"
      using c'(6) c1(7) True by auto
    with c1(1,5,6) c'(1,2,4,5) grows_trans[OF c1(3) c'(3)] show ?thesis
      by (intro exI[of _ c'] exI[of _ "ds1 @ ds"]) simp
  next
    case False
    then have "msgs_ok c ms" using Cons.prems(2) by (simp add: msgs_ok_def)
    moreover have "HandleMsg c m = Inr c" "completions c (m # ms) = completions c ms"
      using False by (simp_all add: HandleMsg_def completions_def)
    ultimately show ?thesis using Cons.IH[OF Cons.prems(1)] False by auto
  qed
qed

section \<open>Runs of the request thread\<close>

lemma grows_run_posted: "grows c (run_posted c k)"
  by (cases k) (auto simp: StartRequest_def CancelRequest_def CleanupRequest_def DidCancelled_def Let_def
      grows_set_task split: option.splits)

lemma grows_turn: "grows c (RunForTime_turn c k)"
proof -
  have "grows a (foldl run_posted a ks)" for a ks
    by (induction ks arbitrary: a) (auto intro: grows_trans[OF grows_run_posted])
  from this[of "c\<lparr>posted := []\<rparr>"] show ?thesis by (simp add: RunForTime_turn_def)
qed

text \<open>Calls of other threads that the client allows: no request whose hash is still registered, no unknown
  task.\<close>

fun call_ok :: "CurlClient \<Rightarrow> client_call \<Rightarrow> bool" where
  "call_ok c (CallTask request has_cb init_ok) =
     (case hash request of Inl _ \<Rightarrow> False | Inr h \<Rightarrow> request_task_map c h = None)"
| "call_ok c (CallResume i now_ms) = (i < length (tasks c))"
| "call_ok c (CallCancel i) = (i < length (tasks c))"

fun calls_ok :: "CurlClient \<Rightarrow> client_call list \<Rightarrow> bool" where
  "calls_ok c [] = True"
| "calls_ok c (k # ks) = (call_ok c k \<and> (case apply_call c k of Inl _ \<Rightarrow> True | Inr c \<Rightarrow> calls_ok c ks))"

lemma apply_call_ok:
  assumes "cl_reach True c" "call_ok c k"
  shows "\<exists>c'. apply_call c k = Inr c' \<and> cl_reach True c' \<and> grows c c'"
proof (cases k)
  case (CallTask request has_cb init_ok)
  with assms(2) obtain h where h: "hash request = Inr h" "request_task_map c h = None"
    by (auto split: sum.splits)
  then obtain i c' where t: "TaskWithRequest c request has_cb init_ok = Inr (i, c')"
    by (auto simp: TaskWithRequest_def new_RequestTaskImpl_def Let_def)
  moreover have "grows c c'"
    using t h by (auto simp: TaskWithRequest_def new_RequestTaskImpl_def Let_def grows_def nth_append)
  ultimately show ?thesis
    using CallTask h cl_reach.task[OF assms(1) t] by simp
next
  case (CallResume i now_ms)
  have "grows c (set_task c i ((tasks c ! i)\<lparr>task_metrics := x\<rparr>))" for x
    using grows_set_task[of "(tasks c ! i)\<lparr>task_metrics := x\<rparr>" c i None] by (simp add: deliver_def)
  then show ?thesis
    using CallResume assms cl_reach.resume[OF assms(1), of i now_ms] by (simp add: Resume_def Let_def)
next
  case (CallCancel i)
  then show ?thesis using assms cl_reach.cancel[OF assms(1), of i] by (simp add: Cancel_def)
qed

lemma apply_calls_ok:
  assumes "cl_reach True c" "calls_ok c ks"
  shows "\<exists>c'. apply_calls c ks = Inr c' \<and> cl_reach True c' \<and> grows c c'"
  using assms
proof (induction ks arbitrary: c)
  case (Cons k ks)
  obtain c1 where c1: "apply_call c k = Inr c1" "cl_reach True c1" "grows c c1"
    using apply_call_ok[OF Cons.prems(1)] Cons.prems(2) by auto
  with Cons.prems(2) Cons.IH[OF c1(2)] show ?case by (auto intro: grows_trans)
qed auto

text \<open>What a turn is given, whether \<open>Run\<close> returns in it, and the same for a list of turns.\<close>

definition turn_ok :: "CurlClient \<Rightarrow> run_turn \<Rightarrow> bool" where
  "turn_ok c r \<longleftrightarrow> seen_terminated r \<or> calls_ok c (arrived r)
     \<and> (case apply_calls c (arrived r) of Inl _ \<Rightarrow> True | Inr c \<Rightarrow> msgs_ok c (messages r))"

definition turn_returns :: "run_turn \<Rightarrow> bool" where
  "turn_returns r \<longleftrightarrow> seen_terminated r
     \<or> messages r = [] \<and> active_requests r \<le> 0 \<and> seen_terminated_idle r"

fun run_ok :: "bool \<Rightarrow> CurlClient \<Rightarrow> run_turn list \<Rightarrow> bool" where
  "run_ok use_multi_wait c [] = True"
| "run_ok use_multi_wait c (r # rs) = (turn_ok c r \<and>
     (case Run_turn use_multi_wait c r of
        Inl _ \<Rightarrow> True
      | Inr (returned, _, c) \<Rightarrow> returned \<or> run_ok use_multi_wait c rs))"

text \<open>The tasks with a callback that a turn's messages report done.\<close>

definition done_tasks :: "CurlClient \<Rightarrow> run_turn \<Rightarrow> nat set" where
  "done_tasks c r = (if seen_terminated r then {} else
     {i. has_callback (tasks c ! i) \<and> i \<in> easy_handle ` set (filter msg_done (messages r))})"

lemma done_tasks_grow:
  assumes "grows c c'" "\<forall>m\<in>set (messages r). \<not> seen_terminated r \<and> msg_done m \<longrightarrow> easy_handle m < length (tasks c)"
  shows "done_tasks c' r = done_tasks c r"
  using assms by (force simp: done_tasks_def grows_def)

lemma run_turn_ok:
  assumes "cl_reach True c" "turn_ok c r"
  shows "\<exists>ws c'. Run_turn b c r = Inr (turn_returns r, ws, c') \<and> cl_reach True c' \<and> grows c c'
    \<and> done_tasks c' r \<subseteq> fst ` set (delivered c')
    \<and> (\<forall>m\<in>set (messages r). \<not> seen_terminated r \<and> msg_done m \<longrightarrow> easy_handle m < length (tasks c'))
    \<and> (b \<longrightarrow> set ws \<subseteq> {Curl_multi_wait 100})"
proof (cases "seen_terminated r")
  case True
  with assms(1) show ?thesis by (auto simp: Run_turn_def turn_returns_def done_tasks_def)
next
  case False
  with assms obtain c1 where c1: "apply_calls c (arrived r) = Inr c1" "cl_reach True c1" "grows c c1"
    using apply_calls_ok by (fastforce simp: turn_ok_def)
  have ok: "msgs_ok c1 (messages r)" using assms(2) False c1(1) by (simp add: turn_ok_def)
  obtain c2 ds where c2: "HandleCurlMsg c1 (messages r) = Inr (messages r \<noteq> [], c2)" "cl_reach True c2"
    "grows c1 c2" "delivered c2 = delivered c1 @ ds" "map completion_of ds = completions c1 (messages r)"
    using handle_batch[OF c1(2) ok] by blast
  show ?thesis
  proof (cases "messages r = []")
    case True
    let ?c = "RunForTime_turn c2 (closures_run r)"
    have "done_tasks ?c r = {}" using True by (simp add: done_tasks_def)
    moreover have "grows c ?c" "cl_reach True ?c"
      using grows_trans[OF grows_trans[OF c1(3) c2(3)] grows_turn] cl_reach.turn[OF c2(2)] by blast+
    ultimately show ?thesis
      using False True c1(1) c2(1) by (auto simp: Run_turn_def turn_returns_def Let_def WaitMulti_def)
  next
    case ne: False
    have fst: "map fst ds = map fst (completions c1 (messages r))"
      using arg_cong[OF c2(5), of "map fst"] by (simp add: completion_of_def comp_def)
    have len: "\<forall>m\<in>set (messages r). \<not> seen_terminated r \<and> msg_done m \<longrightarrow> easy_handle m < length (tasks c1)"
      using ok cl_reach_inv[OF c1(2)] by (auto simp: msgs_ok_def client_inv_def)
    have "done_tasks c2 r = fst ` set (completions c1 (messages r))"
      unfolding done_tasks_grow[OF c2(3) len] using False by (force simp: done_tasks_def completions_def)
    also have "\<dots> = fst ` set ds" using fst by (metis list.set_map)
    finally have "done_tasks c2 r \<subseteq> fst ` set (delivered c2)" using c2(4) by auto
    moreover have "\<forall>m\<in>set (messages r). \<not> seen_terminated r \<and> msg_done m \<longrightarrow> easy_handle m < length (tasks c2)"
      using len c2(3) by (force simp: grows_def)
    ultimately show ?thesis
      using False ne c1(1) c2(1,2) grows_trans[OF c1(3) c2(3)] by (auto simp: Run_turn_def turn_returns_def)
  qed
qed

lemma run_ok_completes:
  assumes "cl_reach True c" "run_ok b c rs"
  shows "\<exists>ws c'. CurlClient_Run b c rs = Inr (\<exists>r\<in>set rs. turn_returns r, ws, c') \<and> cl_reach True c' \<and> grows c c'
    \<and> (\<forall>r\<in>set (takeWhile (\<lambda>r. \<not> turn_returns r) rs). done_tasks c' r \<subseteq> fst ` set (delivered c'))
    \<and> (b \<longrightarrow> set ws \<subseteq> {Curl_multi_wait 100})"
  using assms
proof (induction rs arbitrary: c)
  case (Cons r rs)
  obtain ws1 c1 where c1: "Run_turn b c r = Inr (turn_returns r, ws1, c1)" "cl_reach True c1" "grows c c1"
    "done_tasks c1 r \<subseteq> fst ` set (delivered c1)"
    "\<forall>m\<in>set (messages r). \<not> seen_terminated r \<and> msg_done m \<longrightarrow> easy_handle m < length (tasks c1)"
    "b \<longrightarrow> set ws1 \<subseteq> {Curl_multi_wait 100}"
    using run_turn_ok[OF Cons.prems(1), of r b] Cons.prems(2) by auto
  show ?case
  proof (cases "turn_returns r")
    case True
    with c1 show ?thesis by auto
  next
    case False
    with Cons.prems(2) c1(1) have "run_ok b c1 rs" by simp
    from Cons.IH[OF c1(2) this] obtain ws2 c2 where c2:
      "CurlClient_Run b c1 rs = Inr (\<exists>r\<in>set rs. turn_returns r, ws2, c2)" "cl_reach True c2" "grows c1 c2"
      "\<forall>r\<in>set (takeWhile (\<lambda>r. \<not> turn_returns r) rs). done_tasks c2 r \<subseteq> fst ` set (delivered c2)"
      "b \<longrightarrow> set ws2 \<subseteq> {Curl_multi_wait 100}"
      by blast
    have "done_tasks c2 r \<subseteq> fst ` set (delivered c2)"
      unfolding done_tasks_grow[OF c2(3) c1(5)] using c1(4) c2(3)
      by (auto simp: grows_def image_Un)
    then show ?thesis
      using False c1(1,6) c2 grows_trans[OF c1(3) c2(3)] by auto
  qed
qed auto

text \<open>A client to which the same request is submitted once and twice, each time started before the next.\<close>

definition demo_request :: RequestImpl where
  "demo_request = new_RequestImpl ''u'' []"

definition demo_hash :: string where
  "demo_hash = concat (map hex_byte (fips_sha256 (to_bytes ''u'')))"

lemma demo_request_hash: "hash demo_request = Inr demo_hash"
proof -
  have "request_ok demo_request" by (simp add: demo_request_def new_RequestImpl_ok)
  moreover have "counted demo_request = []" "url demo_request = ''u''" "payload demo_request = []"
    by (simp_all add: demo_request_def new_RequestImpl_def counted_def payload_def)
  ultimately show ?thesis
    using sha256_eq[of "to_bytes ''u''"] by (simp add: hash_def amalgamation_eq demo_hash_def to_bytes_def)
qed

definition demo_task :: "nat \<Rightarrow> RequestTaskImpl" where
  "demo_task i = \<lparr>task_request = demo_request, task_cancelled = False,
     task_handle = new_HandleInfo True demo_request i demo_hash, task_response = new_ResponseImpl,
     task_identifier = demo_hash, task_metrics = new_Metrics, has_callback = True\<rparr>"

definition demo_created :: "CurlClient \<Rightarrow> CurlClient" where
  "demo_created c = c\<lparr>tasks := tasks c @ [demo_task (length (tasks c))],
     request_task_map := (request_task_map c)(demo_hash \<mapsto> length (tasks c))\<rparr>"

definition demo_submit :: "CurlClient \<Rightarrow> CurlClient" where
  "demo_submit c = RunForTime_turn (Resume (demo_created c) (length (tasks c)) 5) 1"

lemma demo_created: "TaskWithRequest c demo_request True True = Inr (length (tasks c), demo_created c)"
  by (simp add: TaskWithRequest_def demo_request_hash new_RequestTaskImpl_def demo_created_def demo_task_def
      setCompletionCallback_def Let_def)

lemma demo_submit_reach:
  assumes "cl_reach u c" "u \<Longrightarrow> request_task_map c demo_hash = None"
  shows "cl_reach u (demo_submit c)"
proof -
  have "cl_reach u (demo_created c)"
    using cl_reach.task[OF assms(1) demo_created] assms(2) by (simp add: demo_request_hash)
  then have "cl_reach u (Resume (demo_created c) (length (tasks c)) 5)"
    by (rule cl_reach.resume) (simp add: demo_created_def)
  then show ?thesis unfolding demo_submit_def by (rule cl_reach.turn)
qed

lemma demo_submit_state:
  assumes "posted c = []"
  shows "posted (demo_submit c) = []" "delivered (demo_submit c) = delivered c"
    "length (tasks (demo_submit c)) = Suc (length (tasks c))"
    "multi_handles (demo_submit c) = insert (length (tasks c)) (multi_handles c)"
    "request_task_map (demo_submit c) = (request_task_map c)(demo_hash \<mapsto> length (tasks c))"
    "j < length (tasks c) \<Longrightarrow> tasks (demo_submit c) ! j = tasks c ! j"
    "task_identifier (tasks (demo_submit c) ! length (tasks c)) = demo_hash"
    "has_callback (tasks (demo_submit c) ! length (tasks c))"
  using assms
  by (simp_all add: demo_submit_def RunForTime_turn_def Resume_def demo_created_def set_task_def Let_def
      StartRequest_def demo_task_def nth_append list_update_append)

definition demo_one :: CurlClient where "demo_one = demo_submit new_CurlClient"
definition demo_two :: CurlClient where "demo_two = demo_submit demo_one"

lemma demo_one:
  "cl_reach u demo_one" "posted demo_one = []" "delivered demo_one = []" "length (tasks demo_one) = 1"
  "multi_handles demo_one = {0}" "request_task_map demo_one = [demo_hash \<mapsto> 0]"
  "task_identifier (tasks demo_one ! 0) = demo_hash" "has_callback (tasks demo_one ! 0)"
proof -
  note s = demo_submit_state[of new_CurlClient, folded demo_one_def]
  have n: "posted new_CurlClient = []" "tasks new_CurlClient = []" "delivered new_CurlClient = []"
    "multi_handles new_CurlClient = {}" "request_task_map new_CurlClient = Map.empty"
    by (simp_all add: new_CurlClient_def)
  show "cl_reach u demo_one"
    unfolding demo_one_def by (rule demo_submit_reach[OF cl_reach.start]) (simp add: n)
  show "posted demo_one = []" "delivered demo_one = []" "length (tasks demo_one) = 1"
    "multi_handles demo_one = {0}" "request_task_map demo_one = [demo_hash \<mapsto> 0]"
    "task_identifier (tasks demo_one ! 0) = demo_hash" "has_callback (tasks demo_one ! 0)"
    using s n by simp_all
qed

lemma demo_two:
  "cl_reach False demo_two" "multi_handles demo_two = {0, 1}"
  "request_task_map demo_two = [demo_hash \<mapsto> 1]" "delivered demo_two = []"
  "task_identifier (tasks demo_two ! 0) = demo_hash" "task_identifier (tasks demo_two ! 1) = demo_hash"
  "has_callback (tasks demo_two ! 1)"
  using demo_submit_state[OF demo_one(2), folded demo_two_def] demo_one
    demo_submit_reach[OF demo_one(1)[of False], folded demo_two_def]
  by auto

definition demo_msg :: "nat \<Rightarrow> int \<Rightarrow> CURLMsg" where
  "demo_msg i status = \<lparr>msg_done = True, easy_handle = i, msg_result = CURLE_OK, msg_status = status,
     msg_info = quarter_second, msg_now = 9\<rparr>"

section \<open>Properties\<close>

text \<open>(C19) At most one callback per task: in every run of the client, whatever is cancelled, finished or
  submitted twice, no task's completion callback is called more than once, and no task still registered
  has been completed.\<close>

theorem callback_at_most_once:
  assumes "cl_reach u c"
  shows "distinct (map fst (delivered c))
    \<and> (\<forall>i\<in>ran (request_task_map c). i < length (tasks c) \<and> i \<notin> fst ` set (delivered c))"
  using cl_reach_inv[OF assms] by (auto simp: client_inv_def ran_def)

theorem callback_at_most_once_witness:
  "distinct (map fst (delivered demo_two)) \<and> 1 \<notin> fst ` set (delivered demo_two)"
  using callback_at_most_once[OF demo_two(1)] by (auto simp: demo_two(3))

text \<open>Completion when no two requests with the same hash are in flight: every message that curl
  reports done for a handle in the multi handle finds the task of that handle, hands that task's callback
  one response with the HTTP status of the message and the converted result code, and removes the handle
  and the registration of that task only.\<close>

theorem done_completes_own_task:
  assumes "cl_reach True c" "easy_handle m \<in> multi_handles c" "msg_done m"
    and "has_callback (tasks c ! easy_handle m)"
  shows "\<exists>c' r. HandleMsg c m = Inr c' \<and> delivered c' = delivered c @ [(easy_handle m, r)]
    \<and> status_code r = HttpStatusCode_of (msg_status m) \<and> response_code r = ConvertCurlCode (msg_result m)
    \<and> (response_code r = OK \<longleftrightarrow> msg_result m = CURLE_OK)
    \<and> response_request r = Some (task_request (tasks c ! easy_handle m))
    \<and> multi_handles c' = multi_handles c - {easy_handle m}
    \<and> request_task_map c' = (request_task_map c)(task_identifier (tasks c ! easy_handle m) := None)"
proof -
  have "ConvertCurlCode (msg_result m) = OK \<longleftrightarrow> msg_result m = CURLE_OK"
    by (cases "msg_result m") simp_all
  with HandleMsg_own[OF assms(1-3)] assms(4) show ?thesis by (auto simp: response_to_def)
qed

theorem done_completes_own_task_witness:
  "\<exists>c' r. HandleMsg demo_one (demo_msg 0 200) = Inr c' \<and> delivered c' = [(0, r)] \<and> status_code r = 200
    \<and> response_code r = OK \<and> request_task_map c' = Map.empty"
  using done_completes_own_task[OF demo_one(1), of "demo_msg 0 200"] demo_one
  by (auto simp: demo_msg_def)

text \<open>(C8) A batch of messages: when no two requests with the same hash are in flight, one call of
  \<open>HandleCurlMsg\<close> handles all queued messages without a fault and calls, in the order of the messages and
  once each, exactly the callbacks of the tasks reported done, each with the status and the converted
  result of its message; those handles leave the multi handle, and the result says whether there was a
  message.\<close>

theorem batch_completes_in_order:
  assumes "cl_reach True c" "msgs_ok c ms"
  shows "\<exists>c' ds. HandleCurlMsg c ms = Inr (ms \<noteq> [], c') \<and> delivered c' = delivered c @ ds
    \<and> map completion_of ds = completions c ms
    \<and> multi_handles c' = multi_handles c - easy_handle ` set (filter msg_done ms)"
  using handle_batch[OF assms] by blast

theorem batch_completes_in_order_witness:
  "\<exists>c'. HandleCurlMsg demo_one [(demo_msg 0 200)\<lparr>msg_done := False\<rparr>, demo_msg 0 404] = Inr (True, c')
    \<and> map completion_of (delivered c') = [(0, 404, OK)] \<and> multi_handles c' = {}"
  using batch_completes_in_order[OF demo_one(1), of "[(demo_msg 0 200)\<lparr>msg_done := False\<rparr>, demo_msg 0 404]"]
    demo_one
  by (auto simp: demo_msg_def msgs_ok_def completions_def)

text \<open>(C4) A run of the request thread, in which other threads submit, start and cancel tasks between the turns
  and no request is submitted while one with its hash is registered: the run has no fault, it returns
  exactly if some turn sees \<open>is_terminated_\<close> at one of its two tests, every task with a callback that
  curl reported done in a turn before that has had its callback called, no callback was called twice,
  responses are only added and the tasks keep their callbacks, and every wait is \<open>curl_multi_wait\<close> with 100
  milliseconds.\<close>

theorem run_completes_done_tasks:
  assumes "cl_reach True c" "run_ok True c rs"
  shows "\<exists>ws c'. CurlClient_Run True c rs = Inr (\<exists>r\<in>set rs. turn_returns r, ws, c')
    \<and> (\<forall>r\<in>set (takeWhile (\<lambda>r. \<not> turn_returns r) rs). done_tasks c' r \<subseteq> fst ` set (delivered c'))
    \<and> distinct (map fst (delivered c')) \<and> grows c c' \<and> set ws \<subseteq> {Curl_multi_wait 100}"
proof -
  obtain ws c' where r: "CurlClient_Run True c rs = Inr (\<exists>r\<in>set rs. turn_returns r, ws, c')" "cl_reach True c'"
    "grows c c'"
    "\<forall>r\<in>set (takeWhile (\<lambda>r. \<not> turn_returns r) rs). done_tasks c' r \<subseteq> fst ` set (delivered c')"
    "set ws \<subseteq> {Curl_multi_wait 100}"
    using run_ok_completes[OF assms] by auto
  from cl_reach_inv[OF r(2)] have "distinct (map fst (delivered c'))" by (simp add: client_inv_def)
  with r show ?thesis by blast
qed

text \<open>Three turns after a request was started: the thread waits, the transfer ends, the thread is told to
  stop.\<close>

definition demo_turn :: "client_call list \<Rightarrow> int \<Rightarrow> CURLMsg list \<Rightarrow> bool \<Rightarrow> run_turn" where
  "demo_turn ks n ms stop = \<lparr>seen_terminated = stop, arrived = ks, active_requests = n, messages = ms,
     closures_run = 1, seen_terminated_idle = False,
     answers = \<lparr>multi_wait_res = 0, fdset_res = 0, fdset_max_fd = - 1, timeout_res = 0, timeout_answer = - 1,
                select_res = 0\<rparr>\<rparr>"

definition demo_turns :: "run_turn list" where
  "demo_turns = [demo_turn [CallResume 0 7] 1 [] False, demo_turn [CallCancel 0] 0 [demo_msg 0 200] False,
     demo_turn [] 0 [] True]"

lemma demo_run_ok: "run_ok True demo_one demo_turns"
proof -
  have "turn_ok demo_one (demo_turn [CallResume 0 7] 1 [] False)"
    by (simp add: turn_ok_def demo_turn_def msgs_ok_def demo_one)
  moreover have "tasks demo_one \<noteq> []" using demo_one(4) by auto
  then have "\<exists>c. Run_turn True demo_one (demo_turn [CallResume 0 7] 1 [] False) = Inr (False, [Curl_multi_wait 100], c)
      \<and> 0 < length (tasks c) \<and> 0 \<in> multi_handles c"
    by (simp add: Run_turn_def demo_turn_def Let_def WaitMulti_def Resume_def RunForTime_turn_def demo_one
        StartRequest_def set_task_def split: option.splits)
  moreover have "turn_ok c (demo_turn [CallCancel 0] 0 [demo_msg 0 200] False)"
    if "0 < length (tasks c)" "0 \<in> multi_handles c" for c
    using that by (simp add: turn_ok_def demo_turn_def msgs_ok_def demo_msg_def Cancel_def)
  moreover have "turn_ok d (demo_turn [] 0 [] True)" for d by (simp add: turn_ok_def demo_turn_def)
  ultimately show ?thesis by (auto simp: demo_turns_def split: sum.splits)
qed

theorem run_completes_done_tasks_witness:
  "\<exists>ws c'. CurlClient_Run True demo_one demo_turns = Inr (True, ws, c') \<and> 0 \<in> fst ` set (delivered c')
    \<and> distinct (map fst (delivered c'))"
  using run_completes_done_tasks[OF demo_one(1) demo_run_ok] demo_one
  by (auto simp: demo_turns_def turn_returns_def done_tasks_def demo_turn_def demo_msg_def grows_def)

text \<open>The wait of \<open>WaitFD\<close>, for a time below \<open>2\<^sup>3\<^sup>2\<close> milliseconds that is curl's answer or, without one, the
  default: with descriptors, \<open>select\<close> gets exactly that time as normalised seconds and microseconds; without,
  \<open>usleep\<close> gets the number of milliseconds as microseconds, a thousandth of the time.\<close>

theorem wait_fd_time:
  assumes "wait_time = (if timeout_answer a = - 1 then timeout_ms else timeout_answer a)"
    and "0 \<le> wait_time" "wait_time < 2 ^ 32"
  shows "(fdset_max_fd a \<noteq> - 1 \<longrightarrow> (\<exists>s us. fst (WaitFD timeout_ms a) = Select (fdset_max_fd a + 1) (s, us)
      \<and> s * 1000000 + us = wait_time * 1000 \<and> 0 \<le> us \<and> us < 1000000))
    \<and> (fdset_max_fd a = - 1 \<longrightarrow> fst (WaitFD timeout_ms a) = Usleep (nat wait_time))"
proof -
  have "wait_time sdiv 1000 * 1000000 + wait_time smod 1000 * 1000 = wait_time * 1000"
    using signed_division_class.sdiv_mult_smod_eq[of wait_time 1000] by simp
  moreover have "wait_time smod 1000 = wait_time mod 1000"
    using assms(2) by (cases "wait_time = 0") (simp_all add: signed_modulo_int_def)
  moreover have "unat (word_of_int wait_time :: 32 word) = nat wait_time"
    using assms(2,3) by (simp add: unsigned_of_int take_bit_int_eq_self)
  ultimately show ?thesis using assms by (auto simp: WaitFD_def Let_def)
qed

theorem wait_fd_time_witness:
  "fst (WaitFD 100 (answers (demo_turn [] 0 [] False))) = Usleep 100
   \<and> (\<exists>s us. fst (WaitFD 1500 ((answers (demo_turn [] 0 [] False))\<lparr>fdset_max_fd := 7\<rparr>)) = Select 8 (s, us)
        \<and> s * 1000000 + us = 1500000)"
  using wait_fd_time[of 100 "answers (demo_turn [] 0 [] False)" 100]
    wait_fd_time[of 1500 "(answers (demo_turn [] 0 [] False))\<lparr>fdset_max_fd := 7\<rparr>" 1500]
  by (auto simp: demo_turn_def)

text \<open>(C28) Two requests with the same hash in flight, whose tasks the caller keeps: if the first is
  already running when the second is submitted and started, the end of the first calls the callback of the second, with the status of the
  first, and the end of the second then dereferences a null task.\<close>

theorem duplicate_hash_crashes:
  assumes "cl_reach u c" "i \<in> multi_handles c" "j \<in> multi_handles c" "i \<noteq> j"
    and "task_identifier (tasks c ! i) = task_identifier (tasks c ! j)"
    and "request_task_map c (task_identifier (tasks c ! j)) = Some j" "has_callback (tasks c ! j)"
    and "msg_done m" "easy_handle m = i" "msg_done m'" "easy_handle m' = j"
  shows "\<exists>c' r. HandleMsg c m = Inr c' \<and> delivered c' = delivered c @ [(j, r)]
    \<and> status_code r = HttpStatusCode_of (msg_status m) \<and> j \<in> multi_handles c' \<and> HandleMsg c' m' = Inl NullDeref"
proof -
  let ?h = "task_identifier (tasks c ! j)"
  have inv: "client_inv u c" by (rule cl_reach_inv[OF assms(1)])
  have id: "request_hash (task_handle (tasks c ! easy_handle m)) = ?h"
    "request_hash (task_handle (tasks c ! j)) = ?h" "j < length (tasks c)"
    using inv assms(2,3,5,9) by (auto simp: client_inv_def)
  obtain t r where d: "DidFinished (tasks c ! j) (HttpStatusCode_of (msg_status m)) (ConvertCurlCode (msg_result m))
        (msg_info m) (msg_now m) = (t, r)"
    and h: "HandleMsg c m = Inr (CleanupRequest ((deliver (set_task c j t) j r)
        \<lparr>multi_handles := multi_handles c - {easy_handle m}\<rparr>) ?h)"
    using HandleMsg_done[OF assms(8) id(1) assms(6)] by auto
  let ?c = "CleanupRequest ((deliver (set_task c j t) j r)
        \<lparr>multi_handles := multi_handles c - {easy_handle m}\<rparr>) ?h"
  obtain r' where r: "r = Some r'" "status_code r' = HttpStatusCode_of (msg_status m)"
    using d assms(7) by (auto simp: DidFinished_def Construct_def Let_def)
  have "request_hash (task_handle (tasks ?c ! j)) = ?h"
    using same_name_finish[OF d] id(2,3) by (simp add: CleanupRequest_def set_task_def same_name_def)
  then have "HandleMsg ?c m' = Inl NullDeref"
    using assms(10,11) by (simp add: HandleMsg_def CleanupRequest_def)
  with h r show ?thesis
    using assms(3,4,9) by (simp add: CleanupRequest_def deliver_def)
qed

theorem duplicate_hash_crashes_witness:
  "\<exists>c' r. HandleMsg demo_two (demo_msg 0 404) = Inr c' \<and> delivered c' = [(1, r)] \<and> status_code r = 404
    \<and> HandleMsg c' (demo_msg 1 200) = Inl NullDeref"
  using duplicate_hash_crashes[OF demo_two(1), of 0 1 "demo_msg 0 404" "demo_msg 1 200"] demo_two
  by (auto simp: demo_msg_def)

text \<open>Destruction: when no two requests with the same hash are in flight, the destructor takes every handle out
  of the multi handle and forgets every task, and the callbacks of the tasks still registered are never
  called.\<close>

theorem destroy_drops_pending:
  assumes "cl_reach True c"
  shows "multi_handles (CurlClient_destroy c) = {} \<and> request_task_map (CurlClient_destroy c) = Map.empty
    \<and> delivered (CurlClient_destroy c) = delivered c
    \<and> ran (request_task_map c) \<inter> fst ` set (delivered (CurlClient_destroy c)) = {}"
  using cl_reach_inv[OF assms] by (auto simp: CurlClient_destroy_def client_inv_def ran_def)

theorem destroy_drops_pending_witness:
  "multi_handles (CurlClient_destroy demo_one) = {} \<and> delivered (CurlClient_destroy demo_one) = []"
  using destroy_drops_pending[OF demo_one(1)] demo_one by simp

text \<open>A start that is lost: when a task's start is posted after the last flush of a turn, the turn discards it,
  and the task stays registered, is not in the multi handle and has nothing posted that would start it.\<close>

theorem start_lost:
  assumes "cl_reach u c" "request_task_map c h = Some i" "i \<notin> multi_handles c" "posted c = []"
  shows "posted (RunForTime_turn (Resume c i now_ms) 0) = []
    \<and> request_task_map (RunForTime_turn (Resume c i now_ms) 0) h = Some i
    \<and> i \<notin> multi_handles (RunForTime_turn (Resume c i now_ms) 0)
    \<and> StartRequest_of h \<in> set (posted (Resume c i now_ms))"
  using assms cl_reach_inv[OF assms(1)]
  by (auto simp: RunForTime_turn_def Resume_def Let_def set_task_def client_inv_def)

theorem start_lost_witness:
  "posted (RunForTime_turn (Resume (demo_created new_CurlClient) 0 5) 0) = []
   \<and> 0 \<notin> multi_handles (RunForTime_turn (Resume (demo_created new_CurlClient) 0 5) 0)"
proof -
  have "cl_reach False (demo_created new_CurlClient)"
    using cl_reach.task[OF cl_reach.start demo_created] by simp
  from start_lost[OF this, of demo_hash 0 5] show ?thesis
    by (simp add: demo_created_def new_CurlClient_def)
qed

text \<open>Global initialisation: whatever sequence of clients is created and destroyed, in the order in
  which \<open>ConfigCurlGlobalState\<close> runs, curl's global initialisation and cleanup calls alternate, starting
  with an initialisation, and curl is initialised exactly while some client exists.\<close>

theorem curl_global_balanced:
  assumes "foldl ConfigCurlGlobalState (0, []) bs = (n, calls)"
  shows "0 \<le> n \<and> (\<exists>k. calls = concat (replicate k [GlobalInit, GlobalCleanup])
    @ (if n > 0 then [GlobalInit] else []))"
  using assms
proof (induction bs arbitrary: n calls rule: rev_induct)
  case Nil
  then show ?case by (auto intro!: exI[of _ 0])
next
  case (snoc b bs)
  obtain n' calls' where p: "foldl ConfigCurlGlobalState (0, []) bs = (n', calls')" by fastforce
  from snoc.IH[OF p] obtain k where k: "0 \<le> n'"
    "calls' = concat (replicate k [GlobalInit, GlobalCleanup]) @ (if n' > 0 then [GlobalInit] else [])"
    by blast
  have s: "(n, calls) = ConfigCurlGlobalState (n', calls') b" using snoc.prems p by simp
  have Suc: "concat (replicate (Suc k) [GlobalInit, GlobalCleanup])
      = concat (replicate k [GlobalInit, GlobalCleanup]) @ [GlobalInit, GlobalCleanup]"
    by (simp flip: replicate_append_same)
  show ?case
  proof (cases "\<not> b \<and> n' = 1")
    case True
    then have "calls = concat (replicate (Suc k) [GlobalInit, GlobalCleanup])" "n = 0"
      using s k(2) unfolding Suc by (auto simp: ConfigCurlGlobalState_def Let_def)
    then show ?thesis by (auto intro!: exI[of _ "Suc k"])
  next
    case False
    then show ?thesis
      using s k by (intro conjI exI[of _ k]) (auto simp: ConfigCurlGlobalState_def Let_def split: if_splits)
  qed
qed

theorem curl_global_balanced_witness:
  "\<exists>k. snd (foldl ConfigCurlGlobalState (0, []) [True, True, False, False, True])
     = concat (replicate k [GlobalInit, GlobalCleanup]) @ [GlobalInit]"
proof -
  have e: "foldl ConfigCurlGlobalState (0, []) [True, True, False, False, True]
      = (1, [GlobalInit, GlobalCleanup, GlobalInit])"
    by (simp add: ConfigCurlGlobalState_def)
  from curl_global_balanced[OF e] e show ?thesis by simp
qed

lemma HandleMsg_halves:
  "HandleMsg c m =
     (if msg_done m
      then let h = request_hash (task_handle (tasks c ! easy_handle m)) in
           res_bind (map_deref (request_task_map c) h) (\<lambda>i. Inr (forget_transfer (finish_task c i m) (easy_handle m) h))
      else Inr c)"
proof (cases "map_deref (request_task_map c) (request_hash (task_handle (tasks c ! easy_handle m)))")
  case (Inr i)
  then show ?thesis by (simp add: HandleMsg_def finish_task_def forget_transfer_def Let_def split: prod.split)
qed (simp add: HandleMsg_def Let_def)

text \<open>A retry from the completion callback is lost. A request with the hash of the finished one, submitted and started while
  the callback runs, is registered under the hash that is removed right after it: the closure that was to start it finds no
  task, so it is never transferred and its callback is never called.\<close>

theorem retry_in_callback_lost:
  assumes "cl_reach u c" "request_task_map c h = Some i" "hash r = Inr h"
    and "TaskWithRequest (finish_task c i m) r cb ok = Inr (j, c1)" "c' = forget_transfer (Resume c1 j now_ms) e h"
  shows "request_task_map c1 h = Some j \<and> request_task_map c' h = None \<and> j \<notin> multi_handles c' \<and> j \<notin> fst ` set (delivered c')
    \<and> posted c' = posted c @ [StartRequest_of h] \<and> run_posted c' (StartRequest_of h) = c'"
proof -
  have inv: "client_inv u c" by (rule cl_reach_inv[OF assms(1)])
  obtain t x where d: "finish_task c i m = deliver (set_task c i t) i x"
    by (cases "DidFinished (tasks c ! i) (HttpStatusCode_of (msg_status m)) (ConvertCurlCode (msg_result m)) (msg_info m) (msg_now m)")
      (simp add: finish_task_def)
  then have f: "multi_handles (finish_task c i m) = multi_handles c" "posted (finish_task c i m) = posted c"
    "length (tasks (finish_task c i m)) = length (tasks c)" "fst ` set (delivered (finish_task c i m)) \<subseteq> insert i (fst ` set (delivered c))"
    by (auto simp: deliver_def set_task_def split: option.splits)
  have i: "i < length (tasks c)" using inv assms(2) by (simp add: client_inv_def)
  obtain t' where c1: "j = length (tasks c)" "request_task_map c1 = (request_task_map (finish_task c i m))(h \<mapsto> j)"
    "tasks c1 = tasks (finish_task c i m) @ [t']" "task_identifier t' = h" "multi_handles c1 = multi_handles c"
    "posted c1 = posted c" "delivered c1 = delivered (finish_task c i m)"
    using assms(3,4) f by (auto simp: TaskWithRequest_def new_RequestTaskImpl_def setCompletionCallback_def Let_def)
  have "j \<notin> multi_handles c" "j \<notin> insert i (fst ` set (delivered c))"
    using inv i unfolding c1(1) by (auto simp: client_inv_def)
  then show ?thesis
    using c1 f(3,4) by (auto simp: assms(5) forget_transfer_def CleanupRequest_def Resume_def Let_def set_task_def StartRequest_def
        nth_append)
qed

end
