(* ===== verification/Client_Loop.thy ===== *)
theory Client_Loop
  imports Task_Runner_Laws Curl_Client
begin

text \<open>
  The request thread's message loop as \<open>CurlClient\<close> uses it. \<open>Curl_Client\<close> keeps the closures posted to the
  request thread in the list \<open>posted\<close> and models \<open>loop.RunForTime\<close> by \<open>RunForTime_turn\<close>. Here the same is done
  by \<open>TaskRunner::PostTask\<close> and \<open>DoRunForTime\<close> of the message loop, and the lemmas show that the list is an
  abstraction of the task queue: a simulation relation that posting and running preserve.
\<close>

section \<open>The queue while the loop runs\<close>

lemma fifo_Now:
  assumes "fifo m n l cs p"
  shows "fifo m n l cs (snd (Now p))"
proof -
  have "t \<le> fst (Now (snd (Now p)))" if "t \<le> fst (Now p)" for t
    using assms that Now_later[of p] by (auto simp: fifo_def intro: order_trans)
  moreover have "proc_inv m (snd (Now p))" using assms by (simp add: fifo_def proc_inv_def)
  ultimately show ?thesis using assms by (auto simp: fifo_def clock_sane_def)
qed

lemma fifo_user [simp]: "fifo m n l cs (p\<lparr>user := u\<rparr>) = fifo m n l cs p"
proof -
  have "proc_inv m (p\<lparr>user := u\<rparr>) = proc_inv m p" by (simp add: proc_inv_def)
  then show ?thesis by (simp add: fifo_def clock_sane_def Now_def)
qed

lemma fifo_running:
  assumes "fifo m n l cs p" "loops p l = Some lp"
  shows "fifo m n l cs (set_loop p l (lp\<lparr>running := b\<rparr>))"
proof -
  have "proc_inv m (set_loop p l (lp\<lparr>running := b\<rparr>))"
    using assms by (auto simp: fifo_def intro: proc_inv_loop_only)
  then show ?thesis using assms by (simp add: fifo_def clock_sane_def Now_def)
qed

lemma fifo_loop: "fifo m n l cs p \<Longrightarrow> \<exists>lp. loops p l = Some lp \<and> \<not> terminated lp"
  by (auto simp: fifo_def)

lemma fifo_clock: "fifo m n l cs p \<Longrightarrow> clock_sane p"
  by (simp add: fifo_def)

text \<open>A flush of a queue of plain closures.\<close>

lemma flush_plain:
  assumes "fifo m n l cs p" "\<forall>c\<in>set cs. plain call f c"
  shows "\<exists>p'. RunExpiredTasksNow call p l = Inr p' \<and> fifo m n l [] p' \<and> user p' = foldl f (user p) cs
    \<and> clock p' = clock p \<and> clock_reads p' = clock_reads p + 1
    \<and> map_option running (loops p' l) = map_option running (loops p l)"
proof -
  obtain p' qid where p': "RunExpiredTasksNow call p l = run_invocations call qid (map Some cs) p'"
    "fifo m n l [] p'" "user p' = user p" "GetObserversToNotify (queues p') qid = Inr []" "clock p' = clock p"
    "clock_reads p' = clock_reads p + 1" "map_option running (loops p' l) = map_option running (loops p l)"
    using flush_fifo[OF assms(1), of call] by blast
  then show ?thesis using run_invocations_plain[OF assms(2) p'(4), of "[]"] by simp
qed

lemma dispose_fifo:
  assumes "fifo m n l cs p"
  shows "\<exists>p'. DisposeTasks_of p l = Inr p' \<and> fifo m n l [] p' \<and> user p' = user p \<and> loops p' = loops p"
proof -
  obtain lp e where l: "loops p l = Some lp" "\<not> terminated lp"
    and e: "queue_entries (queues p) (tqid_key (queue_id lp)) = Some e" "task_observers e = []"
    and inv: "proc_inv m p" "tq_inv n m (queues p)" "clock_sane p" "\<forall>s. settime p s = 0"
    using assms by (auto simp: fifo_def)
  have lock: "tqid_key (queue_id lp) \<in> queue_locks (queues p)" by (rule tq_inv_lock[OF inv(2) e(1)])
  let ?tq = "set_entry (queues p) (queue_id lp) (e\<lparr>delayed_tasks := []\<rparr>)"
  have d: "DisposeTasks_of p l = Inr (p\<lparr>queues := ?tq\<rparr>)"
    using l(1) e(1) lock by (simp add: DisposeTasks_of_def DisposeTasks_def)
  have "tq_inv n m ?tq"
    using tq_inv_entry[OF inv(2) e(1)] by (intro tq_inv_set_entry[OF inv(2) lock]) (simp add: entry_inv_def)
  moreover have "proc_inv m (p\<lparr>queues := ?tq\<rparr>)"
    by (rule proc_inv_step[OF ml_step.dispose[OF d] inv(1)])
  ultimately show ?thesis
    using d l e inv by (intro exI[of _ "p\<lparr>queues := ?tq\<rparr>"]) (simp add: fifo_def clock_sane_def)
qed

section \<open>Running the loop\<close>

text \<open>The timer event of one wake-up: nothing or all of the queue runs.\<close>

lemma event_fifo:
  assumes "fifo m n l cs p" "\<forall>c\<in>set cs. plain call f c" "loops p l = Some lp" "running lp"
  obtains p' ran cs' where "(if ev_is_timer r then OnEventFired call p l r else Inr p) = Inr p'"
    "fifo m n l cs' p'" "user p' = foldl f (user p) ran" "cs = ran @ cs'" "clock p' = clock p"
    "clock_reads p \<le> clock_reads p'" "map_option running (loops p' l) = Some True"
proof (cases "ev_is_timer r \<and> TimerDrain (read_size r) (read_count r)")
  case True
  with flush_plain[OF assms(1,2)] assms(3,4) that[of _ "[]" cs] show ?thesis by (auto simp: OnEventFired_def)
next
  case False
  with assms that[of p cs "[]"] show ?thesis by (auto simp: OnEventFired_def)
qed

text \<open>One wake-up without an error: the time left goes down by the time since the start.\<close>

lemma run_loop_wake:
  assumes "fifo m n l cs p" "\<forall>c\<in>set cs. plain call f c" "others r = []"
    and "loops p l = Some lp" "running lp" "0 < left_ms" "left_ms \<le> int64_max"
    and "clock_ok start" "\<forall>i\<ge>clock_reads p. ticks start \<le> clock p i"
    and "\<not> (ev_error r \<or> epoll_result r \<noteq> 1 \<and> \<not> errno_eintr r)"
  obtains p' lp' left' ran cs' where
    "run_loop call l start left_ms (r # rs) p = run_loop call l start left' rs p'"
    "fifo m n l cs' p'" "user p' = foldl f (user p) ran" "cs = ran @ cs'" "loops p' l = Some lp'"
    "running lp' \<longrightarrow> 0 < left'" "left' \<le> int64_max" "clock p' = clock p" "clock_reads p \<le> clock_reads p'"
    "(\<forall>i\<ge>clock_reads p. ticks start + 1000000 \<le> clock p i) \<longrightarrow> left' \<le> left_ms - 1"
proof -
  obtain p1 ran cs1 where p1: "(if ev_is_timer r then OnEventFired call p l r else Inr p) = Inr p1"
    "fifo m n l cs1 p1" "user p1 = foldl f (user p) ran" "cs = ran @ cs1" "clock p1 = clock p"
    "clock_reads p \<le> clock_reads p1" "map_option running (loops p1 l) = Some True"
    by (rule event_fifo[OF assms(1,2,4,5), of r])
  let ?now = "fst (Now p1)" and ?p2 = "snd (Now p1)"
  let ?d = "ticks ?now - ticks start"
  have now: "ticks ?now = clock p (clock_reads p1)" by (simp add: Now_def TimePoint_Now_def p1(5))
  have d: "0 \<le> ?d" "?d \<le> int64_max"
    using assms(8,9) p1(6) Now_clock_ok[OF fifo_clock[OF p1(2)]] by (auto simp: clock_ok_def now)
  let ?left = "left_ms - ?d div 1000000"
  obtain lp1 where lp1: "loops p1 l = Some lp1" "running lp1" using p1(7) by auto
  let ?p3 = "if ?left \<le> 0 then set_loop ?p2 l (lp1\<lparr>running := False\<rparr>) else ?p2"
  let ?lp3 = "if ?left \<le> 0 then lp1\<lparr>running := False\<rparr> else lp1"
  have diff: "tp_diff ?now start = Inr (TimeDelta ?d)" using d by (auto simp: int64_bounds)
  have left: "in_int64 ?left" "?left \<le> int64_max"
    using elapsed_bounds[OF d(1)] d(2) assms(6,7) by (auto simp: int64_bounds)
  have "run_loop call l start left_ms (r # rs) p = run_loop call l start ?left rs ?p3"
    using assms(3,4,5) p1(1) left(1) lp1(1)
    by (simp add: case_Now set_running_def diff elapsed_bounds(1)[OF d(1)] assms(10)[THEN eq_False[THEN iffD2]])
  moreover have "fifo m n l cs1 ?p3"
    using fifo_Now[OF p1(2)] fifo_running[OF fifo_Now[OF p1(2)]] lp1(1) by simp
  moreover have "?left \<le> left_ms - 1" if "\<forall>i\<ge>clock_reads p. ticks start + 1000000 \<le> clock p i"
    using zdiv_mono1[of 1000000 ?d 1000000] that p1(6) by (auto simp: now)
  ultimately show ?thesis
    using p1(3-6) lp1 left(2) by (intro that[of ?left ?p3 cs1 ran ?lp3]) auto
qed

text \<open>Running a loop on which nothing else is posted: it has no fault, and a part of the queue has run, in
  order. It is left at the latest after as many wake-ups as it has milliseconds left, if the clock is at
  least one millisecond past the start from the first of them on.\<close>

lemma run_loop_fifo:
  assumes "fifo m n l cs p" "\<forall>c\<in>set cs. plain call f c" "\<forall>r\<in>set rs. others r = []"
    and "loops p l = Some lp" "running lp \<longrightarrow> 0 < left_ms" "left_ms \<le> int64_max"
    and "clock_ok start" "\<forall>i\<ge>clock_reads p. ticks start \<le> clock p i"
  shows "\<exists>fin p' ran cs'. run_loop call l start left_ms rs p = Inr (fin, p') \<and> fifo m n l cs' p'
    \<and> user p' = foldl f (user p) ran \<and> cs = ran @ cs'
    \<and> ((\<forall>i\<ge>clock_reads p. ticks start + 1000000 \<le> clock p i) \<and> left_ms \<le> int (length rs) \<longrightarrow> fin)"
  using assms
proof (induction rs arbitrary: p lp left_ms cs)
  case Nil
  then show ?case by (intro exI[of _ "\<not> running lp"] exI[of _ p] exI[of _ "[]"] exI[of _ cs]) auto
next
  case (Cons r rs)
  consider "\<not> running lp" | "running lp" "ev_error r \<or> epoll_result r \<noteq> 1 \<and> \<not> errno_eintr r"
    | "running lp" "\<not> (ev_error r \<or> epoll_result r \<noteq> 1 \<and> \<not> errno_eintr r)" by blast
  then show ?case
  proof cases
    case 1
    with Cons.prems(1,4) show ?thesis by (intro exI[of _ True] exI[of _ p] exI[of _ "[]"] exI[of _ cs]) auto
  next
    case 2
    let ?p = "set_loop p l (lp\<lparr>running := False\<rparr>)"
    have "run_loop call l start left_ms (r # rs) p = run_loop call l start left_ms rs ?p"
      using 2 Cons.prems(3,4) by (simp add: set_running_def)
    also have "\<dots> = Inr (True, ?p)" by (cases rs) simp_all
    finally show ?thesis
      using fifo_running[OF Cons.prems(1,4)] by (intro exI[of _ True] exI[of _ ?p] exI[of _ "[]"] exI[of _ cs]) simp
  next
    case 3
    have o: "others r = []" and left: "0 < left_ms" using Cons.prems(3,5) 3 by auto
    obtain p1 lp1 left' ran cs1 where s:
      "run_loop call l start left_ms (r # rs) p = run_loop call l start left' rs p1"
      "fifo m n l cs1 p1" "user p1 = foldl f (user p) ran" "cs = ran @ cs1" "loops p1 l = Some lp1"
      "running lp1 \<longrightarrow> 0 < left'" "left' \<le> int64_max" "clock p1 = clock p" "clock_reads p \<le> clock_reads p1"
      "(\<forall>i\<ge>clock_reads p. ticks start + 1000000 \<le> clock p i) \<longrightarrow> left' \<le> left_ms - 1"
      by (rule run_loop_wake[OF Cons.prems(1,2) o Cons.prems(4) 3(1) left Cons.prems(6-8) 3(2)])
    have "\<exists>fin p' ran' cs'. run_loop call l start left' rs p1 = Inr (fin, p') \<and> fifo m n l cs' p'
        \<and> user p' = foldl f (user p1) ran' \<and> cs1 = ran' @ cs'
        \<and> ((\<forall>i\<ge>clock_reads p1. ticks start + 1000000 \<le> clock p1 i) \<and> left' \<le> int (length rs) \<longrightarrow> fin)"
      using Cons.prems(2,3,7,8) s(4,8,9) by (intro Cons.IH[OF s(2) _ _ s(5,6,7)]) auto
    then obtain fin p' ran' cs' where "run_loop call l start left' rs p1 = Inr (fin, p')" "fifo m n l cs' p'"
      "user p' = foldl f (user p1) ran'" "cs1 = ran' @ cs'"
      "(\<forall>i\<ge>clock_reads p1. ticks start + 1000000 \<le> clock p i) \<and> left' \<le> int (length rs) \<longrightarrow> fin"
      unfolding s(8) by blast
    then show ?thesis
      using s by (intro exI[of _ fin] exI[of _ p'] exI[of _ "ran @ ran'"] exI[of _ cs']) auto
  qed
qed

section \<open>The simulation\<close>

text \<open>How the request thread runs a posted closure: it changes the client, nothing of the process.\<close>

definition request_thread_call :: "(posted_closure, CurlClient) caller" where
  "request_thread_call k p = Inr (p\<lparr>user := run_posted (user p) k\<rparr>)"

text \<open>The process \<open>p\<close>, whose loop \<open>l\<close> is that of the request thread, represents the client \<open>c\<close>: the queue holds
  the closures that \<open>c\<close> lists as posted, and the rest of \<open>c\<close> is the client's own state.\<close>

definition client_sim :: "nat \<Rightarrow> nat \<Rightarrow> nat \<Rightarrow> (posted_closure, CurlClient) process \<Rightarrow> CurlClient \<Rightarrow> bool" where
  "client_sim m n l p c \<longleftrightarrow> fifo m n l (posted c) p \<and> user p = c\<lparr>posted := []\<rparr>"

lemma plain_request_thread: "plain request_thread_call run_posted k"
  by (simp add: plain_def request_thread_call_def)

lemma run_posted_no_post: "posted (run_posted c k) = posted c"
  by (cases k) (simp_all add: StartRequest_def CancelRequest_def CleanupRequest_def deliver_def set_task_def
      split: option.splits prod.splits)

lemma foldl_run_posted: "posted (foldl run_posted c ks) = posted c"
  by (induction ks arbitrary: c) (simp_all add: run_posted_no_post)

text \<open>Every finished run of \<open>DoRunForTime\<close> is one turn in which all posted closures run.\<close>

lemma DoRunForTime_sim:
  assumes sim: "client_sim m n l p c" and quiet: "\<forall>r\<in>set rs. others r = []" and d: "td_wf d" "0 < ToMilliseconds d"
  shows "\<exists>fin p'. DoRunForTime request_thread_call p l d rs = Inr (fin, p')
    \<and> (fin \<longrightarrow> client_sim m n l p' (RunForTime_turn c (length (posted c))))
    \<and> ((\<forall>i>clock_reads p. clock p (clock_reads p) + 1000000 \<le> clock p i)
         \<and> ToMilliseconds d \<le> int (length rs) \<longrightarrow> fin)"
proof -
  let ?call = "request_thread_call"
  have f: "fifo m n l (posted c) p" "user p = c\<lparr>posted := []\<rparr>" using sim by (simp_all add: client_sim_def)
  obtain lp where lp: "loops p l = Some lp" "\<not> terminated lp" using fifo_loop[OF f(1)] by blast
  let ?p0 = "set_loop p l (lp\<lparr>running := True\<rparr>)"
  let ?p1 = "snd (Now ?p0)" and ?start = "fst (Now ?p0)"
  have f1: "fifo m n l (posted c) ?p1" by (rule fifo_Now[OF fifo_running[OF f(1) lp(1)]])
  have start: "ticks ?start = clock p (clock_reads p)" by (simp add: Now_def TimePoint_Now_def)
  have ok: "clock_ok ?start" by (rule Now_clock_ok[OF fifo_clock[OF fifo_running[OF f(1) lp(1)]]])
  have le: "\<forall>i\<ge>clock_reads ?p1. ticks ?start \<le> clock ?p1 i"
    using fifo_clock[OF f(1)] by (auto simp: start clock_sane_def intro: monoD)
  have dm: "ToMilliseconds d \<le> int64_max"
    using To_mono[of d TimeDelta_Max] d(1) elapsed_bounds[of int64_max]
    by (auto simp: td_wf_def less_eq_TimeDelta_def TimeDelta_Max_def int64_bounds)
  have "\<exists>fin p' ran cs. run_loop ?call l ?start (ToMilliseconds d) rs ?p1 = Inr (fin, p') \<and> fifo m n l cs p'
      \<and> user p' = foldl run_posted (user ?p1) ran \<and> posted c = ran @ cs
      \<and> ((\<forall>i\<ge>clock_reads ?p1. ticks ?start + 1000000 \<le> clock ?p1 i) \<and> ToMilliseconds d \<le> int (length rs) \<longrightarrow> fin)"
    using d(2) plain_request_thread
    by (intro run_loop_fifo[OF f1 _ quiet _ _ dm ok le, of _ _ "lp\<lparr>running := True\<rparr>"]) simp_all
  then obtain fin p2 ran cs where r: "run_loop ?call l ?start (ToMilliseconds d) rs ?p1 = Inr (fin, p2)"
    "fifo m n l cs p2" "user p2 = foldl run_posted (user p) ran" "posted c = ran @ cs"
    "(\<forall>i\<ge>clock_reads ?p1. clock p (clock_reads p) + 1000000 \<le> clock ?p1 i)
       \<and> ToMilliseconds d \<le> int (length rs) \<longrightarrow> fin"
    unfolding start set_loop_simps Now_simps by blast
  have R: "RunForTime ?call p l d rs = Inr (fin, p2)"
    using r(1) lp(1) by (simp add: RunForTime_def set_running_def case_Now)
  obtain p3 where p3: "RunExpiredTasksNow ?call p2 l = Inr p3" "fifo m n l [] p3"
    "user p3 = foldl run_posted (user p2) cs"
    using flush_plain[OF r(2), of ?call run_posted] plain_request_thread by blast
  obtain p4 where p4: "DisposeTasks_of p3 l = Inr p4" "fifo m n l [] p4" "user p4 = user p3"
    using dispose_fifo[OF p3(2)] by blast
  have "user p4 = RunForTime_turn c (length (posted c))"
    using p4(3) p3(3) r(3,4) f(2) by (simp add: RunForTime_turn_def)
  then have "client_sim m n l p4 (RunForTime_turn c (length (posted c)))"
    using p4(2) by (simp add: client_sim_def RunForTime_turn_def foldl_run_posted)
  then show ?thesis
    using R r(5) p3(1) p4(1) lp by (cases fin) (auto simp: DoRunForTime_def Suc_le_eq)
qed

text \<open>Posting a closure is posting it in the model.\<close>

lemma post_sim:
  assumes "client_sim m n l p c" "n < 2 ^ 32"
  shows "\<exists>p'. TaskRunner_PostTask p l (Some k) = Inr p' \<and> client_sim m (Suc n) l p' (c\<lparr>posted := posted c @ [k]\<rparr>)
    \<and> clock p' = clock p \<and> clock_reads p' = clock_reads p + 2"
  using post_fifo[of m n l "posted c" p k] assms by (auto simp: client_sim_def)

text \<open>A client without posted closures on an idle loop.\<close>

lemma idle_sim:
  assumes "idle_loop m n l p" "user p = c" "posted c = []"
  shows "client_sim m n l p c"
  using idle_loop_fifo[OF assms(1)] assms(2,3) by (simp add: client_sim_def)

end
