(* ===== verification/Sync_Call.thy ===== *)
theory Sync_Call
  imports Curl_Client_Laws Client_Sync
begin

text \<open>
  \<open>Client::PerformRequestSync\<close> on \<open>CurlClient\<close>: the caller and the callback of \<open>Client_Sync\<close> together with the client whose
  request thread calls the callback. The callback stores the response within the client's step that delivers it, and
  notifies later; the client goes on serving other requests, equal ones included. The lemmas show that the caller
  gets the one response that the client delivered for its own request, with the headers that curl delivered for it,
  and that a done message for its transfer makes it return.
\<close>

section \<open>State and steps\<close>

record sync_call =
  sc_client :: CurlClient
  sc_task :: nat
  sc_sync :: "ResponseImpl sync"
  sc_lines :: "string list"     \<comment> \<open>the header lines that curl delivered for the task so far\<close>

definition PerformRequestSync_start :: "CurlClient \<Rightarrow> RequestImpl \<Rightarrow> bool \<Rightarrow> 32 word \<Rightarrow> sync_call res" where
  "PerformRequestSync_start c request init_ok now_ms =
     res_bind (PerformRequest c request True init_ok now_ms) (\<lambda>(i, c).
       Inr \<lparr>sc_client = c, sc_task = i, sc_sync = sync_start, sc_lines = []\<rparr>)"

text \<open>The response that a step of the client from \<open>c\<close> to \<open>c'\<close> delivered to the task \<open>i\<close>, and what the callback does with it.\<close>

definition new_response :: "nat \<Rightarrow> CurlClient \<Rightarrow> CurlClient \<Rightarrow> ResponseImpl option" where
  "new_response i c c' = map_of (drop (length (delivered c)) (delivered c')) i"

definition client_moves :: "sync_call \<Rightarrow> CurlClient \<Rightarrow> sync_call" where
  "client_moves s c' =
     s\<lparr>sc_client := c',
       sc_sync := (case new_response (sc_task s) (sc_client s) c' of
                     None \<Rightarrow> sc_sync s | Some r \<Rightarrow> callback_store (sc_sync s) r)\<rparr>"

text \<open>What the rest of the program does to the client: any thread submits requests, starts and cancels tasks, the request
  thread runs a turn and handles messages, a task to which the map does not refer any more is dropped by its caller
  and takes its handle out of the multi handle, and the client is destroyed. With \<open>u\<close> the rest is well behaved: no
  request is submitted while one with the same hash is registered, and the client is not destroyed during the call.\<close>

inductive cl_step :: "bool \<Rightarrow> CurlClient \<Rightarrow> CurlClient \<Rightarrow> bool" for u where
  task: "TaskWithRequest c r cb ok = Inr (i, c') \<Longrightarrow> (u \<Longrightarrow> \<forall>h. hash r = Inr h \<longrightarrow> request_task_map c h = None)
    \<Longrightarrow> cl_step u c c'"
| resume: "i < length (tasks c) \<Longrightarrow> cl_step u c (Resume c i now_ms)"
| cancel: "i < length (tasks c) \<Longrightarrow> cl_step u c (Cancel c i)"
| turn: "cl_step u c (RunForTime_turn c k)"
| msg: "easy_handle m \<in> multi_handles c \<Longrightarrow> HandleMsg c m = Inr c' \<Longrightarrow> cl_step u c c'"
| dropped: "request_task_map c (task_identifier (tasks c ! i)) \<noteq> Some i
    \<Longrightarrow> cl_step u c (c\<lparr>multi_handles := multi_handles c - {i}\<rparr>)"
| destroy: "\<not> u \<Longrightarrow> cl_step u c (CurlClient_destroy c)"

text \<open>A header line for any transfer; those for the task of the call are noted.\<close>

definition header_moves :: "sync_call \<Rightarrow> nat \<Rightarrow> string \<Rightarrow> sync_call" where
  "header_moves s i line =
     s\<lparr>sc_client := receive_header (sc_client s) i line,
       sc_lines := (if i = sc_task s then sc_lines s @ [line] else sc_lines s)\<rparr>"

text \<open>The moves of a system, and its runs for \<open>request\<close> from any state that the client reaches.\<close>

inductive sync_move :: "bool \<Rightarrow> sync_call \<Rightarrow> sync_call \<Rightarrow> bool" for u where
  client: "cl_step u (sc_client s) c' \<Longrightarrow> sync_move u s (client_moves s c')"
| header: "i \<in> multi_handles (sc_client s) \<Longrightarrow> sync_move u s (header_moves s i line)"
| notify: "callback_at (sc_sync s) = CallbackNotify \<Longrightarrow> sync_move u s (s\<lparr>sc_sync := callback_notify (sc_sync s)\<rparr>)"
| test: "caller_at (sc_sync s) = SyncTest \<Longrightarrow> sync_move u s (s\<lparr>sc_sync := caller_test (sc_sync s)\<rparr>)"
| spurious: "caller_at (sc_sync s) = SyncBlocked \<Longrightarrow> sync_move u s (s\<lparr>sc_sync := (sc_sync s)\<lparr>caller_at := SyncTest\<rparr>\<rparr>)"

inductive_cases sync_moveE: "sync_move u s s'"

inductive sync_system :: "bool \<Rightarrow> RequestImpl \<Rightarrow> sync_call \<Rightarrow> bool" for u request where
  start: "cl_reach u c \<Longrightarrow> PerformRequestSync_start c request init_ok now_ms = Inr s \<Longrightarrow>
    (u \<Longrightarrow> \<forall>h. hash request = Inr h \<longrightarrow> request_task_map c h = None) \<Longrightarrow> sync_system u request s"
| move: "sync_system u request s \<Longrightarrow> sync_move u s s' \<Longrightarrow> sync_system u request s'"

lemma sync_moves_system: "(sync_move u)\<^sup>*\<^sup>* s s' \<Longrightarrow> sync_system u request s \<Longrightarrow> sync_system u request s'"
  by (induction rule: rtranclp_induct) (auto intro: sync_system.move)

section \<open>Requests and their responses\<close>

text \<open>What a response says of the task it was delivered to: its request, and its headers unless it says that the task was
  cancelled. What may not change about a task.\<close>

definition tells :: "RequestTaskImpl \<Rightarrow> ResponseImpl \<Rightarrow> bool" where
  "tells t r \<longleftrightarrow> response_request r = Some (task_request t)
     \<and> response_headers r = (if response_cancelled r then Map.empty else response_headers (task_response t))"

definition same_data :: "RequestTaskImpl \<Rightarrow> RequestTaskImpl \<Rightarrow> bool" where
  "same_data t t' \<longleftrightarrow> task_request t = task_request t' \<and> response_headers (task_response t) = response_headers (task_response t')
     \<and> response_cancelled (task_response t) = response_cancelled (task_response t')"

lemma same_data_refl [simp]: "same_data t t"
  by (simp add: same_data_def)

lemma tells_same: "same_data t t' \<Longrightarrow> tells t r = tells t' r"
  by (simp add: tells_def same_data_def)

text \<open>A response that was delivered tells of its task, unless the response of the task is itself marked as cancelled.\<close>

definition told :: "CurlClient \<Rightarrow> nat \<times> ResponseImpl \<Rightarrow> bool" where
  "told c d \<longleftrightarrow> fst d < length (tasks c)
     \<and> (response_cancelled (task_response (tasks c ! fst d)) \<or> tells (tasks c ! fst d) (snd d))"

definition keeps_data :: "CurlClient \<Rightarrow> CurlClient \<Rightarrow> bool" where
  "keeps_data c c' \<longleftrightarrow> length (tasks c) \<le> length (tasks c')
     \<and> (\<forall>i<length (tasks c). same_data (tasks c' ! i) (tasks c ! i))
     \<and> (\<exists>ds. delivered c' = delivered c @ ds \<and> (\<forall>d\<in>set ds. told c' d))"

lemma keeps_refl [simp]: "keeps_data c c"
  by (simp add: keeps_data_def)

lemma keeps_update [simp]:
  "keeps_data c (c'\<lparr>posted := ps\<rparr>) = keeps_data c c'" "keeps_data c (c'\<lparr>multi_handles := hs\<rparr>) = keeps_data c c'"
  "keeps_data c (c'\<lparr>request_task_map := rm\<rparr>) = keeps_data c c'" "keeps_data (c\<lparr>posted := ps\<rparr>) c' = keeps_data c c'"
  by (simp_all add: keeps_data_def told_def)

lemma keeps_trans:
  assumes "keeps_data a b" "keeps_data b c"
  shows "keeps_data a c"
proof -
  obtain ds es where d: "delivered b = delivered a @ ds" "delivered c = delivered b @ es"
    "\<forall>d\<in>set ds. told b d" "\<forall>d\<in>set es. told c d"
    using assms unfolding keeps_data_def by blast
  have r: "length (tasks b) \<le> length (tasks c)" "same_data (tasks c ! i) (tasks b ! i)" if "i < length (tasks b)" for i
    using assms(2) that by (simp_all add: keeps_data_def)
  have "told c d" if "told b d" for d
    using that r(1)[of "fst d"] r(2)[of "fst d"] tells_same[of "tasks c ! fst d" "tasks b ! fst d" "snd d"]
    by (simp add: told_def same_data_def)
  then have "\<forall>d\<in>set (ds @ es). told c d" using d(3,4) unfolding set_append by blast
  moreover have "delivered c = delivered a @ (ds @ es)" using d(1,2) by simp
  moreover have "same_data (tasks c ! i) (tasks a ! i)" if "i < length (tasks a)" for i
  proof -
    have "i < length (tasks b)" "same_data (tasks b ! i) (tasks a ! i)" using assms(1) that by (simp_all add: keeps_data_def)
    then show ?thesis using r(2)[of i] by (simp add: same_data_def)
  qed
  moreover have "length (tasks a) \<le> length (tasks c)" using assms by (simp add: keeps_data_def)
  ultimately show ?thesis unfolding keeps_data_def by blast
qed

text \<open>Completing a task, as finishing and cancelling do.\<close>

lemma keeps_complete:
  assumes "i < length (tasks c)" "same_data t (tasks c ! i)"
    and "\<forall>x. r = Some x \<longrightarrow> \<not> response_cancelled (task_response t) \<longrightarrow> tells t x"
  shows "keeps_data c (deliver (set_task c i t) i r)"
proof -
  have "same_data ((tasks c)[i := t] ! j) (tasks c ! j)" if "j < length (tasks c)" for j
    using assms(2) that by (cases "j = i") simp_all
  with assms show ?thesis by (auto simp: keeps_data_def told_def deliver_def set_task_def split: option.splits)
qed

lemma DidCancelled_tells:
  assumes "DidCancelled t = (t', r)"
  shows "same_data t' t" "r = Some x \<Longrightarrow> tells t' x"
  using assms by (auto simp: DidCancelled_def ResponseImpl_of_def Let_def same_data_def tells_def split: if_splits)

lemma DidFinished_tells:
  assumes "DidFinished t sc rc info now_ms = (t', r)"
  shows "same_data t' t" "r = Some x \<Longrightarrow> \<not> response_cancelled (task_response t') \<Longrightarrow> tells t' x"
  using assms by (auto simp: DidFinished_def Construct_def Let_def same_data_def tells_def split: if_splits)

lemma keeps_run_posted: "client_inv u c \<Longrightarrow> keeps_data c (run_posted c k)"
proof (cases k)
  case (CancelRequest_of h)
  assume inv: "client_inv u c"
  show ?thesis
  proof (cases "request_task_map c h")
    case (Some i)
    then have i: "i < length (tasks c)" using inv by (auto simp: client_inv_def)
    obtain t r where d: "DidCancelled (tasks c ! i) = (t, r)" by fastforce
    have "keeps_data c (deliver (set_task c i t) i r)"
      using DidCancelled_tells[OF d] by (intro keeps_complete[OF i]) auto
    then show ?thesis
      using Some d CancelRequest_of by (simp add: CancelRequest_def CleanupRequest_def Let_def)
  qed (simp add: CancelRequest_of CancelRequest_def)
qed (auto simp: StartRequest_def split: option.splits)

lemma keeps_turn: "client_inv u c \<Longrightarrow> keeps_data c (RunForTime_turn c k)"
proof -
  assume inv: "client_inv u c"
  have "keeps_data c (foldl run_posted c ks)" if "client_inv u c" for c ks
    using that by (induction ks arbitrary: c) (auto intro: keeps_trans keeps_run_posted client_inv_run_posted)
  from this[of "c\<lparr>posted := []\<rparr>"] inv show ?thesis by (simp add: RunForTime_turn_def client_inv_posted)
qed

text \<open>A message, as an equation.\<close>

lemma HandleMsg_cases:
  assumes "HandleMsg c m = Inr c'"
  obtains "\<not> msg_done m" "c' = c"
  | h i t r where "msg_done m" "h = request_hash (task_handle (tasks c ! easy_handle m))" "request_task_map c h = Some i"
    "DidFinished (tasks c ! i) (HttpStatusCode_of (msg_status m)) (ConvertCurlCode (msg_result m)) (msg_info m) (msg_now m) = (t, r)"
    "c' = CleanupRequest ((deliver (set_task c i t) i r)\<lparr>multi_handles := multi_handles c - {easy_handle m}\<rparr>) h"
proof (cases "msg_done m")
  case True
  let ?h = "request_hash (task_handle (tasks c ! easy_handle m))"
  obtain i where i: "request_task_map c ?h = Some i"
    using assms True by (cases "request_task_map c ?h") (auto simp: HandleMsg_def Let_def)
  from HandleMsg_done[OF True refl i] assms that(2)[OF True refl i] show thesis by auto
next
  case False
  with assms that(1) show thesis by (simp add: HandleMsg_def)
qed

lemma keeps_msg:
  assumes inv: "client_inv u c" and h: "HandleMsg c m = Inr c'"
  shows "keeps_data c c'"
  using h
proof (cases rule: HandleMsg_cases)
  case (2 h i t r)
  then have i: "i < length (tasks c)" using inv by (auto simp: client_inv_def)
  have "keeps_data c (deliver (set_task c i t) i r)"
    using DidFinished_tells[OF 2(4)] by (intro keeps_complete[OF i]) auto
  then show ?thesis unfolding 2(5) by (simp add: CleanupRequest_def)
qed simp

lemma keeps_task: "TaskWithRequest c r cb ok = Inr (i, c') \<Longrightarrow> keeps_data c c'"
  by (auto simp: TaskWithRequest_def new_RequestTaskImpl_def res_simps Let_def keeps_data_def nth_append)

lemma keeps_resume: "keeps_data c (Resume c i now_ms)"
  by (cases "i < length (tasks c)") (auto simp: Resume_def Let_def set_task_def keeps_data_def nth_list_update same_data_def
      list_update_beyond)

lemma client_inv_resume: "client_inv u c \<Longrightarrow> client_inv u (Resume c i now_ms)"
  using client_inv_set_task[of u c] by (simp add: Resume_def Let_def client_inv_posted same_name_def)

lemma client_inv_destroy: "client_inv u c \<Longrightarrow> client_inv u (CurlClient_destroy c)"
  by (auto simp: CurlClient_destroy_def client_inv_def ran_def)

lemma client_inv_removed: "client_inv u c \<Longrightarrow> client_inv u (c\<lparr>multi_handles := multi_handles c - A\<rparr>)"
  by (auto simp: client_inv_def)

lemma cl_step_ok:
  assumes "cl_step u c c'" "client_inv u c"
  shows "client_inv u c' \<and> keeps_data c c'"
  using assms
proof cases
  case (task r cb ok i)
  then show ?thesis using client_inv_task[OF assms(2) task(1)] keeps_task by blast
next
  case (resume i now_ms)
  then show ?thesis using client_inv_resume[OF assms(2)] keeps_resume by blast
next
  case (cancel i)
  then show ?thesis using assms(2) by (simp add: Cancel_def client_inv_posted)
next
  case (turn k)
  then show ?thesis using client_inv_turn[OF assms(2)] keeps_turn[OF assms(2)] by blast
next
  case (msg m)
  then show ?thesis using client_inv_msg[OF assms(2)] keeps_msg[OF assms(2)] by blast
next
  case (dropped i)
  then show ?thesis using client_inv_removed[OF assms(2)] by simp
next
  case destroy
  then show ?thesis using client_inv_destroy[OF assms(2)] by (simp add: CurlClient_destroy_def)
qed

section \<open>The invariant\<close>

text \<open>Before the task was delivered to, the caller and the callback are in a state that does not depend on the response;
  afterwards they are in a run for that response. The task has collected the lines that were delivered for it, and
  with \<open>u\<close>, when none come any more after the response, so has the response.\<close>

definition sc_inv :: "bool \<Rightarrow> RequestImpl \<Rightarrow> sync_call \<Rightarrow> bool" where
  "sc_inv u request s \<longleftrightarrow> client_inv u (sc_client s) \<and> sc_task s < length (tasks (sc_client s))
     \<and> (let t = tasks (sc_client s) ! sc_task s in
        task_request t = request \<and> response_headers (task_response t) = last_header (sc_lines s)
        \<and> \<not> response_cancelled (task_response t)
        \<and> (case map_of (delivered (sc_client s)) (sc_task s) of
             None \<Rightarrow> callback_at (sc_sync s) = CallbackIdle \<and> (\<forall>x. sync_run x (sc_sync s))
           | Some x \<Rightarrow> response_request x = Some request \<and> sync_run x (sc_sync s) \<and> callback_at (sc_sync s) \<noteq> CallbackIdle
                 \<and> (u \<longrightarrow> tells t x)))"

lemma sc_inv_start:
  assumes c: "cl_reach u c" and u: "u \<Longrightarrow> \<forall>h. hash request = Inr h \<longrightarrow> request_task_map c h = None"
    and s: "PerformRequestSync_start c request ok now_ms = Inr s"
  shows "sc_inv u request s"
proof -
  obtain i c1 where t: "TaskWithRequest c request True ok = Inr (i, c1)"
    and s: "s = \<lparr>sc_client = Resume c1 i now_ms, sc_task = i, sc_sync = sync_start, sc_lines = []\<rparr>"
    using s by (auto simp: PerformRequestSync_start_def PerformRequest_def res_simps)
  have i: "i = length (tasks c)" "i < length (tasks c1)" "task_request (tasks c1 ! i) = request" "delivered c1 = delivered c"
    "task_response (tasks c1 ! i) = new_ResponseImpl"
    using t by (auto simp: TaskWithRequest_def new_RequestTaskImpl_def Let_def setCompletionCallback_def res_simps)
  have "client_inv u (Resume c1 i now_ms)"
    using client_inv_resume client_inv_task[OF cl_reach_inv[OF c] t u] by blast
  moreover have "keeps_data c1 (Resume c1 i now_ms)" by (rule keeps_resume)
  moreover have "map_of (delivered (Resume c1 i now_ms)) i = None"
    using cl_reach_inv[OF c] i(1,4) by (auto simp: client_inv_def map_of_eq_None_iff Resume_def Let_def)
  ultimately show ?thesis
    using i(2,3,5) by (auto simp: sc_inv_def s keeps_data_def same_data_def new_ResponseImpl_def sync_start_def
        intro: sync_run.start[unfolded sync_start_def])
qed

lemma sc_inv_client:
  assumes inv: "sc_inv u request s" and step: "cl_step u (sc_client s) c'"
  shows "sc_inv u request (client_moves s c')"
proof -
  let ?c = "sc_client s" and ?i = "sc_task s"
  have c: "client_inv u ?c" and i: "?i < length (tasks ?c)" using inv by (auto simp: sc_inv_def)
  have c': "client_inv u c'" "keeps_data ?c c'" using cl_step_ok[OF step c] by auto
  then obtain ds where d: "delivered c' = delivered ?c @ ds"
    "\<forall>d\<in>set ds. told c' d"
    unfolding keeps_data_def by blast
  let ?t = "tasks c' ! ?i"
  have same: "same_data ?t (tasks ?c ! ?i)" and len: "?i < length (tasks c')" using c'(2) i by (auto simp: keeps_data_def)
  then have t: "task_request ?t = request" "response_headers (task_response ?t) = last_header (sc_lines s)"
    "\<not> response_cancelled (task_response ?t)"
    using inv by (auto simp: sc_inv_def same_data_def Let_def)
  have n: "new_response ?i ?c c' = map_of ds ?i" by (simp add: new_response_def d(1))
  have dist: "distinct (map fst (delivered ?c @ ds))" using c'(1) d(1) by (simp add: client_inv_def)
  show ?thesis
  proof (cases "map_of ds ?i")
    case None
    then have "map_of (delivered c') ?i = map_of (delivered ?c) ?i" by (simp add: d(1) map_add_def split: option.split)
    then show ?thesis using inv c'(1) len t None n tells_same[OF same]
      by (simp add: sc_inv_def Let_def client_moves_def split: option.splits)
  next
    case (Some x)
    then have x: "(?i, x) \<in> set ds" by (rule map_of_SomeD)
    then have "?i \<notin> fst ` set (delivered ?c)" using dist by force
    then have nd: "map_of (delivered ?c) ?i = None" by (simp add: map_of_eq_None_iff)
    then have "callback_at (sc_sync s) = CallbackIdle" "sync_run x (sc_sync s)" using inv by (auto simp: sc_inv_def Let_def)
    then have "sync_run x (callback_store (sc_sync s) x)" by (intro sync_run.store)
    moreover have "callback_at (callback_store (sc_sync s) x) \<noteq> CallbackIdle" by (simp add: callback_store_def)
    moreover have "tells ?t x" using d(2) x t(3) by (auto simp: told_def)
    moreover have "map_of (delivered c') ?i = Some x" by (simp add: d(1) map_add_Some_iff Some nd)
    ultimately show ?thesis using c'(1) len t n Some by (simp add: sc_inv_def Let_def client_moves_def tells_def)
  qed
qed

lemma sc_inv_header:
  assumes inv: "sc_inv u request s" and i: "i \<in> multi_handles (sc_client s)"
  shows "sc_inv u request (header_moves s i line)"
proof -
  let ?c = "sc_client s" and ?i = "sc_task s"
  have c: "client_inv u ?c" and len: "?i < length (tasks ?c)" using inv by (auto simp: sc_inv_def)
  have t: "tasks (receive_header ?c i line) ! ?i = (if i = ?i then OnReceiveHeader (tasks ?c ! ?i) line else tasks ?c ! ?i)" for i
    using len by (simp add: receive_header_task set_task_def)
  have d: "delivered (receive_header ?c i line) = delivered ?c" "length (tasks (receive_header ?c i line)) = length (tasks ?c)" for i
    by (simp_all add: receive_header_task)
  have h: "response_headers (task_response (OnReceiveHeader (tasks ?c ! ?i) line)) = last_header (sc_lines s @ [line])"
    using inv by (simp add: fun_eq_iff OnReceiveHeader_headers last_header_snoc sc_inv_def Let_def)
  show ?thesis
  proof (cases "i = ?i")
    case True
    have "map_of (delivered ?c) ?i = None" if u
    proof -
      have "request_task_map ?c (task_identifier (tasks ?c ! ?i)) = Some ?i" using c i that True by (simp add: client_inv_def)
      then show ?thesis using c by (simp add: client_inv_def map_of_eq_None_iff)
    qed
    with inv True client_inv_header[OF c, of i line] h show ?thesis
      by (auto simp: sc_inv_def Let_def header_moves_def t d split: option.splits)
  next
    case False
    with inv client_inv_header[OF c, of i line] show ?thesis
      by (simp add: sc_inv_def Let_def header_moves_def t d split: option.splits)
  qed
qed

lemma sc_inv_move: "sync_move u s s' \<Longrightarrow> sc_inv u request s \<Longrightarrow> sc_inv u request s'"
proof (induction rule: sync_move.induct)
  case (client s c')
  then show ?case by (intro sc_inv_client)
next
  case (header i s line)
  then show ?case by (intro sc_inv_header)
next
  case (notify s)
  have "callback_at (callback_notify (sc_sync s)) \<noteq> CallbackIdle"
    by (simp add: callback_notify_def split: sync_caller.splits)
  with notify show ?case by (auto simp: sc_inv_def Let_def intro: sync_run.notify split: option.splits)
next
  case (test s)
  have "callback_at (caller_test (sc_sync s)) = callback_at (sc_sync s)" by (simp add: caller_test_def)
  with test show ?case by (auto simp: sc_inv_def Let_def intro: sync_run.test split: option.splits)
next
  case (spurious s)
  then show ?case by (auto simp: sc_inv_def Let_def intro: sync_run.spurious split: option.splits)
qed

lemma sync_system_inv: "sync_system u request s \<Longrightarrow> sc_inv u request s"
  by (induction rule: sync_system.induct) (auto intro: sc_inv_start sc_inv_move)

text \<open>A caller whose task was not delivered to has not returned.\<close>

lemma sync_unanswered:
  assumes "sync_system u request s" "map_of (delivered (sc_client s)) (sc_task s) = None"
  shows "caller_at (sc_sync s) \<noteq> SyncReturned x"
proof -
  have "sync_run r (sc_sync s)" "callback_at (sc_sync s) = CallbackIdle" for r
    using sync_system_inv[OF assms(1)] assms(2) by (auto simp: sc_inv_def Let_def)
  then show ?thesis using sync_run_inv by (fastforce simp: sync_inv_def)
qed

lemma sync_returned:
  assumes "sync_system u request s" "caller_at (sc_sync s) = SyncReturned x"
  shows "\<exists>r. x = Some r \<and> map_of (delivered (sc_client s)) (sc_task s) = Some r \<and> response_request r = Some request
    \<and> (u \<longrightarrow> response_headers r = (if response_cancelled r then Map.empty else last_header (sc_lines s)))"
proof -
  obtain r where r: "map_of (delivered (sc_client s)) (sc_task s) = Some r"
    using sync_unanswered[OF assms(1)] assms(2) by (cases "map_of (delivered (sc_client s)) (sc_task s)") auto
  then have "response_request r = Some request" "sync_run r (sc_sync s)"
    "u \<longrightarrow> response_headers r = (if response_cancelled r then Map.empty else last_header (sc_lines s))"
    using sync_system_inv[OF assms(1)] by (auto simp: sc_inv_def Let_def tells_def)
  with sync_run_inv[of r "sc_sync s"] assms(2) r show ?thesis by (simp add: sync_inv_def)
qed

section \<open>A null handle\<close>

text \<open>The moves after which no cancellation for the hash \<open>h\<close> is posted.\<close>

definition uncancelled :: "bool \<Rightarrow> string \<Rightarrow> sync_call \<Rightarrow> sync_call \<Rightarrow> bool" where
  "uncancelled u h s s' \<longleftrightarrow> sync_move u s s' \<and> CancelRequest_of h \<notin> set (posted (sc_client s'))"

text \<open>A task without a handle that was not delivered to: either the map no longer leads to it, or no transfer runs whose
  done message would.\<close>

definition silent :: "string \<Rightarrow> nat \<Rightarrow> CurlClient \<Rightarrow> bool" where
  "silent h i c \<longleftrightarrow> client_inv False c \<and> i < length (tasks c) \<and> task_identifier (tasks c ! i) = h
     \<and> \<not> handle_valid (task_handle (tasks c ! i)) \<and> i \<notin> fst ` set (delivered c)
     \<and> (request_task_map c h = Some i \<longrightarrow> (\<forall>j\<in>multi_handles c. task_identifier (tasks c ! j) \<noteq> h))"

lemma silent_no_transfer: "silent h i c \<Longrightarrow> i \<notin> multi_handles c"
  by (auto simp: silent_def client_inv_def)

text \<open>What a step must do for it: tasks keep their names and handles, nothing is delivered to this one, and it is not put
  back into the map while a transfer of the same hash is started or runs.\<close>

lemma silentI:
  assumes "silent h i c" "client_inv False c'" "length (tasks c) \<le> length (tasks c')"
    and "\<And>j. j < length (tasks c) \<Longrightarrow> same_name (tasks c' ! j) (tasks c ! j)"
    and "i \<notin> fst ` set (delivered c')"
    and "request_task_map c' h = Some i \<Longrightarrow> request_task_map c h = Some i"
    and "\<And>j. request_task_map c' h = Some i \<Longrightarrow> j \<in> multi_handles c' \<Longrightarrow> j \<in> multi_handles c \<or> task_identifier (tasks c' ! j) \<noteq> h"
  shows "silent h i c'"
proof -
  have i: "i < length (tasks c)" using assms(1) by (simp add: silent_def)
  have c: "task_identifier (tasks c' ! j) \<noteq> h"
    if m: "request_task_map c' h = Some i" "j \<in> multi_handles c'" for j
  proof (cases "j \<in> multi_handles c")
    case True
    then have "j < length (tasks c)" "task_identifier (tasks c ! j) \<noteq> h"
      using assms(1) assms(6)[OF m(1)] by (auto simp: silent_def client_inv_def)
    then show ?thesis using assms(4)[of j] by (simp add: same_name_def)
  qed (use assms(7)[OF m] in simp)
  then show ?thesis using assms(1-3,5) assms(4)[OF i] i by (simp add: silent_def same_name_def)
qed

lemma same_name_refl [simp]: "same_name t t"
  by (simp add: same_name_def)

lemma same_name_update: "same_name t (xs ! i) \<Longrightarrow> same_name ((xs[i := t]) ! j) (xs ! j)"
  by (cases "i < length xs") (auto simp: nth_list_update list_update_beyond)

lemma silent_facts:
  assumes "silent h i c"
  shows "client_inv False c" "i < length (tasks c)" "task_identifier (tasks c ! i) = h" "i \<notin> fst ` set (delivered c)"
    "\<not> handle_valid (task_handle (tasks c ! i))"
  using assms by (auto simp: silent_def)

lemma client_inv_map: "client_inv u c \<Longrightarrow> request_task_map c h = Some i \<Longrightarrow> i < length (tasks c) \<and> task_identifier (tasks c ! i) = h"
  by (simp add: client_inv_def)

text \<open>Starting another task and completing one.\<close>

lemma silent_start:
  assumes s: "silent h i c"
  shows "silent h i (StartRequest c h')"
proof (cases "request_task_map c h'")
  case (Some j)
  note f = silent_facts[OF s]
  have inv: "client_inv False (StartRequest c h')" using client_inv_run_posted[OF f(1), of "StartRequest_of h'"] by simp
  show ?thesis
  proof (cases "handle_valid (task_handle (tasks c ! j))")
    case True
    then have c': "StartRequest c h' = c\<lparr>multi_handles := insert j (multi_handles c)\<rparr>" using Some by (simp add: StartRequest_def)
    have "task_identifier (tasks c ! j) \<noteq> h" if "request_task_map c h = Some i"
    proof
      assume "task_identifier (tasks c ! j) = h"
      then have "h' = h" using client_inv_map[OF f(1) Some] by simp
      then show False using that Some True f(5) by simp
    qed
    then show ?thesis using f(4) inv unfolding c' by (intro silentI[OF s]) auto
  qed (use s Some in \<open>simp add: StartRequest_def\<close>)
qed (use s in \<open>simp add: StartRequest_def\<close>)

lemma silent_complete:
  assumes s: "silent h i c" and m: "request_task_map c h' = Some j" "j \<noteq> i" and t: "same_name t (tasks c ! j)"
    and c': "c' = CleanupRequest ((deliver (set_task c j t) j r)\<lparr>multi_handles := hs\<rparr>) h'" "hs \<subseteq> multi_handles c"
    and inv: "client_inv False c'"
  shows "silent h i c'"
proof (rule silentI[OF s inv])
  note f = silent_facts[OF s]
  show "length (tasks c) \<le> length (tasks c')" "\<And>k. same_name (tasks c' ! k) (tasks c ! k)"
    using same_name_update[OF t] by (simp_all add: c'(1) CleanupRequest_def set_task_def)
  show "i \<notin> fst ` set (delivered c')" using f(4) m(2) by (auto simp: c'(1) CleanupRequest_def split: option.splits)
  show "request_task_map c' h = Some i \<Longrightarrow> request_task_map c h = Some i"
    by (simp add: c'(1) CleanupRequest_def split: if_splits)
  show "\<And>k. k \<in> multi_handles c' \<Longrightarrow> k \<in> multi_handles c \<or> task_identifier (tasks c' ! k) \<noteq> h"
    using c'(2) by (auto simp: c'(1) CleanupRequest_def)
qed

lemma silent_run_posted:
  assumes "silent h i c" "k \<noteq> CancelRequest_of h"
  shows "silent h i (run_posted c k) \<and> (request_task_map c h = Some i \<longrightarrow> request_task_map (run_posted c k) h = Some i)"
proof (cases k)
  case (StartRequest_of h')
  have "request_task_map (StartRequest c h') = request_task_map c" by (simp add: StartRequest_def split: option.split)
  then show ?thesis using silent_start[OF assms(1)] by (simp add: StartRequest_of)
next
  case (CancelRequest_of h')
  note f = silent_facts[OF assms(1)]
  have h': "h' \<noteq> h" using assms(2) CancelRequest_of by auto
  show ?thesis
  proof (cases "request_task_map c h'")
    case (Some j)
    obtain t r where d: "DidCancelled (tasks c ! j) = (t, r)" by fastforce
    have j: "j \<noteq> i" using client_inv_map[OF f(1) Some] f(3) h' by auto
    have e: "run_posted c k = CleanupRequest ((deliver (set_task c j t) j r)\<lparr>multi_handles := multi_handles c - {j}\<rparr>) h'"
      by (simp add: CancelRequest_of CancelRequest_def Some d Let_def)
    have "silent h i (run_posted c k)"
      by (rule silent_complete[OF assms(1) Some j same_name_cancel[OF d] e _ client_inv_run_posted[OF f(1)]]) simp
    then show ?thesis using h' by (simp add: e CleanupRequest_def)
  qed (use CancelRequest_of assms in \<open>simp add: CancelRequest_def\<close>)
qed

lemma silent_posted: "silent h i (c\<lparr>posted := ps\<rparr>) = silent h i c"
  by (simp add: silent_def client_inv_posted)

lemma silent_turn:
  assumes "silent h i c" "CancelRequest_of h \<notin> set (posted c)"
  shows "silent h i (RunForTime_turn c k)
    \<and> (request_task_map c h = Some i \<longrightarrow> request_task_map (RunForTime_turn c k) h = Some i)"
proof -
  have "silent h i (foldl run_posted d ks) \<and> (request_task_map d h = Some i \<longrightarrow> request_task_map (foldl run_posted d ks) h = Some i)"
    if "silent h i d" "CancelRequest_of h \<notin> set ks" for d ks
    using that
  proof (induction ks arbitrary: d)
    case (Cons k ks)
    have "k \<noteq> CancelRequest_of h" "CancelRequest_of h \<notin> set ks" using Cons.prems(2) by auto
    with silent_run_posted[OF Cons.prems(1)] Cons.IH[of "run_posted d k"] show ?case by simp
  qed simp
  from this[of "c\<lparr>posted := []\<rparr>" "take k (posted c)"] assms show ?thesis
    by (auto simp: RunForTime_turn_def silent_posted dest: in_set_takeD)
qed

lemma silent_msg:
  assumes "silent h i c" "easy_handle m \<in> multi_handles c" "HandleMsg c m = Inr c'"
  shows "silent h i c' \<and> (request_task_map c h = Some i \<longrightarrow> request_task_map c' h = Some i)"
  using assms(3)
proof (cases rule: HandleMsg_cases)
  case (2 h' j t r)
  have "client_inv False c" using assms(1) by (simp add: silent_def)
  from client_inv_msg[OF this assms(2,3)] have inv: "client_inv False c'" .
  note f = silent_facts[OF assms(1)]
  have "easy_handle m < length (tasks c)" using f(1) assms(2) by (simp add: client_inv_def)
  then have e: "task_identifier (tasks c ! easy_handle m) = h'" using f(1) 2(2) by (simp add: client_inv_def)
  have n: "h' \<noteq> h" if "request_task_map c h = Some i"
    using assms(1) assms(2) e that unfolding silent_def by metis
  have "j \<noteq> i" using client_inv_map[OF f(1) 2(3)] f(3) n 2(3) by auto
  from silent_complete[OF assms(1) 2(3) this same_name_finish[OF 2(4)] 2(5) _ inv] have "silent h i c'" by auto
  then show ?thesis using n by (auto simp: 2(5) CleanupRequest_def)
qed (use assms(1) in simp)

lemma silent_header: "silent h i c \<Longrightarrow> silent h i (receive_header c j line)"
proof -
  assume s: "silent h i c"
  then have "client_inv False (receive_header c j line)" by (intro client_inv_header) (simp add: silent_def)
  moreover have "same_name (OnReceiveHeader (tasks c ! j) line) (tasks c ! j)" by (simp add: same_name_def)
  ultimately show ?thesis
    using s same_name_update by (intro silentI[OF s]) (auto simp: receive_header_task set_task_def silent_def)
qed

lemma silent_step:
  assumes s: "silent h i c" and step: "cl_step u c c'" and p: "CancelRequest_of h \<notin> set (posted c)"
  shows "silent h i c' \<and> (u \<and> request_task_map c h = Some i \<longrightarrow> request_task_map c' h = Some i)"
proof -
  have c: "client_inv False c" and i: "i < length (tasks c)" "i \<notin> fst ` set (delivered c)" using s by (auto simp: silent_def)
  show ?thesis
    using step
  proof cases
    case (task req cb ok j)
    have inv: "client_inv False c'" using client_inv_task[OF c task(1)] by simp
    obtain h' t where t: "hash req = Inr h'" "j = length (tasks c)" "tasks c' = tasks c @ [t]"
      "request_task_map c' = (request_task_map c)(h' \<mapsto> j)" "multi_handles c' = multi_handles c" "delivered c' = delivered c"
      using task(1) by (cases "hash req") (auto simp: TaskWithRequest_def new_RequestTaskImpl_def Let_def)
    have "silent h i c'"
      using i t by (intro silentI[OF s inv]) (auto simp: nth_append split: if_splits)
    moreover have "h' \<noteq> h" if u "request_task_map c h = Some i" using task(2)[OF that(1)] t(1) that(2) by auto
    ultimately show ?thesis using t(4) by auto
  next
    case (resume j now_ms)
    have inv: "client_inv False (Resume c j now_ms)" using client_inv_resume[OF c] .
    let ?t = "(tasks c ! j)\<lparr>task_metrics := (task_metrics (tasks c ! j))\<lparr>request_start_ms := ucast now_ms\<rparr>\<rparr>"
    have "same_name (tasks (Resume c j now_ms) ! n) (tasks c ! n)" for n
      using same_name_update[of ?t "tasks c" j n] by (simp add: Resume_def Let_def set_task_def same_name_def)
    then have "silent h i (Resume c j now_ms)"
      using i by (intro silentI[OF s inv]) (auto simp: Resume_def Let_def)
    then show ?thesis unfolding resume(1) by (simp add: Resume_def Let_def)
  next
    case (cancel j)
    then show ?thesis using s by (simp add: Cancel_def silent_posted)
  next
    case (turn k)
    then show ?thesis using silent_turn[OF s p] by simp
  next
    case (msg m)
    then show ?thesis using silent_msg[OF s msg] by simp
  next
    case (dropped j)
    have "client_inv False c'" unfolding dropped(1) by (rule client_inv_removed[OF c])
    then show ?thesis using s i unfolding dropped(1) by (auto intro!: silentI[OF s])
  next
    case destroy
    have "client_inv False c'" unfolding destroy(1) by (rule client_inv_destroy[OF c])
    then show ?thesis using i destroy(2) unfolding destroy(1) by (auto intro!: silentI[OF s] simp: CurlClient_destroy_def)
  qed
qed

lemma uncancelled_silent:
  assumes "(uncancelled u h)\<^sup>*\<^sup>* s s'" "silent h i (sc_client s)" "sc_task s = i" "CancelRequest_of h \<notin> set (posted (sc_client s))"
  shows "silent h i (sc_client s') \<and> sc_task s' = i \<and> CancelRequest_of h \<notin> set (posted (sc_client s'))
    \<and> (u \<and> request_task_map (sc_client s) h = Some i \<longrightarrow> request_task_map (sc_client s') h = Some i)"
  using assms(1)
proof (induction rule: rtranclp_induct)
  case (step x y)
  have m: "sync_move u x y" "CancelRequest_of h \<notin> set (posted (sc_client y))"
    using step.hyps(2) by (simp_all add: uncancelled_def)
  have "silent h i (sc_client y) \<and> sc_task y = i
      \<and> (u \<and> request_task_map (sc_client x) h = Some i \<longrightarrow> request_task_map (sc_client y) h = Some i)"
    using m(1)
  proof cases
    case (client c')
    then show ?thesis using silent_step[of h i "sc_client x" u c'] step.IH by (simp add: client_moves_def)
  next
    case (header j line)
    then show ?thesis using silent_header[of h i "sc_client x" j line] step.IH
      by (simp add: header_moves_def receive_header_task)
  qed (use step.IH in simp_all)
  with m(2) step.IH show ?case by blast
qed (use assms(2-4) in simp)

section \<open>Properties\<close>

text \<open>(C14) The synchronous call over the client: in every interleaving of the call with anything that other threads do to the
  client meanwhile - submitting requests, ones with the same hash included, starting, cancelling and dropping tasks,
  turns of the request thread, messages and header lines of any transfer in the multi handle, destruction of the
  client - a call that returns returns the response that the client delivered for the call's own task, which is about
  the request of the call and the only one delivered for it; and once the response is stored the caller is not left
  waiting. When the rest is well behaved (no request is submitted while an equal one is registered, \<open>u\<close>), the headers of
  the response are those of the lines that curl delivered for the task, or none if it was cancelled.\<close>

theorem sync_call_answer:
  assumes "sync_system u request s"
  shows "(\<forall>x. caller_at (sc_sync s) = SyncReturned x \<longrightarrow>
      (\<exists>r. x = Some r \<and> (sc_task s, r) \<in> set (delivered (sc_client s)) \<and> Response_request r = Some request
        \<and> (\<forall>r'. (sc_task s, r') \<in> set (delivered (sc_client s)) \<longrightarrow> r' = r)
        \<and> (u \<longrightarrow> headerMap r = (if Response_cancelled r then Map.empty else last_header (sc_lines s)))))
    \<and> (sc_task s \<in> fst ` set (delivered (sc_client s)) \<longrightarrow>
        caller_at (sc_sync s) = SyncBlocked \<longrightarrow> callback_at (sc_sync s) = CallbackNotify)"
proof -
  note inv = sync_system_inv[OF assms]
  have dist: "distinct (map fst (delivered (sc_client s)))"
    using inv by (auto simp: sc_inv_def client_inv_def)
  show ?thesis
  proof (cases "map_of (delivered (sc_client s)) (sc_task s)")
    case None
    with sync_unanswered[OF assms] show ?thesis by (simp add: map_of_eq_None_iff)
  next
    case (Some r)
    then have r: "response_request r = Some request" "sync_inv r (sc_sync s)" "callback_at (sc_sync s) \<noteq> CallbackIdle"
      using inv sync_run_inv by (auto simp: sc_inv_def Let_def)
    have mem: "(sc_task s, r') \<in> set (delivered (sc_client s)) \<longleftrightarrow> r' = r" for r'
      using dist Some map_of_is_SomeI by (metis map_of_SomeD option.inject)
    have "callback_at (sc_sync s) = CallbackNotify" if "caller_at (sc_sync s) = SyncBlocked"
      using r(2,3) that by (cases "callback_at (sc_sync s)") (auto simp: sync_inv_def)
    moreover have "x = Some r \<and> (u \<longrightarrow> headerMap r = (if Response_cancelled r then Map.empty else last_header (sc_lines s)))"
      if "caller_at (sc_sync s) = SyncReturned x" for x
      using sync_returned[OF assms that] Some by (auto simp: response_accessors)
    ultimately show ?thesis using mem r(1) by (simp add: Response_request_def)
  qed
qed

text \<open>A call on a new client: submitted, started, given one header line, finished, and the caller tests.\<close>

definition demo_call_start :: sync_call where
  "demo_call_start = \<lparr>sc_client = Resume (demo_created new_CurlClient) 0 5, sc_task = 0, sc_sync = sync_start, sc_lines = []\<rparr>"

definition demo_call_started :: sync_call where
  "demo_call_started = \<lparr>sc_client = demo_one, sc_task = 0, sc_sync = sync_start, sc_lines = []\<rparr>"

definition demo_headed :: CurlClient where
  "demo_headed = receive_header demo_one 0 ''a: b''"

definition demo_call_done :: "ResponseImpl \<Rightarrow> CurlClient \<Rightarrow> sync_call" where
  "demo_call_done r c = \<lparr>sc_client = c, sc_task = 0, sc_sync = caller_test (callback_store sync_start r), sc_lines = [''a: b'']\<rparr>"

lemma demo_call_begin: "PerformRequestSync_start new_CurlClient demo_request True 5 = Inr demo_call_start"
  using demo_created[of new_CurlClient]
  by (simp add: PerformRequestSync_start_def PerformRequest_def demo_call_start_def new_CurlClient_def)

lemma demo_call_begins: "sync_system u demo_request demo_call_start"
  by (rule sync_system.start[OF cl_reach.start demo_call_begin]) (simp add: new_CurlClient_def)

lemma demo_call_turn: "sync_move u demo_call_start demo_call_started"
proof -
  have "new_response 0 (sc_client demo_call_start) demo_one = None"
    by (simp add: new_response_def demo_one(3))
  then have "client_moves demo_call_start demo_one = demo_call_started"
    by (simp add: client_moves_def demo_call_start_def demo_call_started_def)
  moreover have "cl_step u (sc_client demo_call_start) demo_one"
    using cl_step.turn[of u "sc_client demo_call_start" 1]
    by (simp add: demo_call_start_def demo_one_def demo_submit_def new_CurlClient_def)
  ultimately show ?thesis using sync_move.client by metis
qed

lemma demo_headed:
  "cl_reach True demo_headed" "multi_handles demo_headed = {0}" "delivered demo_headed = []" "has_callback (tasks demo_headed ! 0)"
proof -
  show "cl_reach True demo_headed"
    unfolding demo_headed_def by (rule cl_reach.header[OF demo_one(1)]) (simp add: demo_one(5))
  show "multi_handles demo_headed = {0}" "delivered demo_headed = []" "has_callback (tasks demo_headed ! 0)"
    using demo_one by (simp_all add: demo_headed_def receive_header_task set_task_def)
qed

lemma demo_call_moves:
  assumes "HandleMsg demo_headed (demo_msg 0 200) = Inr c" "delivered c = [(0, r)]"
  shows "(sync_move u)\<^sup>*\<^sup>* demo_call_start (demo_call_done r c)"
proof -
  let ?s1 = "header_moves demo_call_started 0 ''a: b''"
  let ?s2 = "client_moves ?s1 c"
  have h: "sync_move u demo_call_started ?s1"
    by (rule sync_move.header) (simp add: demo_call_started_def demo_one(5))
  have s1: "?s1 = \<lparr>sc_client = demo_headed, sc_task = 0, sc_sync = sync_start, sc_lines = [''a: b'']\<rparr>"
    by (simp add: header_moves_def demo_call_started_def demo_headed_def)
  have "cl_step u demo_headed c"
    by (rule cl_step.msg[OF _ assms(1)]) (simp add: demo_headed(2) demo_msg_def)
  then have m: "sync_move u ?s1 ?s2" using s1 by (simp add: sync_move.client)
  have s2: "?s2 = \<lparr>sc_client = c, sc_task = 0, sc_sync = callback_store sync_start r, sc_lines = [''a: b'']\<rparr>"
    unfolding s1 by (simp add: client_moves_def new_response_def assms(2) demo_headed(3))
  have "sync_move u ?s2 (demo_call_done r c)"
    using sync_move.test[of ?s2 u] by (simp add: s2 demo_call_done_def callback_store_def sync_start_def)
  with m h show ?thesis
    using demo_call_turn by (meson converse_rtranclp_into_rtranclp r_into_rtranclp)
qed

lemma demo_call_msg:
  "\<exists>c r. HandleMsg demo_headed (demo_msg 0 200) = Inr c \<and> delivered c = [(0, r)] \<and> \<not> response_cancelled r"
proof -
  obtain c r where c: "HandleMsg demo_headed (demo_msg 0 200) = Inr c" "delivered c = [(0, r)]"
    using HandleMsg_own[OF demo_headed(1), of "demo_msg 0 200"] demo_headed by (auto simp: demo_msg_def)
  have "\<not> response_cancelled (task_response (tasks demo_one ! 0))"
    using sync_system_inv[OF sync_system.move[OF demo_call_begins demo_call_turn[of True]]]
    by (simp add: sc_inv_def demo_call_started_def Let_def)
  then have t: "\<not> response_cancelled (task_response (tasks demo_headed ! 0))"
    by (simp add: demo_headed_def receive_header_task set_task_def demo_one(4))
  have "\<not> response_cancelled r"
    using c(1)
  proof (cases rule: HandleMsg_cases)
    case (2 h i t' r')
    then have "r' = Some r" "i = 0" using c(2) demo_headed(3) by (auto simp: CleanupRequest_def deliver_def set_task_def split: option.splits)
    then show ?thesis using 2(4) t by (auto simp: DidFinished_def Construct_def Let_def split: if_splits)
  qed (simp add: demo_msg_def)
  with c show ?thesis by blast
qed

theorem sync_call_answer_witness:
  "\<exists>c r. HandleMsg demo_headed (demo_msg 0 200) = Inr c \<and> caller_at (sc_sync (demo_call_done r c)) = SyncReturned (Some r)
    \<and> (0, r) \<in> set (delivered c) \<and> Response_request r = Some demo_request
    \<and> headerMap r = (if Response_cancelled r then Map.empty else last_header [''a: b''])"
proof -
  obtain c r where c: "HandleMsg demo_headed (demo_msg 0 200) = Inr c" "delivered c = [(0, r)]"
    using demo_call_msg by blast
  have d: "caller_at (sc_sync (demo_call_done r c)) = SyncReturned (Some r)"
    by (simp add: demo_call_done_def caller_test_def callback_store_def)
  from conjunct1[OF sync_call_answer[OF sync_moves_system[OF demo_call_moves[OF c] demo_call_begins[of True]]], rule_format, OF d]
  show ?thesis using c d by (auto simp: demo_call_done_def)
qed

text \<open>(C23) A call is answered: when curl gives it a handle, the request is the only one of its hash and nothing else is queued, the next turn of the
  request thread starts its transfer, and a done message for it then stores a response with the status and the result of
  the message for the caller, who returns it, whether it was already waiting or not.\<close>

theorem sync_call_completes:
  assumes "cl_reach True c" "posted c = []" "hash request = Inr h" "request_task_map c h = None"
  shows "\<exists>s. PerformRequestSync_start c request True now_ms = Inr s
    \<and> (let c2 = RunForTime_turn (sc_client s) 1 in sc_task s \<in> multi_handles c2
       \<and> (\<forall>m. msg_done m \<and> easy_handle m = sc_task s \<longrightarrow>
           (\<exists>c3 r. HandleMsg c2 m = Inr c3 \<and> new_response (sc_task s) c2 c3 = Some r
              \<and> statusCode r = HttpStatusCode_of (msg_status m) \<and> responseCode r = ConvertCurlCode (msg_result m)
              \<and> (\<forall>s0. caller_at s0 = SyncTest \<or> caller_at s0 = SyncBlocked \<longrightarrow>
                   caller_at (caller_test (callback_notify (callback_store s0 r))) = SyncReturned (Some r)))))"
proof -
  obtain i c1 where t: "TaskWithRequest c request True True = Inr (i, c1)"
    using assms(3) by (auto simp: TaskWithRequest_def new_RequestTaskImpl_def Let_def)
  have i: "i = length (tasks c)" "i < length (tasks c1)" "request_task_map c1 = (request_task_map c)(h \<mapsto> i)"
    "task_identifier (tasks c1 ! i) = h" "has_callback (tasks c1 ! i)" "posted c1 = []"
    "handle_valid (task_handle (tasks c1 ! i))"
    using t assms(2,3) by (auto simp: TaskWithRequest_def new_RequestTaskImpl_def Let_def setCompletionCallback_def)
  have r1: "cl_reach True c1" using cl_reach.task[OF assms(1) t] assms(3,4) by auto
  let ?s = "\<lparr>sc_client = Resume c1 i now_ms, sc_task = i, sc_sync = sync_start, sc_lines = []\<rparr>"
  let ?c2 = "RunForTime_turn (Resume c1 i now_ms) 1"
  have s: "PerformRequestSync_start c request True now_ms = Inr ?s"
    using t by (simp add: PerformRequestSync_start_def PerformRequest_def)
  have r2: "cl_reach True ?c2" by (rule cl_reach.turn[OF cl_reach.resume[OF r1 i(2)]])
  have m: "i \<in> multi_handles ?c2" "has_callback (tasks ?c2 ! i)"
    using i by (simp_all add: RunForTime_turn_def Resume_def Let_def set_task_def StartRequest_def)
  have "\<exists>c3 r. HandleMsg ?c2 m = Inr c3 \<and> new_response i ?c2 c3 = Some r
      \<and> statusCode r = HttpStatusCode_of (msg_status m) \<and> responseCode r = ConvertCurlCode (msg_result m)"
    if d: "msg_done m" "easy_handle m = i" for m
  proof -
    obtain c3 r where "HandleMsg ?c2 m = Inr c3" "delivered c3 = delivered ?c2 @ [(i, r)]" "response_to ?c2 m r"
      using HandleMsg_own[OF r2, of m] d m by auto
    then show ?thesis by (auto simp: new_response_def response_to_def statusCode_def responseCode_def)
  qed
  moreover have "caller_at (caller_test (callback_notify (callback_store s0 r))) = SyncReturned (Some r)"
    if "caller_at s0 = SyncTest \<or> caller_at s0 = SyncBlocked" for s0 and r :: ResponseImpl
    using that by (auto simp: callback_store_def callback_notify_def caller_test_def)
  ultimately have "\<forall>m. msg_done m \<and> easy_handle m = i \<longrightarrow>
      (\<exists>c3 r. HandleMsg ?c2 m = Inr c3 \<and> new_response i ?c2 c3 = Some r
        \<and> statusCode r = HttpStatusCode_of (msg_status m) \<and> responseCode r = ConvertCurlCode (msg_result m)
        \<and> (\<forall>s0. caller_at s0 = SyncTest \<or> caller_at s0 = SyncBlocked \<longrightarrow>
             caller_at (caller_test (callback_notify (callback_store s0 r))) = SyncReturned (Some r)))"
    by blast
  with s m(1) show ?thesis unfolding Let_def by (intro exI[of _ ?s] conjI) simp_all
qed

theorem sync_call_completes_witness:
  "\<exists>s. PerformRequestSync_start new_CurlClient demo_request True 5 = Inr s
    \<and> (\<exists>c3 r. HandleMsg (RunForTime_turn (sc_client s) 1) (demo_msg (sc_task s) 200) = Inr c3
        \<and> statusCode r = 200 \<and> responseCode r = OK
        \<and> caller_at (caller_test (callback_notify (callback_store (caller_test sync_start) r))) = SyncReturned (Some r))"
proof -
  have n: "posted new_CurlClient = []" "request_task_map new_CurlClient demo_hash = None" by (simp_all add: new_CurlClient_def)
  obtain s where s: "PerformRequestSync_start new_CurlClient demo_request True 5 = Inr s"
    and m: "\<forall>m. msg_done m \<and> easy_handle m = sc_task s \<longrightarrow>
      (\<exists>c3 r. HandleMsg (RunForTime_turn (sc_client s) 1) m = Inr c3 \<and> new_response (sc_task s) (RunForTime_turn (sc_client s) 1) c3 = Some r
        \<and> statusCode r = HttpStatusCode_of (msg_status m) \<and> responseCode r = ConvertCurlCode (msg_result m)
        \<and> (\<forall>s0. caller_at s0 = SyncTest \<or> caller_at s0 = SyncBlocked \<longrightarrow>
             caller_at (caller_test (callback_notify (callback_store s0 r))) = SyncReturned (Some r)))"
    using sync_call_completes[OF cl_reach.start n(1) demo_request_hash n(2), of 5] unfolding Let_def by blast
  have b: "caller_at (caller_test sync_start) = SyncBlocked" by (simp add: caller_test_def sync_start_def)
  from m[rule_format, of "demo_msg (sc_task s) 200"] obtain c3 r where
    "HandleMsg (RunForTime_turn (sc_client s) 1) (demo_msg (sc_task s) 200) = Inr c3" "statusCode r = 200" "responseCode r = OK"
    "\<forall>s0. caller_at s0 = SyncTest \<or> caller_at s0 = SyncBlocked \<longrightarrow>
       caller_at (caller_test (callback_notify (callback_store s0 r))) = SyncReturned (Some r)"
    by (auto simp: demo_msg_def)
  with s b show ?thesis by blast
qed

text \<open>(C25) A call without a handle is never answered. Let \<open>curl_easy_init\<close> fail for a call, at a moment when no transfer of a
  request with the same hash runs and no cancellation for it is queued (a running one would be taken for the call's
  when it is done). The call starts as any other and its task is registered. From then on, whatever else happens -
  requests with the same hash may be submitted, run and finish, the client may be destroyed - as long as no
  cancellation for the hash is posted, the task is not in the multi handle, nothing is delivered to it and the caller
  does not return. And if nobody submits an equal request while it is registered nor destroys the client, the map
  refers to the task for ever.\<close>

theorem sync_call_null_handle:
  assumes "cl_reach False c" "hash request = Inr h"
    and "\<forall>j\<in>multi_handles c. task_identifier (tasks c ! j) \<noteq> h" "CancelRequest_of h \<notin> set (posted c)"
  shows "\<exists>s. PerformRequestSync_start c request False now_ms = Inr s
    \<and> request_task_map (sc_client s) h = Some (sc_task s)
    \<and> (\<forall>s'. (uncancelled False h)\<^sup>*\<^sup>* s s' \<longrightarrow> sc_task s' = sc_task s \<and> sc_task s \<notin> multi_handles (sc_client s')
        \<and> sc_task s \<notin> fst ` set (delivered (sc_client s')) \<and> (\<forall>x. caller_at (sc_sync s') \<noteq> SyncReturned x))
    \<and> (\<forall>s'. (uncancelled True h)\<^sup>*\<^sup>* s s' \<longrightarrow> request_task_map (sc_client s') h = Some (sc_task s))"
proof -
  obtain i c1 where t: "TaskWithRequest c request True False = Inr (i, c1)"
    using assms(2) by (auto simp: TaskWithRequest_def new_RequestTaskImpl_def Let_def)
  have i: "i < length (tasks c1)" "request_task_map c1 h = Some i" "posted c1 = posted c" "multi_handles c1 = multi_handles c"
    "\<not> handle_valid (task_handle (tasks c1 ! i))" "task_identifier (tasks c1 ! i) = h" "delivered c1 = delivered c"
    "i = length (tasks c)" "\<And>j. j < i \<Longrightarrow> tasks c1 ! j = tasks c ! j"
    using t assms(2) by (auto simp: TaskWithRequest_def new_RequestTaskImpl_def Let_def setCompletionCallback_def nth_append)
  have inv: "client_inv False c" by (rule cl_reach_inv[OF assms(1)])
  let ?s = "\<lparr>sc_client = Resume c1 i now_ms, sc_task = i, sc_sync = sync_start, sc_lines = []\<rparr>"
  have s: "PerformRequestSync_start c request False now_ms = Inr ?s"
    using t by (simp add: PerformRequestSync_start_def PerformRequest_def)
  have "client_inv False c1" using client_inv_task[OF inv t] by simp
  moreover have "task_identifier (tasks c1 ! j) \<noteq> h" if "j \<in> multi_handles c1" for j
  proof -
    have "j < i" using that inv i(4,8) by (simp add: client_inv_def)
    then show ?thesis using assms(3) that i(4,9) by simp
  qed
  moreover have "i \<notin> fst ` set (delivered c1)" using inv i(7,8) by (auto simp: client_inv_def)
  ultimately have sil1: "silent h i c1" using i by (simp add: silent_def)
  have sil: "silent h i (sc_client ?s)"
    using conjunct1[OF silent_step[OF sil1 cl_step.resume[OF i(1), where u = False and now_ms = now_ms]]] assms(4) i(3) by simp
  have post: "CancelRequest_of h \<notin> set (posted (sc_client ?s))" and map: "request_task_map (sc_client ?s) h = Some i"
    using assms(4) i(2,3) by (simp_all add: Resume_def Let_def)
  have sys: "sync_system False request s'" if "(uncancelled False h)\<^sup>*\<^sup>* ?s s'" for s'
  proof -
    have "(sync_move False)\<^sup>*\<^sup>* ?s s'" using that by (rule rtranclp_mono[THEN predicate2D, rotated]) (auto simp: uncancelled_def)
    then show ?thesis using sync_moves_system sync_system.start[OF assms(1) s] by blast
  qed
  have "sc_task s' = i \<and> i \<notin> multi_handles (sc_client s') \<and> i \<notin> fst ` set (delivered (sc_client s'))
      \<and> (\<forall>x. caller_at (sc_sync s') \<noteq> SyncReturned x)" if "(uncancelled False h)\<^sup>*\<^sup>* ?s s'" for s'
  proof -
    have e: "silent h i (sc_client s')" "sc_task s' = i" using uncancelled_silent[OF that sil _ post] by auto
    then show ?thesis
      using silent_no_transfer[OF e(1)] silent_facts(4)[OF e(1)] sync_unanswered[OF sys[OF that]] by (simp add: map_of_eq_None_iff)
  qed
  moreover have "request_task_map (sc_client s') h = Some i" if "(uncancelled True h)\<^sup>*\<^sup>* ?s s'" for s'
    using uncancelled_silent[OF that sil _ post] map by simp
  ultimately show ?thesis using s map by (intro exI[of _ ?s]) auto
qed

theorem sync_call_null_handle_witness:
  "\<exists>s. PerformRequestSync_start new_CurlClient demo_request False 5 = Inr s
    \<and> request_task_map (sc_client s) demo_hash = Some (sc_task s)
    \<and> caller_at (sc_sync (s\<lparr>sc_sync := caller_test (sc_sync s)\<rparr>)) \<noteq> SyncReturned None"
proof -
  have n: "\<forall>j\<in>multi_handles new_CurlClient. task_identifier (tasks new_CurlClient ! j) \<noteq> demo_hash"
    "CancelRequest_of demo_hash \<notin> set (posted new_CurlClient)" by (simp_all add: new_CurlClient_def)
  obtain s where s: "PerformRequestSync_start new_CurlClient demo_request False 5 = Inr s"
    "request_task_map (sc_client s) demo_hash = Some (sc_task s)"
    and r: "\<forall>s'. (uncancelled False demo_hash)\<^sup>*\<^sup>* s s' \<longrightarrow> (\<forall>x. caller_at (sc_sync s') \<noteq> SyncReturned x)"
    using sync_call_null_handle[OF cl_reach.start demo_request_hash n, of 5] by blast
  have "caller_at (sc_sync s) = SyncTest" "CancelRequest_of demo_hash \<notin> set (posted (sc_client s))"
    using s(1) by (auto simp: PerformRequestSync_start_def PerformRequest_def TaskWithRequest_def res_simps Let_def
        Resume_def set_task_def new_CurlClient_def sync_start_def)
  then have "uncancelled False demo_hash s (s\<lparr>sc_sync := caller_test (sc_sync s)\<rparr>)"
    by (simp add: uncancelled_def sync_move.test)
  with r s show ?thesis by blast
qed

end
