(* ===== verification/Command_Line.thy ===== *)
theory Command_Line
  imports Sync_Call "HOL-Library.List_Lexorder" "HOL-Library.Char_ord"
begin

text \<open>
  \<open>src/command/main.cpp\<close>: the command-line program, from its arguments to what it prints. \<open>getopt\<close> is the function of the
  POSIX C library, as the standard describes it: options end at the first operand (the GNU version, unless
  \<open>POSIXLY_CORRECT\<close> is set, also finds options behind operands). \<open>argv\<close> has at least the program name; the element
  behind its last is the null pointer. The request is made and waited for through \<open>Sync_Call\<close>.
\<close>

section \<open>getopt\<close>

text \<open>Whether an option character takes an argument, \<open>None\<close> for a character that is not an option.\<close>

fun takes_argument :: "string \<Rightarrow> char \<Rightarrow> bool option" where
  "takes_argument [] c = None"
| "takes_argument (x # xs) c =
     (if x = c \<and> c \<noteq> CHR '':'' then Some (xs \<noteq> [] \<and> hd xs = CHR '':'') else takes_argument xs c)"

text \<open>The state between two calls: \<open>optind\<close> and the rest of the group of option characters that is being read.\<close>

record getopt_state =
  optind :: nat
  nextchar :: string

definition getopt_start :: getopt_state where
  "getopt_start = \<lparr>optind = 1, nextchar = []\<rparr>"

text \<open>The next character of a group: the option with \<open>optarg\<close>, or the question mark for an unknown option and for a missing
  argument.\<close>

definition getopt_char :: "string \<Rightarrow> string list \<Rightarrow> char \<Rightarrow> string \<Rightarrow> nat \<Rightarrow> (char \<times> string option) \<times> getopt_state" where
  "getopt_char opts argv c rest k =
     (let after = (if rest = [] then \<lparr>optind = k + 1, nextchar = []\<rparr> else \<lparr>optind = k, nextchar = rest\<rparr>) in
      case takes_argument opts c of
        None \<Rightarrow> ((CHR ''?'', None), after)
      | Some False \<Rightarrow> ((c, None), after)
      | Some True \<Rightarrow>
          (if rest \<noteq> [] then ((c, Some rest), \<lparr>optind = k + 1, nextchar = []\<rparr>)
           else if k + 1 < length argv then ((c, Some (argv ! (k + 1))), \<lparr>optind = k + 2, nextchar = []\<rparr>)
           else ((CHR ''?'', None), \<lparr>optind = k + 1, nextchar = []\<rparr>)))"

text \<open>One call: \<open>None\<close> for the result \<open>-1\<close>.\<close>

definition getopt :: "string \<Rightarrow> string list \<Rightarrow> getopt_state \<Rightarrow> (char \<times> string option) option \<times> getopt_state" where
  "getopt opts argv s =
     (case nextchar s of
        c # rest \<Rightarrow> (case getopt_char opts argv c rest (optind s) of (a, s') \<Rightarrow> (Some a, s'))
      | [] \<Rightarrow>
          if optind s < length argv then
            (let arg = argv ! optind s in
             if length arg < 2 \<or> hd arg \<noteq> CHR ''-'' then (None, s)
             else if arg = ''--'' then (None, \<lparr>optind = optind s + 1, nextchar = []\<rparr>)
             else (case getopt_char opts argv (hd (tl arg)) (tl (tl arg)) (optind s) of (a, s') \<Rightarrow> (Some a, s')))
          else (None, s))"

text \<open>The characters that are still to be read, with one for each argument.\<close>

definition getopt_size :: "string list \<Rightarrow> getopt_state \<Rightarrow> nat" where
  "getopt_size argv s =
     (if nextchar s = [] then sum_list (map (Suc \<circ> length) (drop (optind s) argv))
      else length (nextchar s) + sum_list (map (Suc \<circ> length) (drop (optind s + 1) argv)))"

lemma sum_drop_le: "sum_list (map (Suc \<circ> length) (drop (Suc n) xs)) \<le> sum_list (map (Suc \<circ> length) (drop n xs))"
proof (cases "n < length xs")
  case True
  then have "drop n xs = xs ! n # drop (Suc n) xs" by (simp add: Cons_nth_drop_Suc)
  then show ?thesis by simp
qed simp

lemma getopt_char_size:
  "getopt_size argv (snd (getopt_char opts argv c rest k)) \<le> length rest + sum_list (map (Suc \<circ> length) (drop (Suc k) argv))"
  using sum_drop_le[of "Suc k" argv]
  by (auto simp: getopt_char_def getopt_size_def Let_def split: option.splits bool.splits)

text \<open>An answer comes from a group that is being read or from a new one.\<close>

lemma getopt_Some:
  assumes "getopt opts argv s = (Some a, s')"
  obtains c rest where "getopt_char opts argv c rest (optind s) = (a, s')"
    "nextchar s = c # rest \<or> nextchar s = [] \<and> optind s < length argv \<and> argv ! optind s = CHR ''-'' # c # rest"
proof (cases "nextchar s")
  case (Cons c rest)
  with assms show thesis by (intro that[of c rest]) (auto simp: getopt_def split: prod.splits)
next
  case Nil
  let ?arg = "argv ! optind s"
  have o: "optind s < length argv" "\<not> (length ?arg < 2 \<or> hd ?arg \<noteq> CHR ''-'')"
    "getopt_char opts argv (hd (tl ?arg)) (tl (tl ?arg)) (optind s) = (a, s')"
    using assms Nil by (auto simp: getopt_def Let_def split: if_splits prod.splits)
  then have "?arg = CHR ''-'' # hd (tl ?arg) # tl (tl ?arg)" by (cases ?arg; cases "tl ?arg") auto
  with o Nil show thesis by (intro that) auto
qed

lemma getopt_progress:
  assumes "getopt opts argv s = (Some a, s')"
  shows "getopt_size argv s' < getopt_size argv s"
  using assms
proof (rule getopt_Some)
  fix c rest
  assume g: "getopt_char opts argv c rest (optind s) = (a, s')"
    and n: "nextchar s = c # rest \<or> nextchar s = [] \<and> optind s < length argv \<and> argv ! optind s = CHR ''-'' # c # rest"
  have "length rest + sum_list (map (Suc \<circ> length) (drop (Suc (optind s)) argv)) < getopt_size argv s"
    using n
  proof
    assume n: "nextchar s = [] \<and> optind s < length argv \<and> argv ! optind s = CHR ''-'' # c # rest"
    then have "drop (optind s) argv = (CHR ''-'' # c # rest) # drop (Suc (optind s)) argv"
      by (metis Cons_nth_drop_Suc)
    with n show ?thesis by (simp add: getopt_size_def)
  qed (simp add: getopt_size_def)
  then show ?thesis using getopt_char_size[of argv opts c rest "optind s"] g by simp
qed

text \<open>The answers of the calls of \<open>getopt\<close> up to the first \<open>-1\<close>, and \<open>optind\<close> then.\<close>

function getopt_answers :: "string \<Rightarrow> string list \<Rightarrow> getopt_state \<Rightarrow> (char \<times> string option) list \<times> nat" where
  "getopt_answers opts argv s =
     (case getopt opts argv s of
        (None, s') \<Rightarrow> ([], optind s')
      | (Some a, s') \<Rightarrow> (case getopt_answers opts argv s' of (as, k) \<Rightarrow> (a # as, k)))"
  by pat_completeness auto
termination
  by (relation "measure (\<lambda>(opts, argv, s). getopt_size argv s)") (auto dest: getopt_progress[OF sym])

declare getopt_answers.simps [simp del]

section \<open>The program\<close>

record GlobalArgs =
  out_file_name :: "string option"
  verbose :: bool
  arg_url :: "string option"

definition initial_args :: GlobalArgs where
  "initial_args = \<lparr>out_file_name = None, verbose = False, arg_url = None\<rparr>"

definition opt_string :: string where
  "opt_string = ''o:vh?''"

definition display_usage :: string where
  "display_usage = ''usage: -o output filename -v verbose log''"

text \<open>The option loop over the answers: \<open>None\<close> when the program exits with a failure; otherwise the arguments and how
  often the usage was displayed.\<close>

fun parse_options ::
  "GlobalArgs \<Rightarrow> nat \<Rightarrow> (char \<times> string option) list \<Rightarrow> (GlobalArgs \<times> nat) option" where
  "parse_options args usages [] = Some (args, usages)"
| "parse_options args usages ((opt, optarg) # rest) =
     (if opt = CHR ''o'' then parse_options (args\<lparr>out_file_name := optarg\<rparr>) usages rest
      else if opt = CHR ''v'' then parse_options (args\<lparr>verbose := True\<rparr>) usages rest
      else if opt = CHR ''h'' \<or> opt = CHR ''?'' then parse_options args (usages + 1) rest
      else None)"

text \<open>The request: \<open>CreateRequest\<close> takes a \<open>std::string\<close>, which cannot be made of a null pointer.\<close>

definition main_request :: "GlobalArgs \<Rightarrow> RequestImpl res" where
  "main_request args = (case arg_url args of None \<Rightarrow> Inl NullDeref | Some u \<Rightarrow> Inr (CreateRequest u []))"

text \<open>The same for any implementation of \<open>getopt\<close>, given its successive answers and the argument at \<open>optind\<close> after
  the last one.\<close>

definition main_parse ::
  "(char \<times> string option) list \<Rightarrow> string option \<Rightarrow> (GlobalArgs \<times> RequestImpl res) option" where
  "main_parse found argv_optind =
     (case parse_options initial_args 0 found of
        None \<Rightarrow> None
      | Some (args, _) \<Rightarrow> let args = args\<lparr>arg_url := argv_optind\<rparr> in Some (args, main_request args))"

text \<open>The part of \<open>main\<close> before the client exists: the option loop over \<open>getopt\<close>, and \<open>argv[optind]\<close>, which is the null
  pointer behind the last argument.\<close>

definition main_args :: "string list \<Rightarrow> (GlobalArgs \<times> nat) option" where
  "main_args argv =
     (case getopt_answers opt_string argv getopt_start of (found, k) \<Rightarrow>
        (case parse_options initial_args 0 found of
           None \<Rightarrow> None
         | Some (args, usages) \<Rightarrow> Some (args\<lparr>arg_url := (if k < length argv then Some (argv ! k) else None)\<rparr>, usages)))"

text \<open>The call: \<open>CreateClient\<close> makes a \<open>CurlClient\<close>, and \<open>PerformRequestSync\<close> of it starts.\<close>

definition CreateClient :: CurlClient where
  "CreateClient = new_CurlClient"

definition main_call :: "GlobalArgs \<Rightarrow> bool \<Rightarrow> 32 word \<Rightarrow> sync_call res" where
  "main_call args init_ok now_ms =
     res_bind (main_request args) (\<lambda>request. PerformRequestSync_start CreateClient request init_ok now_ms)"

text \<open>What is printed of the response: the content length, a heading and a line for each header. \<open>headerMap\<close> is an
  \<open>unordered_map\<close>, whose iteration order the standard leaves open: \<open>iteration\<close> is the sequence of entries of a map that
  the loop sees. The standard promises that it has every key once, with its value.\<close>

type_synonym iteration = "(string \<rightharpoonup> string) \<Rightarrow> (string \<times> string) list"

definition iterates :: "iteration \<Rightarrow> bool" where
  "iterates iteration \<longleftrightarrow> (\<forall>m. finite (dom m) \<longrightarrow> distinct (map fst (iteration m)) \<and> map_of (iteration m) = m)"

definition main_output :: "iteration \<Rightarrow> ResponseImpl \<Rightarrow> string list" where
  "main_output iteration response =
     (show_nat (unat (expectedContentLength response)) @ ''headers :'')
     # map (\<lambda>(k, v). k @ '': '' @ v) (iteration (headerMap response))"

text \<open>The lines printed by a program that has returned from its call; \<open>None\<close> while it waits. A null response would be
  dereferenced.\<close>

definition main_printed :: "iteration \<Rightarrow> nat \<Rightarrow> sync_call \<Rightarrow> string list res option" where
  "main_printed iteration usages s =
     (case caller_at (sc_sync s) of
        SyncReturned (Some r) \<Rightarrow> Some (Inr (replicate usages display_usage @ main_output iteration r))
      | SyncReturned None \<Rightarrow> Some (Inl NullDeref)
      | _ \<Rightarrow> None)"

section \<open>Lemmas\<close>

text \<open>Every answer for the option string is one of its characters, so the default branch of the loop is not reached.\<close>

lemma takes_argument_opt_string:
  "takes_argument opt_string c =
     (if c = CHR ''o'' then Some True else if c \<in> {CHR ''v'', CHR ''h'', CHR ''?''} then Some False else None)"
  by (auto simp: opt_string_def)

lemma getopt_range:
  assumes "getopt opt_string argv s = (Some a, s')"
  shows "fst a \<in> set ''ovh?''"
  using assms
proof (rule getopt_Some)
  fix c rest
  assume g: "getopt_char opt_string argv c rest (optind s) = (a, s')"
  show ?thesis
    using arg_cong[OF g, of "\<lambda>x. fst (fst x)"]
    by (cases "c = CHR ''o''"; cases "c \<in> {CHR ''v'', CHR ''h'', CHR ''?''}")
      (auto simp: getopt_char_def takes_argument_opt_string Let_def split: if_splits)
qed

lemma getopt_answers_range: "\<forall>a\<in>set (fst (getopt_answers opt_string argv s)). fst a \<in> set ''ovh?''"
proof (induction "getopt_size argv s" arbitrary: s rule: less_induct)
  case less
  obtain x s' where g: "getopt opt_string argv s = (x, s')" by fastforce
  show ?case
  proof (cases x)
    case (Some a)
    obtain as k where r: "getopt_answers opt_string argv s' = (as, k)" by fastforce
    have "\<forall>a\<in>set as. fst a \<in> set ''ovh?''" using less[OF getopt_progress[OF g[unfolded Some]]] r by simp
    then show ?thesis
      using getopt_range[OF g[unfolded Some]] r by (simp add: getopt_answers.simps[of _ argv s] g Some)
  qed (simp add: getopt_answers.simps[of _ argv s] g)
qed

lemma parse_options_spec:
  assumes "\<forall>a\<in>set found. fst a \<in> set ''ovh?''"
  shows "parse_options args n found = Some
    (args\<lparr>out_file_name := (case filter (\<lambda>a. fst a = CHR ''o'') found of [] \<Rightarrow> out_file_name args | os \<Rightarrow> snd (last os)),
          verbose := verbose args \<or> CHR ''v'' \<in> fst ` set found\<rparr>,
     n + length (filter (\<lambda>a. fst a \<in> {CHR ''h'', CHR ''?''}) found))"
  using assms
proof (induction found arbitrary: args n)
  case (Cons a found)
  obtain c x where a: "a = (c, x)" by fastforce
  have "c \<in> {CHR ''o'', CHR ''v'', CHR ''h'', CHR ''?''}" using Cons.prems a by auto
  moreover have "\<forall>a\<in>set found. fst a \<in> set ''ovh?''" using Cons.prems by auto
  ultimately show ?case
    using Cons.IH a by (auto split: list.splits)
qed simp

section \<open>Command lines\<close>

text \<open>A group of options behind one hyphen, with the flags \<open>v\<close> and \<open>h\<close> and, as its last option, \<open>o\<close> with its
  argument attached or as the next element.\<close>

datatype output_arg = NoOutput | Attached string | Separate string

datatype option_group = Group string output_arg

fun group_words :: "option_group \<Rightarrow> string list" where
  "group_words (Group flags NoOutput) = [CHR ''-'' # flags]"
| "group_words (Group flags (Attached f)) = [CHR ''-'' # flags @ CHR ''o'' # f]"
| "group_words (Group flags (Separate f)) = [CHR ''-'' # flags @ ''o'', f]"

fun group_ok :: "option_group \<Rightarrow> bool" where
  "group_ok (Group flags arg) \<longleftrightarrow> set flags \<subseteq> {CHR ''v'', CHR ''h''}
     \<and> (arg = NoOutput \<longrightarrow> flags \<noteq> []) \<and> arg \<noteq> Attached []"

fun group_answers :: "option_group \<Rightarrow> (char \<times> string option) list" where
  "group_answers (Group flags arg) = map (\<lambda>c. (c, None)) flags
     @ (case arg of NoOutput \<Rightarrow> [] | Attached f \<Rightarrow> [(CHR ''o'', Some f)] | Separate f \<Rightarrow> [(CHR ''o'', Some f)])"

definition operand :: "string \<Rightarrow> bool" where
  "operand u \<longleftrightarrow> length u < 2 \<or> hd u \<noteq> CHR ''-''"

abbreviation at_group :: "nat \<Rightarrow> string \<Rightarrow> getopt_state" where
  "at_group k rest \<equiv> \<lparr>optind = k, nextchar = rest\<rparr>"

abbreviation read_from :: "string list \<Rightarrow> getopt_state \<Rightarrow> (char \<times> string option) list \<times> nat" where
  "read_from argv s \<equiv> getopt_answers opt_string argv s"

lemma read_char:
  "read_from argv (at_group k (c # rest)) =
     (case getopt_char opt_string argv c rest k of (a, s') \<Rightarrow> apfst ((#) a) (read_from argv s'))"
  by (subst getopt_answers.simps) (simp add: getopt_def split: prod.splits)

lemma read_flags:
  assumes "set flags \<subseteq> {CHR ''v'', CHR ''h''}" "flags \<noteq> []"
  shows "read_from argv (at_group k (flags @ rest)) = apfst ((@) (map (\<lambda>c. (c, None)) flags))
     (read_from argv (if rest = [] then at_group (k + 1) [] else at_group k rest))"
  using assms
proof (induction flags)
  case (Cons c flags)
  have c: "getopt_char opt_string argv c (flags @ rest) k
      = ((c, None), if flags @ rest = [] then at_group (k + 1) [] else at_group k (flags @ rest))"
    using Cons.prems(1) by (auto simp: getopt_char_def takes_argument_opt_string)
  show ?case
  proof (cases "flags = []")
    case False
    with Cons.IH Cons.prems(1) show ?thesis unfolding append_Cons read_char c by (simp add: apfst_def map_prod_def split_beta)
  qed (use c in \<open>simp add: read_char apfst_def map_prod_def split_beta\<close>)
qed simp

lemma read_output:
  "f \<noteq> [] \<Longrightarrow> read_from argv (at_group k (CHR ''o'' # f)) = apfst ((#) (CHR ''o'', Some f)) (read_from argv (at_group (k + 1) []))"
  "k + 1 < length argv \<Longrightarrow> read_from argv (at_group k ''o'')
     = apfst ((#) (CHR ''o'', Some (argv ! (k + 1)))) (read_from argv (at_group (k + 2) []))"
  by (simp_all add: read_char getopt_char_def takes_argument_opt_string)

lemma read_enter:
  assumes "k < length argv" "argv ! k = CHR ''-'' # rest" "rest \<noteq> []" "rest \<noteq> ''-''"
  shows "read_from argv (at_group k []) = read_from argv (at_group k rest)"
proof -
  obtain c cs where "rest = c # cs" using assms(3) by (cases rest) auto
  then have "getopt opt_string argv (at_group k []) = getopt opt_string argv (at_group k rest)"
    using assms by (auto simp: getopt_def Let_def)
  then show ?thesis by (simp add: getopt_answers.simps[of _ argv "at_group k []"] getopt_answers.simps[of _ argv "at_group k rest"])
qed

lemma read_group:
  assumes "argv = pre @ group_words g @ post" "group_ok g"
  shows "read_from argv (at_group (length pre) []) =
    apfst ((@) (group_answers g)) (read_from argv (at_group (length pre + length (group_words g)) []))"
proof -
  obtain flags arg where g: "g = Group flags arg" by (cases g)
  have fl: "set flags \<subseteq> {CHR ''v'', CHR ''h''}" using assms(2) g by simp
  define rest where "rest = (case arg of NoOutput \<Rightarrow> [] | Attached f \<Rightarrow> CHR ''o'' # f | Separate f \<Rightarrow> ''o'')"
  have enter: "read_from argv (at_group (length pre) []) = read_from argv (at_group (length pre) (flags @ rest))"
  proof (rule read_enter)
    show "length pre < length argv" "argv ! length pre = CHR ''-'' # flags @ rest"
      using assms(1) g by (cases arg; simp add: rest_def)+
    show "flags @ rest \<noteq> []" using assms(2) g by (cases arg) (auto simp: rest_def)
    show "flags @ rest \<noteq> ''-''"
      using fl by (cases flags; cases arg) (auto simp: rest_def)
  qed
  have flags: "read_from argv (at_group (length pre) (flags @ rest)) = apfst ((@) (map (\<lambda>c. (c, None)) flags))
      (read_from argv (if rest = [] then at_group (length pre + 1) [] else at_group (length pre) rest))"
    using read_flags[OF fl] assms(2) g by (cases "flags = []") (auto simp: rest_def apfst_def map_prod_def split_beta split: output_arg.splits)
  show ?thesis
  proof (cases arg)
    case NoOutput
    then show ?thesis unfolding enter flags by (simp add: g rest_def)
  next
    case (Attached f)
    then show ?thesis unfolding enter flags
      using assms(2) g read_output(1)[of f argv "length pre"] by (simp add: rest_def apfst_def map_prod_def split_beta)
  next
    case (Separate f)
    then show ?thesis unfolding enter flags
      using assms(1) g read_output(2)[of "length pre" argv]
      by (simp add: rest_def nth_append apfst_def map_prod_def split_beta)
  qed
qed

lemma read_groups:
  assumes "argv = pre @ concat (map group_words gs) @ post" "\<forall>g\<in>set gs. group_ok g"
  shows "read_from argv (at_group (length pre) []) = apfst ((@) (concat (map group_answers gs)))
    (read_from argv (at_group (length pre + length (concat (map group_words gs))) []))"
  using assms
proof (induction gs arbitrary: pre)
  case (Cons g gs)
  have 1: "read_from argv (at_group (length pre) []) =
      apfst ((@) (group_answers g)) (read_from argv (at_group (length (pre @ group_words g)) []))"
    using read_group[of argv pre g] Cons.prems by simp
  have "read_from argv (at_group (length (pre @ group_words g)) []) = apfst ((@) (concat (map group_answers gs)))
      (read_from argv (at_group (length (pre @ group_words g) + length (concat (map group_words gs))) []))"
    using Cons.prems by (intro Cons.IH) simp_all
  then show ?case unfolding 1 by (simp add: apfst_def map_prod_def split_beta add.assoc)
qed (simp add: apfst_def map_prod_def)

lemma read_end:
  "length argv \<le> k \<Longrightarrow> read_from argv (at_group k []) = ([], k)"
  "k < length argv \<Longrightarrow> operand (argv ! k) \<Longrightarrow> read_from argv (at_group k []) = ([], k)"
  "k < length argv \<Longrightarrow> argv ! k = ''--'' \<Longrightarrow> read_from argv (at_group k []) = ([], k + 1)"
  by (auto simp: getopt_answers.simps[of _ argv "at_group k []"] getopt_def operand_def Let_def)


section \<open>Properties\<close>

text \<open>The values that a list of option groups stands for.\<close>

definition group_args :: "option_group list \<Rightarrow> GlobalArgs" where
  "group_args gs = (let found = concat (map group_answers gs) in
     \<lparr>out_file_name = (case filter (\<lambda>a. fst a = CHR ''o'') found of [] \<Rightarrow> None | os \<Rightarrow> snd (last os)),
      verbose = (CHR ''v'' \<in> fst ` set found), arg_url = None\<rparr>)"

definition group_usages :: "option_group list \<Rightarrow> nat" where
  "group_usages gs = length (filter (\<lambda>a. fst a = CHR ''h'') (concat (map group_answers gs)))"

lemma group_answers_range: "group_ok g \<Longrightarrow> fst ` set (group_answers g) \<subseteq> {CHR ''o'', CHR ''v'', CHR ''h''}"
  by (cases g rule: group_answers.cases) (auto split: output_arg.splits)

lemma main_args_groups:
  assumes "\<forall>g\<in>set gs. group_ok g"
    and "tail = [] \<and> url_at = None \<or> tail = u # rest \<and> operand u \<and> url_at = Some u \<or> tail = ''--'' # u # rest \<and> url_at = Some u"
  shows "main_args (program # concat (map group_words gs) @ tail) = Some ((group_args gs)\<lparr>arg_url := url_at\<rparr>, group_usages gs)"
proof -
  let ?argv = "program # concat (map group_words gs) @ tail"
  let ?k = "Suc (length (concat (map group_words gs)))" and ?found = "concat (map group_answers gs)"
  have at: "?argv ! ?k = tail ! 0" "?argv ! Suc ?k = tail ! 1" by (simp_all add: nth_append)
  have g: "read_from ?argv (at_group 1 []) = apfst ((@) ?found) (read_from ?argv (at_group ?k []))"
    using read_groups[where argv = ?argv and pre = "[program]" and gs = gs and post = tail] assms(1) by simp
  obtain j where j: "read_from ?argv (at_group ?k []) = ([], j)"
    "(if j < length ?argv then Some (?argv ! j) else None) = url_at"
    using assms(2) at read_end[where argv = ?argv and k = ?k] by (elim disjE) (auto simp: nth_append)
  have r: "fst a \<in> {CHR ''o'', CHR ''v'', CHR ''h''}" if "a \<in> set ?found" for a
    using group_answers_range assms(1) that by fastforce
  have u: "filter (\<lambda>a. fst a \<in> {CHR ''h'', CHR ''?''}) ?found = filter (\<lambda>a. fst a = CHR ''h'') ?found"
    using r by (intro filter_cong[OF refl]) fastforce
  have p: "parse_options initial_args 0 ?found = Some (group_args gs, group_usages gs)"
  proof -
    have "\<forall>a\<in>set ?found. fst a \<in> set ''ovh?''" using r by fastforce
    from parse_options_spec[OF this, of initial_args 0] show ?thesis
      unfolding u by (simp add: group_args_def group_usages_def initial_args_def Let_def del: filter_concat set_concat cong: list.case_cong)
  qed
  show ?thesis
    using g j p by (simp add: main_args_def getopt_start_def)
qed

text \<open>(C39) Reading back a command line: for every sequence of option groups, written with \<open>o\<close> attached to its argument or apart
  from it and flags grouped in any way, followed by a URL, by two hyphens and a URL, or by nothing, the program finds
  the argument of the last \<open>o\<close>, verbose exactly when there is a \<open>v\<close>, displays the usage once for each \<open>h\<close> and takes the
  URL as it was written; without one it makes a string of a null pointer. For any arguments at all, the branch that
  exits is not reached.\<close>

theorem command_line_round_trip:
  assumes "\<forall>g\<in>set gs. group_ok g" "operand u \<and> tail = u # rest \<or> tail = ''--'' # u # rest"
  shows "main_args (program # concat (map group_words gs) @ tail) = Some ((group_args gs)\<lparr>arg_url := Some u\<rparr>, group_usages gs)
    \<and> main_args (program # concat (map group_words gs)) = Some (group_args gs, group_usages gs)
    \<and> main_call (group_args gs) init_ok now_ms = Inl NullDeref
    \<and> main_args argv \<noteq> None"
proof (intro conjI)
  show "main_args (program # concat (map group_words gs) @ tail) = Some ((group_args gs)\<lparr>arg_url := Some u\<rparr>, group_usages gs)"
    using assms by (intro main_args_groups[where u = u and rest = rest]) auto
  have n: "arg_url (group_args gs) = None" by (simp add: group_args_def Let_def)
  then have "(group_args gs)\<lparr>arg_url := None\<rparr> = group_args gs" by (cases "group_args gs") simp
  then show "main_args (program # concat (map group_words gs)) = Some (group_args gs, group_usages gs)"
    using main_args_groups[OF assms(1), of "[]" None u rest program] by simp
  show "main_call (group_args gs) init_ok now_ms = Inl NullDeref" by (simp add: main_call_def main_request_def n)
  obtain found k where f: "read_from argv getopt_start = (found, k)" by fastforce
  then have "\<forall>a\<in>set found. fst a \<in> set ''ovh?''" using getopt_answers_range[of argv getopt_start] by simp
  from parse_options_spec[OF this] f show "main_args argv \<noteq> None" by (simp add: main_args_def)
qed

theorem command_line_round_trip_witness:
  "main_args [''ff'', ''-vo'', ''f'', ''-h'', ''u''] = Some (\<lparr>out_file_name = Some ''f'', verbose = True, arg_url = Some ''u''\<rparr>, 1)
    \<and> main_args [''ff'', ''-x'', ''-o''] \<noteq> None"
  using command_line_round_trip[of "[Group ''v'' (Separate ''f''), Group ''h'' NoOutput]" "''u''" "[''u'']" "[]" "''ff''"
      True 0 "[''ff'', ''-x'', ''-o'']"]
  by (simp add: operand_def group_args_def group_usages_def)

text \<open>(C26) What the program prints: with a URL, in every interleaving of its call with the request thread and with other
  users of the client that do not submit the same request, once the call returns the output is the usage as often as it
  was asked for, a line that starts with the content length 0 (the body is never counted), and exactly the headers of
  the response that the client delivered for the request of that URL: for every key in a header line that curl
  delivered, one line with the value of the last such line; none if the request was cancelled, which the program does
  not do. The order of the lines is that of the hash map.\<close>

theorem command_line_prints_response:
  assumes "arg_url args = Some u" "length u < 2 ^ 29" "iterates iteration"
  shows "\<exists>s. main_call args init_ok now_ms = Inr s
    \<and> (\<forall>s' out. (sync_move True)\<^sup>*\<^sup>* s s' \<and> main_printed iteration usages s' = Some out \<longrightarrow>
        (\<exists>r hs. out = Inr (replicate usages display_usage @ (''0headers :'' # map (\<lambda>(k, v). k @ '': '' @ v) hs))
          \<and> distinct (map fst hs)
          \<and> map_of hs = (if Response_cancelled r then Map.empty else last_header (sc_lines s'))
          \<and> (sc_task s', r) \<in> set (delivered (sc_client s'))
          \<and> Response_request r = Some (CreateRequest u [])))"
proof -
  let ?req = "CreateRequest u []"
  have "amalgamation ?req = Inr (to_bytes u)"
    by (simp add: amalgamation_def CreateRequest_def new_RequestImpl_def)
  then have h: "hash ?req = Inr (concat (map hex_byte (fips_sha256 (to_bytes u))))" (is "_ = Inr ?h")
    using sha256_eq[of "to_bytes u"] assms(2) by (simp add: hash_def to_bytes_def)
  obtain s where s: "PerformRequestSync_start CreateClient ?req init_ok now_ms = Inr s"
    using h by (auto simp: PerformRequestSync_start_def PerformRequest_def TaskWithRequest_def new_RequestTaskImpl_def Let_def)
  have "sync_system True ?req s"
    by (rule sync_system.start[OF cl_reach.start s[unfolded CreateClient_def]]) (simp add: new_CurlClient_def)
  then have sys: "sync_system True ?req s'" if "(sync_move True)\<^sup>*\<^sup>* s s'" for s'
    by (rule sync_moves_system[OF that])
  have "\<exists>r hs. out = Inr (replicate usages display_usage @ (''0headers :'' # map (\<lambda>(k, v). k @ '': '' @ v) hs))
      \<and> distinct (map fst hs) \<and> map_of hs = (if Response_cancelled r then Map.empty else last_header (sc_lines s'))
      \<and> (sc_task s', r) \<in> set (delivered (sc_client s')) \<and> Response_request r = Some ?req"
    if m: "(sync_move True)\<^sup>*\<^sup>* s s'" and p: "main_printed iteration usages s' = Some out" for s' out
  proof -
    obtain x where x: "caller_at (sc_sync s') = SyncReturned x"
      using p by (auto simp: main_printed_def split: sync_caller.splits)
    from sync_returned[OF sys[OF m] x] obtain r where r: "x = Some r"
      "map_of (delivered (sc_client s')) (sc_task s') = Some r" "response_request r = Some ?req"
      "headerMap r = (if Response_cancelled r then Map.empty else last_header (sc_lines s'))"
      by (auto simp: response_accessors)
    have "finite (dom (headerMap r))" unfolding r(4) using last_header_dom by simp
    then have it: "distinct (map fst (iteration (headerMap r)))" "map_of (iteration (headerMap r)) = headerMap r"
      using assms(3) unfolding iterates_def by blast+
    have "out = Inr (replicate usages display_usage @ (''0headers :'' # map (\<lambda>(k, v). k @ '': '' @ v) (iteration (headerMap r))))"
      using p x r(1) by (simp add: main_printed_def main_output_def expectedContentLength_def show_nat.simps char_of_def bit_0)
    with it r show ?thesis
      by (intro exI[of _ r] exI[of _ "iteration (headerMap r)"] conjI) (simp_all add: Response_request_def map_of_SomeD)
  qed
  with s assms(1) show ?thesis by (auto simp: main_call_def main_request_def)
qed

lemma map_of_one:
  assumes "distinct (map fst xs)" "map_of xs = [k \<mapsto> v]"
  shows "xs = [(k, v)]"
proof -
  have "(a, b) \<in> set xs \<longleftrightarrow> a = k \<and> b = v" for a b
    using map_of_eq_Some_iff[OF assms(1), of a b] assms(2) by (cases "a = k") auto
  then have s: "set xs = {(k, v)}" by auto
  moreover have "distinct xs" using assms(1) by (simp add: distinct_map)
  ultimately have "length xs = 1" using distinct_card[of xs] by simp
  with s show ?thesis by (cases xs) auto
qed

lemma last_header_one: "last_header [''a: b''] = [''a'' \<mapsto> ''b'']"
proof
  fix k
  have "starts_with_key k ''a: b'' \<longleftrightarrow> k = ''a''" if "CHR '':'' \<notin> set k"
    using starts_with_key_append[OF that, of "''a''" "'' b''"] by simp
  then show "last_header [''a: b''] k = [''a'' \<mapsto> ''b''] k"
    using last_header_snoc[of "[]" "''a: b''" k] by auto
qed

text \<open>The keys in order, as one such iteration.\<close>

definition sorted_iteration :: iteration where
  "sorted_iteration m = map (\<lambda>k. (k, the (m k))) (sorted_list_of_set (dom m))"

lemma sorted_iterates: "iterates sorted_iteration"
  unfolding iterates_def
proof (intro allI impI conjI)
  fix m :: "string \<rightharpoonup> string"
  assume f: "finite (dom m)"
  then show "distinct (map fst (sorted_iteration m))" by (simp add: sorted_iteration_def comp_def)
  show "map_of (sorted_iteration m) = m"
  proof
    fix k
    show "map_of (sorted_iteration m) k = m k"
      using f by (cases "m k") (auto simp: sorted_iteration_def map_of_map_keys[where xs = "sorted_list_of_set (dom m)"] domIff)
  qed
qed

theorem command_line_prints_response_witness:
  "\<exists>s' r. main_call ((group_args [])\<lparr>arg_url := Some ''u''\<rparr>) True 5 = Inr demo_call_start
    \<and> (sync_move True)\<^sup>*\<^sup>* demo_call_start s'
    \<and> main_printed sorted_iteration 1 s' = Some (Inr [display_usage, ''0headers :'', ''a: b''])
    \<and> (sc_task s', r) \<in> set (delivered (sc_client s')) \<and> Response_request r = Some demo_request"
proof -
  let ?args = "(group_args [])\<lparr>arg_url := Some ''u''\<rparr>"
  have q: "CreateRequest ''u'' [] = demo_request" by (simp add: CreateRequest_def demo_request_def)
  have c: "main_call ?args True 5 = Inr demo_call_start"
    by (simp add: main_call_def main_request_def CreateClient_def q demo_call_begin)
  obtain c' x where h: "HandleMsg demo_headed (demo_msg 0 200) = Inr c'" "delivered c' = [(0, x)]" "\<not> Response_cancelled x"
    using demo_call_msg by (auto simp: Response_cancelled_def)
  let ?s = "demo_call_done x c'"
  have m: "(sync_move True)\<^sup>*\<^sup>* demo_call_start ?s" by (rule demo_call_moves[OF h(1,2)])
  obtain out where o: "main_printed sorted_iteration 1 ?s = Some out"
    by (simp add: main_printed_def demo_call_done_def caller_test_def callback_store_def)
  have "\<exists>r hs. out = Inr (replicate 1 display_usage @ (''0headers :'' # map (\<lambda>(k, v). k @ '': '' @ v) hs))
      \<and> distinct (map fst hs) \<and> map_of hs = (if Response_cancelled r then Map.empty else last_header (sc_lines ?s))
      \<and> (sc_task ?s, r) \<in> set (delivered (sc_client ?s)) \<and> Response_request r = Some (CreateRequest ''u'' [])"
    using command_line_prints_response[of ?args "''u''" sorted_iteration True 5 1] sorted_iterates c m o by fastforce
  then obtain hs where hs: "out = Inr (replicate 1 display_usage @ (''0headers :'' # map (\<lambda>(k, v). k @ '': '' @ v) hs))"
    "distinct (map fst hs)" "map_of hs = [''a'' \<mapsto> ''b'']" and r: "Response_request x = Some demo_request"
    using h(2,3) by (auto simp: demo_call_done_def last_header_one q)
  have "hs = [(''a'', ''b'')]" by (rule map_of_one[OF hs(2,3)])
  with c m o hs(1) h(2) r show ?thesis by (intro exI[of _ ?s] exI[of _ x]) (simp add: demo_call_done_def)
qed

text \<open>The option loop: for every sequence of answers that \<open>getopt\<close> gives for the option string, the program does
  not exit; the file name is the argument of the last \<open>-o\<close>, verbose is set exactly by a \<open>-v\<close>, and help or an
  unknown option does not stop it. The request that follows is for the first remaining argument, whatever the
  options were, and without one it is made from a null pointer.\<close>

theorem command_line_parsed:
  assumes "\<forall>a\<in>set found. fst a \<in> set ''ovh?''"
  shows "\<exists>args. main_parse found argv_optind = Some (args, case argv_optind of None \<Rightarrow> Inl NullDeref
        | Some u \<Rightarrow> Inr (CreateRequest u []))
    \<and> (verbose args \<longleftrightarrow> CHR ''v'' \<in> fst ` set found) \<and> arg_url args = argv_optind
    \<and> out_file_name args = (case filter (\<lambda>a. fst a = CHR ''o'') found of [] \<Rightarrow> None | os \<Rightarrow> snd (last os))"
  by (simp add: main_parse_def parse_options_spec[OF assms] main_request_def initial_args_def split: list.split)

theorem command_line_parsed_witness:
  "\<exists>args. main_parse [(CHR ''o'', Some ''a''), (CHR ''h'', None), (CHR ''o'', Some ''b'')] None = Some (args, Inl NullDeref)
    \<and> out_file_name args = Some ''b'' \<and> \<not> verbose args"
  using command_line_parsed[of "[(CHR ''o'', Some ''a''), (CHR ''h'', None), (CHR ''o'', Some ''b'')]" None]
  by auto

end
