(* ===== verification/Time_Float.thy ===== *)
theory Time_Float
  imports Time_Types Double_Arith
begin

text \<open>
  The conversions of \<open>time_delta.h\<close> between \<open>TimeDelta\<close> and \<open>double\<close>. The lemmas give their accuracy: seconds as a
  double and back lose at most one nanosecond for spans of up to \<open>2\<^sup>5\<^sup>1\<close> nanoseconds (26 days), the conversions
  keep order and sign.
\<close>

definition ToNanosecondsFloat :: "TimeDelta \<Rightarrow> double" where
  "ToNanosecondsFloat d = double_of_int (delta d)"

definition ToMicrosecondsFloat :: "TimeDelta \<Rightarrow> double" where
  "ToMicrosecondsFloat d = double_div (double_of_int (delta d)) 1000"

definition ToMillisecondsFloat :: "TimeDelta \<Rightarrow> double" where
  "ToMillisecondsFloat d = double_div (double_of_int (delta d)) (double_times 1000 1000)"

definition ToSecondsFloat :: "TimeDelta \<Rightarrow> double" where
  "ToSecondsFloat d = double_div (double_of_int (delta d)) (double_times (double_times 1000 1000) 1000)"

definition FromSecondsFloat :: "double \<Rightarrow> TimeDelta res" where
  "FromSecondsFloat seconds =
     res_bind (int64_of_double (double_times seconds (double_times (double_times 1000 1000) 1000)))
       (\<lambda>n. Inr (FromNanoseconds n))"

section \<open>Accuracy\<close>

lemma float_constants [simp]:
  "double_times 1000 1000 = 1000000" "double_times 1000000 1000 = 1000000000"
  using fl_exact[of 1000000 0] fl_exact[of 1000000000 0] by (simp_all add: double_times_def)

lemma ToSecondsFloat_mono: "d \<le> e \<Longrightarrow> ToSecondsFloat d \<le> ToSecondsFloat e"
  by (auto simp: ToSecondsFloat_def double_div_def double_of_int_def less_eq_TimeDelta_def
      intro!: fl_mono divide_right_mono)

lemma ToSecondsFloat_sign: "ToSecondsFloat d \<le> 0 \<longleftrightarrow> delta d \<le> 0" "ToSecondsFloat d < 0 \<longleftrightarrow> delta d < 0"
  by (simp_all add: ToSecondsFloat_def double_div_def double_of_int_def fl_sign divide_le_0_iff divide_less_0_iff)

lemma ToSecondsFloat_error:
  assumes "\<bar>delta d\<bar> < 2 ^ 53"
  shows "\<bar>ToSecondsFloat d - rat_of_int (delta d) / 1000000000\<bar> \<le> \<bar>rat_of_int (delta d)\<bar> / 1000000000 / 2 ^ 53"
  using fl_error[of "rat_of_int (delta d) / 1000000000"]
  by (simp add: ToSecondsFloat_def double_div_def double_of_int_exact[OF assms])

lemma truncate_near:
  assumes "\<bar>y - rat_of_int n\<bar> < 1"
  shows "truncate_rat y \<in> {n - 1, n, n + 1}" "0 \<le> n \<Longrightarrow> truncate_rat y \<le> n" "n \<le> 0 \<Longrightarrow> n \<le> truncate_rat y"
proof -
  have "rat_of_int (n - 1) < y" "y < rat_of_int (n + 1)" using assms by (auto simp: abs_less_iff)
  then have y: "n - 1 \<le> \<lfloor>y\<rfloor>" "\<lfloor>y\<rfloor> \<le> n" "n \<le> \<lceil>y\<rceil>" "\<lceil>y\<rceil> \<le> n + 1" by linarith+
  have int: "t \<in> {n - 1, n, n + 1} \<and> (0 \<le> n \<longrightarrow> t \<le> n) \<and> (n \<le> 0 \<longrightarrow> n \<le> t)"
    if "t = f \<and> 0 \<le> f \<or> t = c \<and> c \<le> 0" "n - 1 \<le> f" "f \<le> n" "n \<le> c" "c \<le> n + 1" for t f c
    using that by auto
  have "truncate_rat y = \<lfloor>y\<rfloor> \<and> 0 \<le> \<lfloor>y\<rfloor> \<or> truncate_rat y = \<lceil>y\<rceil> \<and> \<lceil>y\<rceil> \<le> 0"
    by (cases "0 \<le> y") (simp_all add: truncate_rat_def)
  from int[OF this y]
  show "truncate_rat y \<in> {n - 1, n, n + 1}" "0 \<le> n \<Longrightarrow> truncate_rat y \<le> n" "n \<le> 0 \<Longrightarrow> n \<le> truncate_rat y"
    by blast+
qed

lemma seconds_back_error:
  assumes "\<bar>delta d\<bar> \<le> 2 ^ 51"
  shows "\<bar>double_times (ToSecondsFloat d) 1000000000 - rat_of_int (delta d)\<bar> < 1"
proof -
  let ?n = "rat_of_int (delta d)" and ?x = "ToSecondsFloat d * 1000000000"
  have n: "\<bar>?n\<bar> \<le> 2 ^ 51" using assms by (metis of_int_abs of_int_le_iff of_int_numeral of_int_power)
  have "\<bar>?x - ?n\<bar> = \<bar>ToSecondsFloat d - ?n / 1000000000\<bar> * 1000000000" by (simp add: abs_if field_simps)
  also have "\<dots> \<le> \<bar>?n\<bar> / 2 ^ 53" using ToSecondsFloat_error[of d] assms by simp
  finally have x: "\<bar>?x - ?n\<bar> \<le> \<bar>?n\<bar> / 2 ^ 53" .
  have "\<bar>fl ?x - ?x\<bar> \<le> \<bar>?x\<bar> / 2 ^ 53" by (rule fl_error)
  moreover have "\<bar>?x\<bar> \<le> \<bar>?n\<bar> + \<bar>?n\<bar> / 2 ^ 53" using x by (simp add: abs_if split: if_splits)
  ultimately have "\<bar>fl ?x - ?n\<bar> \<le> (\<bar>?n\<bar> + \<bar>?n\<bar> / 2 ^ 53) / 2 ^ 53 + \<bar>?n\<bar> / 2 ^ 53"
    using x by (simp add: abs_if split: if_splits)
  also have "\<dots> < 1" using n by simp
  finally show ?thesis by (simp add: double_times_def)
qed

section \<open>Properties\<close>

text \<open>(C40) Seconds as a double and back: for spans of up to \<open>2\<^sup>5\<^sup>1\<close> nanoseconds in either direction the conversion to a
  double and back succeeds and gives the span or one that is a nanosecond nearer to zero, never more; the
  conversion to a double keeps the order of spans and their sign.\<close>

theorem seconds_float_round_trip:
  assumes "\<bar>delta d\<bar> \<le> 2 ^ 51"
  shows "\<exists>e. FromSecondsFloat (ToSecondsFloat d) = Inr e
    \<and> (0 \<le> delta d \<longrightarrow> delta e \<in> {delta d - 1, delta d}) \<and> (delta d \<le> 0 \<longrightarrow> delta e \<in> {delta d, delta d + 1})
    \<and> (\<forall>d'. d \<le> d' \<longrightarrow> ToSecondsFloat d \<le> ToSecondsFloat d') \<and> (ToSecondsFloat d \<le> 0 \<longleftrightarrow> delta d \<le> 0)"
proof -
  let ?t = "truncate_rat (double_times (ToSecondsFloat d) 1000000000)"
  note t = truncate_near[OF seconds_back_error[OF assms]]
  have "in_int64 ?t" using t(1) assms by (auto simp: int64_bounds)
  then have "FromSecondsFloat (ToSecondsFloat d) = Inr (TimeDelta ?t)"
    by (simp add: FromSecondsFloat_def int64_of_double_def int64_def FromNanoseconds_def)
  with t show ?thesis by (auto simp: ToSecondsFloat_mono ToSecondsFloat_sign)
qed

text \<open>Fifteen nanoseconds come back as fourteen.\<close>

theorem seconds_float_round_trip_witness:
  "FromSecondsFloat (ToSecondsFloat (TimeDelta 15)) = Inr (TimeDelta 14) \<and> ToSecondsFloat (TimeDelta 15) > 0"
proof -
  have "FromSecondsFloat (ToSecondsFloat (TimeDelta 15)) = Inr (TimeDelta 14)" by code_simp
  with seconds_float_round_trip[of "TimeDelta 15"] show ?thesis by auto
qed

end
