(* ===== verification/Darwin_Loop.thy ===== *)
theory Darwin_Loop
  imports Message_Loop_Laws Time_Float
begin

text \<open>
  The Darwin backend of the message loop, \<open>MessageLoopDarwin\<close> (\<open>message_loop_impl_darwin.h\<close>, \<open>.mm\<close>), with the
  operations of its base class \<open>MessageLoopImpl\<close> that call its \<open>WakeUp\<close>. The state is that of one loop and the
  task-queue registry. The framework's part is in the state and the arguments: the fire date of the timer (\<open>None\<close>
  when it has none, as after it has fired, since its interval is \<open>HUGE_VAL\<close>), the number of calls of
  \<open>CFRunLoopStop\<close>, the successive readings of \<open>TimePoint::Now()\<close> and of \<open>CFAbsoluteTimeGetCurrent()\<close>, and for every
  call of \<open>CFRunLoopRunInMode\<close> what happens during it (the timer fires, other threads run closures) and its
  result. Readings that are only written to the log are left out.
\<close>

section \<open>State\<close>

record ('c, 'u) darwin =
  dq :: "('c, unit) MessageLoopTaskQueues"
  d_queue_id :: TaskQueueId
  d_terminated :: bool
  d_running :: bool
  fire_date :: "double option"
  stop_calls :: nat
  d_clock :: "nat \<Rightarrow> int"
  d_clock_reads :: nat
  abs_clock :: "nat \<Rightarrow> double"
  abs_reads :: nat
  d_user :: 'u

definition d_Now :: "('c, 'u) darwin \<Rightarrow> TimePoint \<times> ('c, 'u) darwin" where
  "d_Now s = (TimePoint_Now (d_clock s (d_clock_reads s)), s\<lparr>d_clock_reads := d_clock_reads s + 1\<rparr>)"

definition CFAbsoluteTimeGetCurrent :: "('c, 'u) darwin \<Rightarrow> double \<times> ('c, 'u) darwin" where
  "CFAbsoluteTimeGetCurrent s = (abs_clock s (abs_reads s), s\<lparr>abs_reads := abs_reads s + 1\<rparr>)"

definition kDistantFuture :: double where
  "kDistantFuture = 10000000000"

section \<open>Life cycle\<close>

text \<open>The constructors: the base class registers the queue and the loop as its wakeable, the derived one keeps the
  run loop of the thread and creates a timer with a distant fire date. Whether the framework returned a run loop
  and a timer are the last two arguments.\<close>

definition MessageLoopDarwin_create ::
  "('c, unit) MessageLoopTaskQueues \<Rightarrow> (nat \<Rightarrow> int) \<Rightarrow> (nat \<Rightarrow> double) \<Rightarrow> 'u \<Rightarrow> bool \<Rightarrow> bool \<Rightarrow> ('c, 'u) darwin res" where
  "MessageLoopDarwin_create tq clk ab u has_loop has_timer =
     (case CreateTaskQueue tq of (tq, qid) \<Rightarrow>
        res_bind (SetWakeable tq qid (Some ())) (\<lambda>tq.
        res_bind (ff_check has_loop) (\<lambda>_.
        res_bind (ff_check has_timer) (\<lambda>_.
          Inr \<lparr>dq = tq, d_queue_id = qid, d_terminated = False, d_running = False, fire_date = Some kDistantFuture,
            stop_calls = 0, d_clock = clk, d_clock_reads = 0, abs_clock = ab, abs_reads = 0, d_user = u\<rparr>))))"

text \<open>The destructors: the timer is invalidated and leaves the run loop, then the base class disposes of the queue.\<close>

definition MessageLoopDarwin_destroy :: "('c, 'u) darwin \<Rightarrow> ('c, unit) MessageLoopTaskQueues res" where
  "MessageLoopDarwin_destroy s = Dispose (dq s) (d_queue_id s)"

section \<open>Wake-ups\<close>

text \<open>The fire date that \<open>WakeUp\<close> computes from its two clock readings.\<close>

definition fire_at :: "TimePoint \<Rightarrow> TimePoint \<Rightarrow> double \<Rightarrow> double res" where
  "fire_at time_point now absolute =
     res_bind (tp_diff time_point now) (\<lambda>d.
       let wakeup_delay_seconds = ToSecondsFloat d;
           wakeup_delay_seconds = (if wakeup_delay_seconds < 0 then 0 else wakeup_delay_seconds)
       in Inr (double_plus absolute wakeup_delay_seconds))"

definition Darwin_WakeUp :: "('c, 'u) darwin \<Rightarrow> TimePoint \<Rightarrow> ('c, 'u) darwin res" where
  "Darwin_WakeUp s time_point =
     (case d_Now s of (now, s) \<Rightarrow> case CFAbsoluteTimeGetCurrent s of (absolute, s) \<Rightarrow>
        res_bind (fire_at time_point now absolute) (\<lambda>date. Inr (s\<lparr>fire_date := Some date\<rparr>)))"

fun d_wake_all :: "('c, 'u) darwin \<Rightarrow> unit wakes \<Rightarrow> ('c, 'u) darwin res" where
  "d_wake_all s [] = Inr s"
| "d_wake_all s ((w, t) # ws) = res_bind (Darwin_WakeUp s t) (\<lambda>s. d_wake_all s ws)"

section \<open>Tasks\<close>

definition d_PostTask :: "('c, 'u) darwin \<Rightarrow> 'c closure \<Rightarrow> TimePoint \<Rightarrow> ('c, 'u) darwin res" where
  "d_PostTask s task target_time =
     res_bind (ff_check (task \<noteq> None)) (\<lambda>_.
       if d_terminated s then Inr s
       else case d_Now s of (now, s) \<Rightarrow>
         res_bind (RegisterTask (dq s) (d_queue_id s) task target_time now) (\<lambda>(tq, wk).
           d_wake_all (s\<lparr>dq := tq\<rparr>) wk))"

type_synonym ('c, 'u) d_caller = "'c \<Rightarrow> ('c, 'u) darwin \<Rightarrow> ('c, 'u) darwin res"

definition d_invoke :: "('c, 'u) d_caller \<Rightarrow> 'c closure \<Rightarrow> ('c, 'u) darwin \<Rightarrow> ('c, 'u) darwin res" where
  "d_invoke call c s = (case c of None \<Rightarrow> Inl BadFunctionCall | Some f \<Rightarrow> call f s)"

fun d_invoke_all :: "('c, 'u) d_caller \<Rightarrow> 'c closure list \<Rightarrow> ('c, 'u) darwin \<Rightarrow> ('c, 'u) darwin res" where
  "d_invoke_all call [] s = Inr s"
| "d_invoke_all call (c # cs) s = res_bind (d_invoke call c s) (d_invoke_all call cs)"

fun d_run_invocations :: "('c, 'u) d_caller \<Rightarrow> 'c closure list \<Rightarrow> ('c, 'u) darwin \<Rightarrow> ('c, 'u) darwin res" where
  "d_run_invocations call [] s = Inr s"
| "d_run_invocations call (c # cs) s =
     res_bind (d_invoke call c s) (\<lambda>s.
     res_bind (GetObserversToNotify (dq s) (d_queue_id s)) (\<lambda>observers.
     res_bind (d_invoke_all call observers s) (d_run_invocations call cs)))"

definition d_grab_tasks :: "('c, 'u) darwin \<Rightarrow> FlushType \<Rightarrow> ('c closure list \<times> ('c, 'u) darwin) res" where
  "d_grab_tasks s type =
     (case d_Now s of (now, s) \<Rightarrow>
        res_bind (GetTasksToRunNow (dq s) (d_queue_id s) type now []) (\<lambda>(tq, invocations, wk).
        res_bind (d_wake_all (s\<lparr>dq := tq\<rparr>) wk) (\<lambda>s. Inr (invocations, s))))"

definition d_FlushTasks :: "('c, 'u) d_caller \<Rightarrow> ('c, 'u) darwin \<Rightarrow> FlushType \<Rightarrow> ('c, 'u) darwin res" where
  "d_FlushTasks call s type =
     res_bind (d_grab_tasks s type) (\<lambda>(invocations, s). d_run_invocations call invocations s)"

definition d_RunExpiredTasksNow :: "('c, 'u) d_caller \<Rightarrow> ('c, 'u) darwin \<Rightarrow> ('c, 'u) darwin res" where
  "d_RunExpiredTasksNow call s = d_FlushTasks call s FlushAll"

definition OnTimerFire :: "('c, 'u) d_caller \<Rightarrow> ('c, 'u) darwin \<Rightarrow> ('c, 'u) darwin res" where
  "OnTimerFire call s = d_RunExpiredTasksNow call s"

section \<open>The run loop\<close>

datatype 'c cf_event = TimerFires | OtherThread 'c

datatype cf_result = kCFRunLoopRunFinished | kCFRunLoopRunStopped | kCFRunLoopRunTimedOut | kCFRunLoopRunHandledSource

record 'c cf_run =
  cf_events :: "'c cf_event list"
  cf_result :: cf_result

text \<open>What happens inside \<open>CFRunLoopRunInMode\<close>: a timer that fires gets its next fire date from its interval, here
  none, before its callback runs.\<close>

fun cf_run_events :: "('c, 'u) d_caller \<Rightarrow> 'c cf_event list \<Rightarrow> ('c, 'u) darwin \<Rightarrow> ('c, 'u) darwin res" where
  "cf_run_events call [] s = Inr s"
| "cf_run_events call (TimerFires # es) s = res_bind (OnTimerFire call (s\<lparr>fire_date := None\<rparr>)) (cf_run_events call es)"
| "cf_run_events call (OtherThread c # es) s = res_bind (call c s) (cf_run_events call es)"

text \<open>The \<open>while\<close> loop; the result says whether it was left or is inside \<open>CFRunLoopRunInMode\<close>.\<close>

fun d_run_loop ::
  "('c, 'u) d_caller \<Rightarrow> TimePoint \<Rightarrow> double \<Rightarrow> 'c cf_run list \<Rightarrow> ('c, 'u) darwin \<Rightarrow> (bool \<times> ('c, 'u) darwin) res" where
  "d_run_loop call start_time left_seconds [] s = Inr (\<not> d_running s, s)"
| "d_run_loop call start_time left_seconds (r # rs) s =
     (if \<not> d_running s then Inr (True, s) else
      res_bind (cf_run_events call (cf_events r) s) (\<lambda>s.
      res_bind
        (if cf_result r = kCFRunLoopRunStopped \<or> cf_result r = kCFRunLoopRunFinished \<or> cf_result r = kCFRunLoopRunTimedOut
         then res_bind (d_RunExpiredTasksNow call s) (\<lambda>s. Inr (s\<lparr>d_running := False\<rparr>))
         else Inr s) (\<lambda>s.
      case d_Now s of (now, s) \<Rightarrow>
      res_bind (tp_diff now start_time) (\<lambda>d.
        let left_seconds = double_minus left_seconds (ToSecondsFloat d);
            s = (if left_seconds \<le> 0 then s\<lparr>d_running := False\<rparr> else s)
        in d_run_loop call start_time left_seconds rs s))))"

definition Darwin_RunForTime ::
  "('c, 'u) d_caller \<Rightarrow> ('c, 'u) darwin \<Rightarrow> bool \<Rightarrow> TimeDelta \<Rightarrow> 'c cf_run list \<Rightarrow> (bool \<times> ('c, 'u) darwin) res" where
  "Darwin_RunForTime call s on_own_thread duration rs =
     res_bind (ff_check on_own_thread) (\<lambda>_.
       case d_Now (s\<lparr>d_running := True\<rparr>) of (start_time, s) \<Rightarrow>
         d_run_loop call start_time (ToSecondsFloat duration) rs s)"

definition Darwin_Run ::
  "('c, 'u) d_caller \<Rightarrow> ('c, 'u) darwin \<Rightarrow> bool \<Rightarrow> 'c cf_run list \<Rightarrow> (bool \<times> ('c, 'u) darwin) res" where
  "Darwin_Run call s on_own_thread rs = Darwin_RunForTime call s on_own_thread TimeDelta_Max rs"

definition Darwin_Terminate :: "('c, 'u) darwin \<Rightarrow> ('c, 'u) darwin" where
  "Darwin_Terminate s = s\<lparr>d_running := False, stop_calls := stop_calls s + 1\<rparr>"

definition d_DisposeTasks :: "('c, 'u) darwin \<Rightarrow> ('c, 'u) darwin res" where
  "d_DisposeTasks s = res_bind (DisposeTasks (dq s) (d_queue_id s)) (\<lambda>tq. Inr (s\<lparr>dq := tq\<rparr>))"

definition d_DoRun ::
  "('c, 'u) d_caller \<Rightarrow> ('c, 'u) darwin \<Rightarrow> bool \<Rightarrow> 'c cf_run list \<Rightarrow> (bool \<times> ('c, 'u) darwin) res" where
  "d_DoRun call s on_own_thread rs =
     (if d_terminated s then Inr (True, s) else
      res_bind (Darwin_Run call s on_own_thread rs) (\<lambda>(finished, s).
      if \<not> finished then Inr (False, s) else
      res_bind (d_RunExpiredTasksNow call (s\<lparr>d_terminated := True\<rparr>)) (\<lambda>s.
      res_bind (d_DisposeTasks s) (\<lambda>s. Inr (True, s)))))"

definition d_DoRunForTime ::
  "('c, 'u) d_caller \<Rightarrow> ('c, 'u) darwin \<Rightarrow> bool \<Rightarrow> TimeDelta \<Rightarrow> 'c cf_run list \<Rightarrow> (bool \<times> ('c, 'u) darwin) res" where
  "d_DoRunForTime call s on_own_thread delay rs =
     (if d_terminated s then Inr (True, s) else
      res_bind (Darwin_RunForTime call s on_own_thread delay rs) (\<lambda>(finished, s).
      if \<not> finished then Inr (False, s) else
      res_bind (d_RunExpiredTasksNow call s) (\<lambda>s.
      res_bind (d_DisposeTasks s) (\<lambda>s. Inr (True, s)))))"

definition d_DoTerminate :: "('c, 'u) darwin \<Rightarrow> ('c, 'u) darwin" where
  "d_DoTerminate s = Darwin_Terminate (s\<lparr>d_terminated := True\<rparr>)"

section \<open>The programmed fire date\<close>

lemma fire_at_Inr:
  "fire_at t now a = Inr date \<longleftrightarrow>
     in_int64 (ticks t - ticks now) \<and> date = double_plus a (max 0 (ToSecondsFloat (TimeDelta (ticks t - ticks now))))"
  by (auto simp: fire_at_def res_simps Let_def max_def)

lemma sum_error:
  fixes a x y z :: rat
  assumes "0 \<le> a" "a \<le> 2 ^ 30" "0 \<le> x" "x \<le> 2 ^ 22"
    and "\<bar>y - x\<bar> \<le> x / 2 ^ 53" "\<bar>z - (a + y)\<bar> \<le> \<bar>a + y\<bar> / 2 ^ 53"
  shows "\<bar>z - (a + x)\<bar> \<le> 1 / 2 ^ 22"
proof -
  have y: "\<bar>y - x\<bar> \<le> 1 / 2 ^ 31" using assms(4,5) by (simp add: field_simps)
  then have "\<bar>a + y\<bar> \<le> 2 ^ 30 + 2 ^ 22 + 1" using assms(1-4) by (auto simp: abs_le_iff abs_if split: if_splits)
  with assms(6) have "\<bar>z - (a + y)\<bar> \<le> (2 ^ 30 + 2 ^ 22 + 1) / 2 ^ 53" by (simp add: field_simps)
  with y have "\<bar>z - (a + x)\<bar> \<le> (2 ^ 30 + 2 ^ 22 + 1) / 2 ^ 53 + 1 / 2 ^ 31"
    by (simp add: abs_if split: if_splits)
  then show ?thesis by simp
qed

lemma fire_at_bounds:
  assumes "fire_at t now a = Inr date" "0 \<le> a" "a \<le> 2 ^ 30" "ticks t - ticks now \<le> 2 ^ 51"
  shows "\<bar>date - (a + rat_of_int (max 0 (ticks t - ticks now)) / 1000000000)\<bar> \<le> 1 / 2 ^ 22"
proof (rule sum_error[where y = "ToSecondsFloat (TimeDelta (max 0 (ticks t - ticks now)))"])
  let ?n = "max 0 (ticks t - ticks now)"
  have n: "0 \<le> ?n" "\<bar>?n\<bar> < 2 ^ 53" using assms(4) by auto
  have "rat_of_int ?n \<le> rat_of_int (2 ^ 51)" using assms(4) by (simp only: of_int_le_iff) auto
  then show "rat_of_int ?n / 1000000000 \<le> 2 ^ 22" by simp
  show "\<bar>ToSecondsFloat (TimeDelta ?n) - rat_of_int ?n / 1000000000\<bar> \<le> rat_of_int ?n / 1000000000 / 2 ^ 53"
    using ToSecondsFloat_error[of "TimeDelta ?n"] n by simp
  have "max 0 (ToSecondsFloat (TimeDelta (ticks t - ticks now))) = ToSecondsFloat (TimeDelta ?n)"
    using ToSecondsFloat_sign(1)[of "TimeDelta (ticks t - ticks now)"]
    by (auto simp: max_def ToSecondsFloat_def double_of_int_def double_div_def)
  then show "\<bar>date - (a + ToSecondsFloat (TimeDelta ?n))\<bar> \<le> \<bar>a + ToSecondsFloat (TimeDelta ?n)\<bar> / 2 ^ 53"
    using assms(1) fl_error[of "a + ToSecondsFloat (TimeDelta ?n)"] unfolding fire_at_Inr double_plus_def by simp
qed (use assms in simp_all)

lemma fire_at_mono:
  assumes "fire_at t now a = Inr d" "fire_at u now a = Inr e" "t \<le> u"
  shows "d \<le> e"
proof -
  have "ToSecondsFloat (TimeDelta (ticks t - ticks now)) \<le> ToSecondsFloat (TimeDelta (ticks u - ticks now))"
    using assms(3) by (intro ToSecondsFloat_mono) (simp add: less_eq_TimeDelta_def less_eq_TimePoint_def)
  then show ?thesis
    using assms(1,2) by (auto simp: fire_at_Inr double_plus_def intro!: fl_mono max.mono)
qed

section \<open>The invariant\<close>

text \<open>The timer of a loop with pending tasks has the fire date that \<open>WakeUp\<close> computed for the earliest task from
  some earlier readings of the clocks.\<close>

definition d_tracks :: "('c, 'u) darwin \<Rightarrow> 'c DelayedTaskQueue \<Rightarrow> bool" where
  "d_tracks s q \<longleftrightarrow> (\<not> d_terminated s \<and> q \<noteq> [] \<longrightarrow>
     (\<exists>i<d_clock_reads s. \<exists>j<abs_reads s. \<exists>date.
        fire_at (dt_target_time (hd q)) (TimePoint_Now (d_clock s i)) (abs_clock s j) = Inr date \<and> fire_date s = Some date))"

lemma d_tracksI:
  "i < d_clock_reads s \<Longrightarrow> j < abs_reads s \<Longrightarrow> fire_date s = Some date \<Longrightarrow>
     fire_at (dt_target_time (hd q)) (TimePoint_Now (d_clock s i)) (abs_clock s j) = Inr date \<Longrightarrow> d_tracks s q"
  unfolding d_tracks_def by blast

definition d_inv :: "('c, 'u) darwin \<Rightarrow> bool" where
  "d_inv s \<longleftrightarrow> (\<exists>n m e. tq_inv n m (dq s) \<and> queue_entries (dq s) (tqid_key (d_queue_id s)) = Some e
     \<and> wakeable e = Some () \<and> d_tracks s (delayed_tasks e))"

lemma d_Now_simps [simp]:
  "dq (snd (d_Now s)) = dq s" "d_queue_id (snd (d_Now s)) = d_queue_id s" "d_terminated (snd (d_Now s)) = d_terminated s"
  "fire_date (snd (d_Now s)) = fire_date s" "d_clock (snd (d_Now s)) = d_clock s" "abs_clock (snd (d_Now s)) = abs_clock s"
  "d_clock_reads (snd (d_Now s)) = d_clock_reads s + 1" "abs_reads (snd (d_Now s)) = abs_reads s"
  "d_user (snd (d_Now s)) = d_user s" "d_running (snd (d_Now s)) = d_running s"
  by (simp_all add: d_Now_def)

lemma case_d_Now: "(case d_Now s of (now, s') \<Rightarrow> f now s') = f (fst (d_Now s)) (snd (d_Now s))"
  by (simp add: case_prod_beta)

text \<open>The effect of the wake-up calls of one operation: only the last one counts.\<close>

lemma Darwin_WakeUp_Inr:
  "Darwin_WakeUp s t = Inr s' \<longleftrightarrow>
     (\<exists>date. fire_at t (TimePoint_Now (d_clock s (d_clock_reads s))) (abs_clock s (abs_reads s)) = Inr date
       \<and> s' = s\<lparr>d_clock_reads := d_clock_reads s + 1, abs_reads := abs_reads s + 1, fire_date := Some date\<rparr>)"
  by (auto simp: Darwin_WakeUp_def d_Now_def CFAbsoluteTimeGetCurrent_def res_simps)

lemma d_wake_all_Inr:
  assumes "d_wake_all s (map (Pair ()) ts) = Inr s'"
  shows "ts = [] \<and> s' = s \<or> ts \<noteq> [] \<and> (\<exists>r a i j date. i < r \<and> j < a
    \<and> fire_at (last ts) (TimePoint_Now (d_clock s i)) (abs_clock s j) = Inr date
    \<and> s' = s\<lparr>d_clock_reads := r, abs_reads := a, fire_date := Some date\<rparr>)"
  using assms
proof (induction ts arbitrary: s)
  case (Cons t ts)
  then obtain s1 d where s1: "d_wake_all s1 (map (Pair ()) ts) = Inr s'"
    and d: "fire_at t (TimePoint_Now (d_clock s (d_clock_reads s))) (abs_clock s (abs_reads s)) = Inr d"
    "s1 = s\<lparr>d_clock_reads := d_clock_reads s + 1, abs_reads := abs_reads s + 1, fire_date := Some d\<rparr>"
    by (auto simp: res_simps Darwin_WakeUp_Inr)
  show ?case
  proof (cases "ts = []")
    case True
    then have "s' = s1" using s1 by simp
    with True d show ?thesis
      by (intro disjI2 conjI exI[of _ "d_clock_reads s + 1"] exI[of _ "abs_reads s + 1"] exI[of _ "d_clock_reads s"]
          exI[of _ "abs_reads s"] exI[of _ d]) simp_all
  next
    case False
    with Cons.IH[OF s1] obtain r a i j date where "i < r" "j < a"
      "fire_at (last ts) (TimePoint_Now (d_clock s i)) (abs_clock s j) = Inr date"
      "s' = s\<lparr>d_clock_reads := r, abs_reads := a, fire_date := Some date\<rparr>"
      unfolding d(2) by auto
    with False show ?thesis by (simp only: last_ConsR list.distinct simp_thms) blast
  qed
qed simp

lemma d_inv_entry:
  assumes "d_inv s"
  obtains n m e where "tq_inv n m (dq s)" "queue_entries (dq s) (tqid_key (d_queue_id s)) = Some e"
    "wakeable e = Some ()" "d_tracks s (delayed_tasks e)" "tqid_key (d_queue_id s) \<in> queue_locks (dq s)"
    "dtq_ok (delayed_tasks e)"
  using assms tq_inv_lock tq_inv_entry unfolding d_inv_def entry_inv_def by metis

lemma d_inv_post:
  assumes inv: "d_inv s" and post: "d_PostTask s c t = Inr s'"
  shows "d_inv s'"
proof (cases "d_terminated s")
  case True
  with post inv show ?thesis by (auto simp: d_PostTask_def res_simps)
next
  case False
  obtain n m e where e: "tq_inv n m (dq s)" "queue_entries (dq s) (tqid_key (d_queue_id s)) = Some e" "wakeable e = Some ()"
    using inv by (rule d_inv_entry)
  let ?q = "dtq_push (task_for (dq s) c t) (delayed_tasks e)" and ?s = "snd (d_Now s)"
  obtain tq wk where r: "RegisterTask (dq s) (d_queue_id s) c t (fst (d_Now s)) = Inr (tq, wk)"
    and w: "d_wake_all (?s\<lparr>dq := tq\<rparr>) wk = Inr s'"
    using post False by (auto simp: d_PostTask_def res_simps case_d_Now)
  have tq: "queue_entries tq (tqid_key (d_queue_id s)) = Some (e\<lparr>delayed_tasks := ?q\<rparr>)"
    "wk = map (Pair ()) [dt_target_time (hd ?q)]"
    using r e by (auto simp: RegisterTask_Inr_iff wakes_for_def)
  from d_wake_all_Inr[OF w[unfolded tq(2)]] obtain r' a i j date where
    k: "i < r'" "j < a" "fire_at (dt_target_time (hd ?q)) (TimePoint_Now (d_clock s i)) (abs_clock s j) = Inr date"
    and s': "s' = (?s\<lparr>dq := tq\<rparr>)\<lparr>d_clock_reads := r', abs_reads := a, fire_date := Some date\<rparr>"
    by auto
  have "d_tracks s' ?q" by (rule d_tracksI[of i _ j date]) (simp_all add: s' k)
  with tq(1) e(3) tq_inv_register[OF e(1) r] show ?thesis
    unfolding d_inv_def s' by auto
qed

text \<open>Taking the due tasks keeps the invariant when the timer was not touched, or when it has just fired and the
  earliest task is due.\<close>

lemma d_grab_tasks_all:
  assumes e: "tq_inv n m (dq s)" "queue_entries (dq s) (tqid_key (d_queue_id s)) = Some e" "wakeable e = Some ()"
    and g: "d_grab_tasks s FlushAll = Inr (cs, s')"
  defines "now \<equiv> fst (d_Now s)"
  shows "cs = map dt_task (takeWhile (\<lambda>t. dt_target_time t \<le> now) (delayed_tasks e))"
    "dq s' = set_entry (dq s) (d_queue_id s)
       (e\<lparr>delayed_tasks := dropWhile (\<lambda>t. dt_target_time t \<le> now) (delayed_tasks e)\<rparr>)"
    "if takeWhile (\<lambda>t. dt_target_time t \<le> now) (delayed_tasks e) = [] then s' = snd (d_Now s)
     else d_tracks s' (dropWhile (\<lambda>t. dt_target_time t \<le> now) (delayed_tasks e))"
    "d_queue_id s' = d_queue_id s" "d_user s' = d_user s"
proof -
  let ?s = "snd (d_Now s)" and ?q = "delayed_tasks e"
  let ?rest = "dropWhile (\<lambda>t. dt_target_time t \<le> now) ?q" and ?ts = "rearm_times now ?q"
  let ?tq = "set_entry (dq s) (d_queue_id s) (e\<lparr>delayed_tasks := ?rest\<rparr>)"
  note G = GetTasksToRunNow_all[OF tq_inv_lock[OF e(1,2)] e(2), of now "[]"]
  have "wakes_for e ?ts = map (Pair ()) ?ts" using e(3) by (simp add: wakes_for_def)
  with g G have wk: "d_wake_all (?s\<lparr>dq := ?tq\<rparr>) (map (Pair ()) ?ts) = Inr s'"
    and cs: "cs = map dt_task (takeWhile (\<lambda>t. dt_target_time t \<le> now) ?q)"
    by (auto simp: d_grab_tasks_def case_d_Now now_def res_simps)
  show "cs = map dt_task (takeWhile (\<lambda>t. dt_target_time t \<le> now) ?q)" by (rule cs)
  have tk: "takeWhile (\<lambda>t. dt_target_time t \<le> now) ?q = [] \<longleftrightarrow> ?ts = []"
    by (cases ?q) auto
  have w: "?ts = [] \<and> s' = ?s\<lparr>dq := ?tq\<rparr> \<or> ?ts \<noteq> [] \<and> (\<exists>r a i j date. i < r \<and> j < a
    \<and> fire_at (last ?ts) (TimePoint_Now (d_clock s i)) (abs_clock s j) = Inr date
    \<and> s' = (?s\<lparr>dq := ?tq\<rparr>)\<lparr>d_clock_reads := r, abs_reads := a, fire_date := Some date\<rparr>)"
    using d_wake_all_Inr[OF wk] by simp
  then show "dq s' = ?tq" "d_queue_id s' = d_queue_id s" "d_user s' = d_user s" by auto
  have "d_tracks s' ?rest" if ts: "?ts \<noteq> []"
  proof (cases ?rest)
    case (Cons u us)
    then have l: "last ?ts = dt_target_time (hd ?rest)" using last_rearm_times[OF ts] by (simp add: next_wake_def)
    from w ts obtain r a i j date where
      k: "i < r" "j < a" "fire_at (last ?ts) (TimePoint_Now (d_clock s i)) (abs_clock s j) = Inr date"
      and s': "s' = (?s\<lparr>dq := ?tq\<rparr>)\<lparr>d_clock_reads := r, abs_reads := a, fire_date := Some date\<rparr>"
      by blast
    show ?thesis by (rule d_tracksI[of i _ j date]) (use l k in \<open>simp_all add: s'\<close>)
  qed (simp add: d_tracks_def)
  moreover have "s' = ?s" if ts: "?ts = []"
  proof -
    have "e\<lparr>delayed_tasks := ?rest\<rparr> = e" using ts rearm_times_Nil[of now ?q] by simp
    then have "?tq = dq s" using e(2) by simp
    with w ts show ?thesis by (simp add: d_Now_def)
  qed
  ultimately show "if takeWhile (\<lambda>t. dt_target_time t \<le> now) ?q = [] then s' = ?s else d_tracks s' ?rest"
    using tk by simp
qed

section \<open>Steps\<close>

text \<open>The atomic steps on a loop: posts by any thread, flushes outside the timer, firings of the timer at a moment when
  the earliest task is due, changes of the flags and of the client's state.\<close>

definition earliest_due :: "('c, 'u) darwin \<Rightarrow> bool" where
  "earliest_due s \<longleftrightarrow> (case queue_entries (dq s) (tqid_key (d_queue_id s)) of None \<Rightarrow> False
     | Some e \<Rightarrow> delayed_tasks e = [] \<or> dt_target_time (hd (delayed_tasks e)) \<le> fst (d_Now s))"

inductive d_step :: "('c, 'u) darwin \<Rightarrow> ('c, 'u) darwin \<Rightarrow> bool" where
  post: "d_PostTask s c t = Inr s' \<Longrightarrow> d_step s s'"
| flush: "d_grab_tasks s FlushAll = Inr (cs, s') \<Longrightarrow> d_step s s'"
| fire: "earliest_due s \<Longrightarrow> d_grab_tasks (s\<lparr>fire_date := None\<rparr>) FlushAll = Inr (cs, s') \<Longrightarrow> d_step s s'"
| discard: "d_DisposeTasks s = Inr s' \<Longrightarrow> d_step s s'"
| terminate: "d_step s (d_DoTerminate s)"
| client: "d_step s (s\<lparr>d_user := u, d_running := b, d_clock_reads := d_clock_reads s + k\<rparr>)"

inductive d_reach :: "('c, 'u) darwin \<Rightarrow> bool" where
  create: "tq_inv n m tq \<Longrightarrow> m < 2 ^ 32 \<Longrightarrow> MessageLoopDarwin_create tq clk ab u has_loop has_timer = Inr s \<Longrightarrow> d_reach s"
| step: "d_reach s \<Longrightarrow> d_step s s' \<Longrightarrow> d_reach s'"

lemma d_inv_create:
  assumes "tq_inv n m tq" "MessageLoopDarwin_create tq clk ab u has_loop has_timer = Inr s"
  shows "d_inv s"
proof -
  let ?qid = "TaskQueueId (task_queue_id_counter tq)" and ?tq = "fst (CreateTaskQueue tq)"
  let ?e = "new_TaskQueueEntry\<lparr>wakeable := Some ()\<rparr> :: ('a, unit) TaskQueueEntry"
  have tq: "tq_inv n (Suc m) ?tq" by (rule tq_inv_create[OF assms(1)])
  have lock: "tqid_key ?qid \<in> queue_locks ?tq" by (simp add: CreateTaskQueue_def Let_def)
  have "tq_inv n (Suc m) (set_entry ?tq ?qid ?e)"
    using tq_inv_set_entry[OF tq lock] by (simp add: entry_inv_def new_TaskQueueEntry_def)
  moreover have "dq s = set_entry ?tq ?qid ?e" "d_queue_id s = ?qid"
    using assms(2) lock by (auto simp: MessageLoopDarwin_create_def CreateTaskQueue_def SetWakeable_def res_simps Let_def
        new_TaskQueueEntry_def split: prod.splits)
  ultimately show ?thesis
    unfolding d_inv_def by (auto simp: d_tracks_def new_TaskQueueEntry_def intro!: exI[of _ ?e])
qed

lemma d_inv_grab:
  assumes "d_inv s" "d_grab_tasks (s\<lparr>fire_date := date\<rparr>) FlushAll = Inr (cs, s')" "date = fire_date s \<or> earliest_due s"
  shows "d_inv s'"
proof -
  let ?s = "s\<lparr>fire_date := date\<rparr>"
  obtain n m e where e: "tq_inv n m (dq s)" "queue_entries (dq s) (tqid_key (d_queue_id s)) = Some e"
    "wakeable e = Some ()" "d_tracks s (delayed_tasks e)" "tqid_key (d_queue_id s) \<in> queue_locks (dq s)"
    "dtq_ok (delayed_tasks e)"
    using assms(1) by (rule d_inv_entry)
  let ?due = "\<lambda>t. dt_target_time t \<le> fst (d_Now ?s)"
  let ?e = "e\<lparr>delayed_tasks := dropWhile ?due (delayed_tasks e)\<rparr>"
  note g = d_grab_tasks_all[where s = ?s, simplified, OF e(1-3) assms(2)]
  have "tq_inv n m (set_entry (dq s) (d_queue_id s) ?e)"
    using tq_inv_entry[OF e(1,2)] e(6)
    by (intro tq_inv_set_entry[OF e(1,5)] entry_inv_tasks dtq_ok_dropWhile) (auto dest: set_dropWhileD)
  moreover have "d_tracks s' (delayed_tasks ?e)"
  proof (cases "takeWhile ?due (delayed_tasks e) = []")
    case True
    with g(3) have s': "s' = snd (d_Now ?s)" by simp
    have "delayed_tasks e = [] \<or> date = fire_date s"
      using assms(3) True e(2) by (cases "delayed_tasks e") (auto simp: earliest_due_def d_Now_def split: if_splits)
    then have "d_tracks s' (delayed_tasks e)" using e(4) unfolding s' d_tracks_def d_Now_def by (auto intro: less_SucI)
    moreover have "dropWhile ?due (delayed_tasks e) = delayed_tasks e"
      using takeWhile_dropWhile_id[of ?due "delayed_tasks e"] unfolding True by simp
    ultimately show ?thesis by simp
  qed (use g(3) in simp)
  ultimately show ?thesis
    using e(3) g(2,4) unfolding d_inv_def by (auto intro!: exI[of _ ?e])
qed

lemma d_inv_step:
  assumes "d_step s s'" "d_inv s"
  shows "d_inv s'"
  using assms
proof cases
  case (flush cs)
  with assms(2) d_inv_grab[of s "fire_date s" cs s'] show ?thesis by simp
next
  case (discard)
  obtain n m e where e: "tq_inv n m (dq s)" "queue_entries (dq s) (tqid_key (d_queue_id s)) = Some e"
    "wakeable e = Some ()" "tqid_key (d_queue_id s) \<in> queue_locks (dq s)"
    using assms(2) by (rule d_inv_entry)
  let ?e = "e\<lparr>delayed_tasks := []\<rparr>"
  have s': "s' = s\<lparr>dq := set_entry (dq s) (d_queue_id s) ?e\<rparr>"
    using discard e by (auto simp: d_DisposeTasks_def DisposeTasks_def res_simps)
  have "tq_inv n m (set_entry (dq s) (d_queue_id s) ?e)"
    using tq_inv_entry[OF e(1,2)] by (intro tq_inv_set_entry[OF e(1,4)]) (auto simp: entry_inv_def)
  with e(3) show ?thesis unfolding d_inv_def s' by (auto simp: d_tracks_def intro!: exI[of _ ?e])
next
  case terminate
  with assms(2) show ?thesis
    by (auto simp: d_inv_def d_DoTerminate_def Darwin_Terminate_def d_tracks_def)
next
  case (client u b k)
  with assms(2) show ?thesis by (auto simp: d_inv_def d_tracks_def intro: trans_less_add1)
qed (use assms(2) d_inv_post d_inv_grab in blast)+

lemma d_reach_inv: "d_reach s \<Longrightarrow> d_inv s"
  by (induction rule: d_reach.induct) (auto intro: d_inv_create d_inv_step)

section \<open>Flushes without faults\<close>

lemma fire_at_ok:
  "clock_ok t \<Longrightarrow> clock_ok now \<Longrightarrow> \<exists>date. fire_at t now a = Inr date"
  using clock_ok_diff by (simp add: fire_at_Inr)

lemma d_wake_all_ok:
  assumes "\<forall>t\<in>set ts. clock_ok t" "\<forall>i. clock_ok (TimePoint_Now (d_clock s i))"
  shows "\<exists>s'. d_wake_all s (map (Pair ()) ts) = Inr s'"
  using assms
proof (induction ts arbitrary: s)
  case (Cons t ts)
  obtain date where "fire_at t (TimePoint_Now (d_clock s (d_clock_reads s))) (abs_clock s (abs_reads s)) = Inr date"
    using Cons.prems fire_at_ok by fastforce
  then obtain s1 where s1: "Darwin_WakeUp s t = Inr s1" by (simp add: Darwin_WakeUp_Inr)
  then have "d_clock s1 = d_clock s" by (auto simp: Darwin_WakeUp_Inr)
  then obtain s' where "d_wake_all s1 (map (Pair ()) ts) = Inr s'" using Cons by fastforce
  with s1 show ?case by (simp add: res_simps)
qed simp

lemma rearm_times_ok:
  "\<forall>t\<in>set q. clock_ok (dt_target_time t) \<Longrightarrow> \<forall>t\<in>set (rearm_times now q). clock_ok t"
proof (induction q)
  case (Cons t q)
  have "clock_ok TimePoint_Max" by (simp add: clock_ok_def TimePoint_Max_def int64_bounds)
  with Cons show ?case by (cases q) (auto split: if_splits)
qed simp

text \<open>A caller whose closures only write their name to the client's state; a loop whose queue has no observers, no null
  closures and only non-negative target times, on a clock with non-negative readings.\<close>

definition d_writes :: "('c, 'c list) d_caller \<Rightarrow> bool" where
  "d_writes call \<longleftrightarrow> (\<forall>c s. call c s = Inr (s\<lparr>d_user := d_user s @ [c]\<rparr>))"

definition plain_queue :: "('c, 'u) darwin \<Rightarrow> 'c DelayedTaskQueue \<Rightarrow> bool" where
  "plain_queue s q \<longleftrightarrow> (\<exists>e. queue_entries (dq s) (tqid_key (d_queue_id s)) = Some e \<and> delayed_tasks e = q
     \<and> task_observers e = []) \<and> (\<forall>t\<in>set q. dt_task t \<noteq> None \<and> clock_ok (dt_target_time t))
     \<and> (\<forall>i. clock_ok (TimePoint_Now (d_clock s i)))"

lemma d_run_invocations_writes:
  assumes "d_writes call" "plain_queue s q" "d_inv s"
  shows "d_run_invocations call (map Some cs) s = Inr (s\<lparr>d_user := d_user s @ cs\<rparr>)"
  using assms
proof (induction cs arbitrary: s)
  case (Cons c cs)
  let ?s = "s\<lparr>d_user := d_user s @ [c]\<rparr>"
  obtain n m e where e: "queue_entries (dq s) (tqid_key (d_queue_id s)) = Some e" "tqid_key (d_queue_id s) \<in> queue_locks (dq s)"
    using Cons.prems(3) by (rule d_inv_entry)
  then have "GetObserversToNotify (dq s) (d_queue_id s) = Inr []"
    using Cons.prems(2) by (auto simp: plain_queue_def GetObserversToNotify_def res_simps)
  moreover have "plain_queue ?s q" "d_inv ?s" using Cons.prems(2,3) by (simp_all add: plain_queue_def d_inv_def d_tracks_def)
  moreover have "call c s = Inr ?s" using Cons.prems(1) by (simp add: d_writes_def)
  ultimately show ?case using Cons.IH[OF Cons.prems(1), of ?s] by (simp add: d_invoke_def)
qed simp

lemma d_RunExpiredTasksNow_writes:
  assumes call: "d_writes call" and q: "plain_queue s q" and inv: "d_inv s"
  defines "due \<equiv> \<lambda>t. dt_target_time t \<le> fst (d_Now s)"
  shows "\<exists>s'. d_RunExpiredTasksNow call s = Inr s' \<and> d_inv s' \<and> plain_queue s' (dropWhile due q)
    \<and> d_user s' = d_user s @ map (the \<circ> dt_task) (takeWhile due q) \<and> d_clock s' = d_clock s"
proof -
  obtain n m e where e: "tq_inv n m (dq s)" "queue_entries (dq s) (tqid_key (d_queue_id s)) = Some e" "wakeable e = Some ()"
    "tqid_key (d_queue_id s) \<in> queue_locks (dq s)"
    using inv by (rule d_inv_entry)
  have eq: "delayed_tasks e = q" "task_observers e = []" using q e(2) by (auto simp: plain_queue_def)
  let ?ts = "rearm_times (fst (d_Now s)) q"
  let ?tq = "set_entry (dq s) (d_queue_id s) (e\<lparr>delayed_tasks := dropWhile due q\<rparr>)"
  have w: "wakes_for e ?ts = map (Pair ()) ?ts" using e(3) by (simp add: wakes_for_def)
  have "\<forall>t\<in>set ?ts. clock_ok t" using q by (intro rearm_times_ok) (simp add: plain_queue_def)
  then obtain s1 where s1: "d_wake_all ((snd (d_Now s))\<lparr>dq := ?tq\<rparr>) (map (Pair ()) ?ts) = Inr s1"
    using d_wake_all_ok[of ?ts "(snd (d_Now s))\<lparr>dq := ?tq\<rparr>"] q by (auto simp: plain_queue_def)
  have g: "d_grab_tasks s FlushAll = Inr (map dt_task (takeWhile due q), s1)"
    using GetTasksToRunNow_all[OF e(4,2), of "fst (d_Now s)" "[]"] s1
    by (simp add: d_grab_tasks_def case_d_Now eq w due_def)
  have inv1: "d_inv s1" using d_inv_grab[OF inv, of "fire_date s"] g by simp
  have f: "dq s1 = ?tq" "d_queue_id s1 = d_queue_id s" "d_user s1 = d_user s" "d_clock s1 = d_clock s"
    using d_wake_all_Inr[OF s1] by auto
  have q1: "plain_queue s1 (dropWhile due q)"
    using q eq unfolding plain_queue_def f by (auto dest: set_dropWhileD)
  have "map dt_task (takeWhile due q) = map Some (map (the \<circ> dt_task) (takeWhile due q))"
    using q by (auto simp: plain_queue_def dest: set_takeWhileD)
  with d_run_invocations_writes[OF call q1 inv1, of "map (the \<circ> dt_task) (takeWhile due q)"]
  have "d_RunExpiredTasksNow call s = Inr (s1\<lparr>d_user := d_user s @ map (the \<circ> dt_task) (takeWhile due q)\<rparr>)"
    using g by (simp add: d_RunExpiredTasksNow_def d_FlushTasks_def f(3) del: map_map map_eq_conv)
  with inv1 q1 f(4) show ?thesis by (auto simp: plain_queue_def d_inv_def d_tracks_def)
qed

section \<open>Properties\<close>

text \<open>(C17) No task on a Darwin loop waits without a wake-up, and the wake-up is accurate. In every state reached by posts,
  flushes and firings at which the earliest task is due, a loop that was not terminated and has pending tasks has a
  fire date that \<open>WakeUp\<close> computed for the earliest of them from earlier readings of the two clocks; it is within
  \<open>2\<^sup>-\<^sup>2\<^sup>2\<close> seconds of the absolute time at which the task is due, for absolute times up to \<open>2\<^sup>3\<^sup>0\<close> seconds and delays
  up to \<open>2\<^sup>5\<^sup>1\<close> nanoseconds.\<close>

theorem darwin_no_lost_wakeup:
  assumes "d_reach s" "queue_entries (dq s) (tqid_key (d_queue_id s)) = Some e"
    and "\<not> d_terminated s" "delayed_tasks e \<noteq> []"
    and "\<forall>j. 0 \<le> abs_clock s j \<and> abs_clock s j \<le> 2 ^ 30"
    and "\<forall>i. ticks (dt_target_time (hd (delayed_tasks e))) - d_clock s i \<le> 2 ^ 51"
  shows "\<exists>date i j. fire_date s = Some date \<and> i < d_clock_reads s \<and> j < abs_reads s
    \<and> \<bar>date - (abs_clock s j + rat_of_int (max 0 (ticks (dt_target_time (hd (delayed_tasks e))) - d_clock s i)) / 1000000000)\<bar>
        \<le> 1 / 2 ^ 22"
proof -
  have "d_tracks s (delayed_tasks e)" using d_reach_inv[OF assms(1)] assms(2) by (auto simp: d_inv_def)
  then obtain i j date where d: "i < d_clock_reads s" "j < abs_reads s" "fire_date s = Some date"
    "fire_at (dt_target_time (hd (delayed_tasks e))) (TimePoint_Now (d_clock s i)) (abs_clock s j) = Inr date"
    using assms(3,4) by (auto simp: d_tracks_def)
  from fire_at_bounds[OF d(4)] assms(5,6) d(1-3) show ?thesis by (auto simp: TimePoint_Now_def)
qed

text \<open>A loop created at absolute time 700000000 s and steady time 0, and a task posted to it for 1.00000001 s
  later; all steady readings after the first two are \<open>late\<close>.\<close>

definition demo_darwin :: "int \<Rightarrow> (string, string list) darwin" where
  "demo_darwin late = \<lparr>dq = set_entry (fst (CreateTaskQueue new_MessageLoopTaskQueues)) (TaskQueueId 0)
       (new_TaskQueueEntry\<lparr>wakeable := Some ()\<rparr>), d_queue_id = TaskQueueId 0, d_terminated = False, d_running = False,
     fire_date = Some kDistantFuture, stop_calls = 0, d_clock = (\<lambda>i. if i < 2 then 0 else late), d_clock_reads = 0,
     abs_clock = (\<lambda>i. 700000000), abs_reads = 0, d_user = []\<rparr>"

definition demo_darwin_entry :: "(string, unit) TaskQueueEntry" where
  "demo_darwin_entry = new_TaskQueueEntry\<lparr>wakeable := Some (),
     delayed_tasks := [\<lparr>dt_order = 0, dt_task = Some ''a'', dt_target_time = TimePoint 1000000010\<rparr>]\<rparr>"

definition demo_darwin_posted :: "int \<Rightarrow> (string, string list) darwin" where
  "demo_darwin_posted late = (demo_darwin late)\<lparr>dq := (set_entry (dq (demo_darwin late)) (TaskQueueId 0) demo_darwin_entry)\<lparr>order_counter := 1\<rparr>,
     d_clock_reads := 2, abs_reads := 1, fire_date := Some 700000001\<rparr>"

lemma demo_darwin_create:
  "MessageLoopDarwin_create new_MessageLoopTaskQueues (d_clock (demo_darwin late)) (abs_clock (demo_darwin late)) [] True True = Inr (demo_darwin late)"
  by (simp add: MessageLoopDarwin_create_def demo_darwin_def CreateTaskQueue_def new_MessageLoopTaskQueues_def Let_def
      SetWakeable_def new_TaskQueueEntry_def)

lemma demo_fire_at: "fire_at (TimePoint 1000000010) (TimePoint 0) 700000000 = Inr 700000001"
  by code_simp

lemma demo_darwin_post: "d_PostTask (demo_darwin late) (Some ''a'') (TimePoint 1000000010) = Inr (demo_darwin_posted late)"
proof -
  have e: "queue_entries (dq (demo_darwin late)) (tqid_key (TaskQueueId 0)) = Some (new_TaskQueueEntry\<lparr>wakeable := Some ()\<rparr>)"
    and k: "tqid_key (TaskQueueId 0) \<in> queue_locks (dq (demo_darwin late))"
    by (simp_all add: demo_darwin_def CreateTaskQueue_def new_MessageLoopTaskQueues_def Let_def)
  have r: "RegisterTask (dq (demo_darwin late)) (TaskQueueId 0) (Some ''a'') (TimePoint 1000000010) (TimePoint 0)
     = Inr ((set_entry (dq (demo_darwin late)) (TaskQueueId 0) demo_darwin_entry)\<lparr>order_counter := 1\<rparr>, [((), TimePoint 1000000010)])"
    unfolding RegisterTask_eq[OF k e]
    by (simp add: demo_darwin_entry_def new_TaskQueueEntry_def task_for_def Let_def wakes_for_def int64_bounds
        demo_darwin_def CreateTaskQueue_def new_MessageLoopTaskQueues_def)
  show ?thesis
    using r demo_fire_at by (simp add: d_PostTask_def demo_darwin_def demo_darwin_posted_def case_d_Now d_Now_def
        TimePoint_Now_def Darwin_WakeUp_def CFAbsoluteTimeGetCurrent_def)
qed

lemma demo_darwin_reach: "d_reach (demo_darwin_posted late)"
proof -
  have "tq_inv 0 0 (new_MessageLoopTaskQueues :: (string, unit) MessageLoopTaskQueues)"
    by (rule tq_reach_inv) (rule tq_reach.intros)
  from d_reach.create[OF this _ demo_darwin_create] have "d_reach (demo_darwin late)" by simp
  from d_reach.step[OF this d_step.post[OF demo_darwin_post]] show ?thesis .
qed

lemma demo_darwin_facts:
  "queue_entries (dq (demo_darwin_posted late)) (tqid_key (d_queue_id (demo_darwin_posted late))) = Some demo_darwin_entry"
  "d_terminated (demo_darwin_posted late) = False" "abs_clock (demo_darwin_posted late) j = 700000000"
  "d_clock (demo_darwin_posted late) i = (if i < 2 then 0 else late)" "d_user (demo_darwin_posted late) = []"
  "fire_date (demo_darwin_posted late) = Some 700000001" "d_clock_reads (demo_darwin_posted late) = 2" "abs_reads (demo_darwin_posted late) = 1"
  by (simp_all add: demo_darwin_posted_def demo_darwin_def)

theorem darwin_no_lost_wakeup_witness:
  "\<exists>i j. i < 2 \<and> j < 1 \<and> fire_date (demo_darwin_posted 1000000000) = Some 700000001
    \<and> \<bar>700000001 - (abs_clock (demo_darwin_posted 1000000000) j
         + rat_of_int (max 0 (1000000010 - d_clock (demo_darwin_posted 1000000000) i)) / 1000000000)\<bar> \<le> 1 / 2 ^ 22"
  using darwin_no_lost_wakeup[OF demo_darwin_reach[of 1000000000] demo_darwin_facts(1)]
  by (simp add: demo_darwin_facts demo_darwin_entry_def)

text \<open>(C18) A firing that comes too early is the last one. When the timer of a loop fires while the earliest task is not yet
  due by the steady clock, as can happen since the fire date is rounded and belongs to another clock, the callback
  runs nothing, the queue stays as it is, and the timer has no fire date any more: the interval is infinite, and
  \<open>WakeUp\<close> is only called for tasks that were taken.\<close>

theorem darwin_early_fire_strands:
  assumes "d_reach s" "queue_entries (dq s) (tqid_key (d_queue_id s)) = Some e" "delayed_tasks e \<noteq> []"
    and "fst (d_Now s) < dt_target_time (hd (delayed_tasks e))"
  shows "\<exists>s'. cf_run_events call [TimerFires] s = Inr s'
    \<and> dq s' = dq s \<and> d_user s' = d_user s \<and> d_terminated s' = d_terminated s \<and> fire_date s' = None"
proof -
  let ?s = "s\<lparr>fire_date := None\<rparr>"
  obtain n m e' where e: "queue_entries (dq s) (tqid_key (d_queue_id s)) = Some e'" "tqid_key (d_queue_id s) \<in> queue_locks (dq s)"
    using d_reach_inv[OF assms(1)] by (rule d_inv_entry)
  obtain t ts where q: "delayed_tasks e = t # ts" "\<not> dt_target_time t \<le> fst (d_Now ?s)"
    using assms(3,4) by (cases "delayed_tasks e") (auto simp: d_Now_def not_le)
  have "e\<lparr>delayed_tasks := t # ts\<rparr> = e" using q(1) by (metis TaskQueueEntry.surjective TaskQueueEntry.update_convs(2) TaskQueueEntry.select_convs(2))
  then have "set_entry (dq s) (d_queue_id s) (e\<lparr>delayed_tasks := t # ts\<rparr>) = dq s" using assms(2) by simp
  then have "d_grab_tasks ?s FlushAll = Inr ([], snd (d_Now ?s))"
    using GetTasksToRunNow_all[OF e(2) assms(2), of "fst (d_Now ?s)" "[]"] q
    by (simp add: d_grab_tasks_def case_d_Now)
  then have "cf_run_events call [TimerFires] s = Inr (snd (d_Now ?s))"
    by (simp add: OnTimerFire_def d_RunExpiredTasksNow_def d_FlushTasks_def)
  then show ?thesis by simp
qed

text \<open>The task posted for 1.00000001 s has its timer programmed for 1 s: the distance of doubles at this absolute time
  is about 119 ns. When the timer fires on that date the task is not due, and nothing wakes the loop for it again.\<close>

theorem darwin_early_fire_strands_witness:
  "fire_date (demo_darwin_posted 1000000000) = Some 700000001
    \<and> (\<exists>s'. cf_run_events (\<lambda>c s. Inr s) [TimerFires] (demo_darwin_posted 1000000000) = Inr s'
        \<and> queue_entries (dq s') (tqid_key (TaskQueueId 0)) = Some demo_darwin_entry
        \<and> delayed_tasks demo_darwin_entry \<noteq> [] \<and> fire_date s' = None \<and> d_user s' = [])"
proof -
  have "fst (d_Now (demo_darwin_posted 1000000000)) < dt_target_time (hd (delayed_tasks demo_darwin_entry))"
    by (simp add: d_Now_def demo_darwin_facts demo_darwin_entry_def TimePoint_Now_def less_TimePoint_def)
  from darwin_early_fire_strands[OF demo_darwin_reach demo_darwin_facts(1) _ this, of "\<lambda>c s. Inr s"]
  show ?thesis
    using demo_darwin_facts by (auto simp: demo_darwin_entry_def demo_darwin_posted_def demo_darwin_def)
qed

text \<open>\<open>RunForTime\<close> on Darwin returns after the first result of \<open>CFRunLoopRunInMode\<close> that is not
  \<open>kCFRunLoopRunHandledSource\<close>, and before it does it runs every task that is due then, once and in queue order,
  and keeps the others.\<close>

theorem darwin_run_for_time_exit:
  assumes "d_reach s" "plain_queue s q" "d_writes call"
    and "cf_events r = []" "cf_result r \<noteq> kCFRunLoopRunHandledSource"
  shows "\<exists>s'. Darwin_RunForTime call s True duration (r # rs) = Inr (True, s') \<and> \<not> d_running s'
    \<and> (let due = \<lambda>t. dt_target_time t \<le> TimePoint (d_clock s (d_clock_reads s + 1)) in
       d_user s' = d_user s @ map (the \<circ> dt_task) (takeWhile due q) \<and> plain_queue s' (dropWhile due q))"
proof -
  let ?s = "snd (d_Now (s\<lparr>d_running := True\<rparr>))" and ?start = "fst (d_Now (s\<lparr>d_running := True\<rparr>))"
  have s: "fst (d_Now ?s) = TimePoint (d_clock s (d_clock_reads s + 1))" by (simp add: d_Now_def TimePoint_Now_def)
  have "d_inv ?s" using d_reach_inv[OF assms(1)] by (auto simp: d_inv_def d_Now_def d_tracks_def intro: less_SucI)
  moreover have "plain_queue ?s q" using assms(2) by (simp add: plain_queue_def d_Now_def)
  ultimately obtain s1 where s1: "d_RunExpiredTasksNow call ?s = Inr s1"
    "plain_queue s1 (dropWhile (\<lambda>t. dt_target_time t \<le> fst (d_Now ?s)) q)"
    "d_user s1 = d_user s @ map (the \<circ> dt_task) (takeWhile (\<lambda>t. dt_target_time t \<le> fst (d_Now ?s)) q)"
    "d_clock s1 = d_clock s"
    using d_RunExpiredTasksNow_writes[OF assms(3), of ?s q] by (auto simp: d_Now_def)
  let ?s2 = "snd (d_Now (s1\<lparr>d_running := False\<rparr>))"
  have stop: "d_run_loop call st lf rs x = Inr (True, x)" if "\<not> d_running x" for st lf x
    using that by (cases rs) auto
  have "in_int64 (ticks (fst (d_Now (s1\<lparr>d_running := False\<rparr>))) - ticks ?start)"
    using assms(2) s1(4) by (intro clock_ok_diff) (simp_all add: plain_queue_def d_Now_def)
  then obtain d where d: "tp_diff (fst (d_Now (s1\<lparr>d_running := False\<rparr>))) ?start = Inr d" by simp
  have "cf_result r = kCFRunLoopRunStopped \<or> cf_result r = kCFRunLoopRunFinished \<or> cf_result r = kCFRunLoopRunTimedOut"
    using assms(5) by (cases "cf_result r") auto
  moreover have "?s2\<lparr>d_running := False\<rparr> = ?s2" by (simp add: d_Now_def)
  ultimately have "Darwin_RunForTime call s True duration (r # rs) = Inr (True, ?s2)"
    using assms(4) s1(1) d stop by (simp add: Darwin_RunForTime_def case_d_Now Let_def del: time_op_Inr)
  moreover have "plain_queue ?s2 (dropWhile (\<lambda>t. dt_target_time t \<le> fst (d_Now ?s)) q)"
    using s1(2) by (simp add: plain_queue_def d_Now_def)
  ultimately show ?thesis using s1(3) unfolding s by (simp add: Let_def d_Now_def)
qed

theorem darwin_run_for_time_exit_witness:
  "\<exists>s'. Darwin_RunForTime (\<lambda>c s. Inr (s\<lparr>d_user := d_user s @ [c]\<rparr>)) (demo_darwin_posted 1000000010) True
      (TimeDelta 10000000) [\<lparr>cf_events = [], cf_result = kCFRunLoopRunTimedOut\<rparr>] = Inr (True, s')
    \<and> \<not> d_running s' \<and> d_user s' = [''a'']"
proof -
  have "plain_queue (demo_darwin_posted 1000000010) (delayed_tasks demo_darwin_entry)"
    by (simp add: plain_queue_def demo_darwin_facts)
      (simp add: demo_darwin_entry_def new_TaskQueueEntry_def clock_ok_def TimePoint_Now_def int64_bounds)
  from darwin_run_for_time_exit[OF demo_darwin_reach this, of "\<lambda>c s. Inr (s\<lparr>d_user := d_user s @ [c]\<rparr>)"
      "\<lparr>cf_events = [], cf_result = kCFRunLoopRunTimedOut\<rparr>" "TimeDelta 10000000" "[]"]
  show ?thesis
    by (auto simp: d_writes_def Let_def demo_darwin_facts demo_darwin_entry_def less_eq_TimePoint_def)
qed

text \<open>The time left is computed as in the Linux backend: every wake-up subtracts the whole time since the start. A run
  for 10 seconds that handles a source after 4 and after 7 seconds ends at 7 seconds.\<close>

lemma darwin_run_ends_early:
  "\<exists>s'. Darwin_RunForTime call (demo_darwin late\<lparr>d_clock := \<lambda>i. [0, 4000000000, 7000000000] ! i\<rparr>) True (TimeDelta 10000000000)
     [\<lparr>cf_events = [], cf_result = kCFRunLoopRunHandledSource\<rparr>, \<lparr>cf_events = [], cf_result = kCFRunLoopRunHandledSource\<rparr>]
     = Inr (True, s') \<and> d_clock_reads s' = 3"
proof -
  have "ToSecondsFloat (TimeDelta 10000000000) = 10" "ToSecondsFloat (TimeDelta 4000000000) = 4"
    "ToSecondsFloat (TimeDelta 7000000000) = 7" "double_minus 10 4 = 6" "double_minus 6 7 = -1"
    by code_simp+
  then show ?thesis
    by (simp add: Darwin_RunForTime_def d_Now_def demo_darwin_def tp_diff_def int64_def int64_bounds TimePoint_Now_def
        FromNanoseconds_def)
qed

end
