(* ===== verification/Client_Lifetime.thy ===== *)
theory Client_Lifetime
  imports Curl_Client_Laws Ownership
begin

text \<open>
  The life of the tasks of a \<open>CurlClient\<close>. \<open>Curl_Client\<close> keeps every task for ever; here a task lives as long as a
  \<open>shared_ptr\<close> to it exists: one in \<open>request_task_map_\<close> or one that a caller holds (posted closures are bound to the
  hash only). When the last one goes, \<open>~RequestTaskImpl\<close> and \<open>~HandleInfo\<close> run and \<open>curl_easy_cleanup\<close> is called on its
  handle; a handle that is still in the multi handle then leaves it and its transfer ends without a message.
  Destructors are not marked as done: they run at every action after which a task has no reference left that it had
  before, with the calls of \<open>HandleInfo_destroy\<close>, and that this happens once is a consequence. The lemmas show that every
  handle is cleaned up exactly once and never while a task lives, that no transfer is
  cut off as long as requests in flight have different hashes, and what happens otherwise.
\<close>

section \<open>State and steps\<close>

record client_life =
  cl :: CurlClient
  held :: "nat set"         \<comment> \<open>tasks to which callers have references\<close>
  cleaned :: "nat list"     \<comment> \<open>handles given to \<open>curl_easy_cleanup\<close>, in order\<close>
  aborted :: "nat list"     \<comment> \<open>those that were in the multi handle at that moment\<close>

definition new_client_life :: client_life where
  "new_client_life = \<lparr>cl = new_CurlClient, held = {}, cleaned = [], aborted = []\<rparr>"

text \<open>A task is registered when the map holds it, under its own name.\<close>

definition registered :: "CurlClient \<Rightarrow> nat \<Rightarrow> bool" where
  "registered c i \<longleftrightarrow> request_task_map c (task_identifier (tasks c ! i)) = Some i"

text \<open>The \<open>shared_ptr\<close>s to a task: those of callers and the one in the map.\<close>

definition referenced :: "client_life \<Rightarrow> nat \<Rightarrow> bool" where
  "referenced s i \<longleftrightarrow> i \<in> held s \<or> registered (cl s) i"

text \<open>The tasks that lose their last reference between two states, and the handles that their destructors give to
  \<open>curl_easy_cleanup\<close>, one entry for each call.\<close>

definition dead_tasks :: "client_life \<Rightarrow> client_life \<Rightarrow> nat list" where
  "dead_tasks s s' = filter (\<lambda>i. referenced s i \<and> \<not> referenced s' i) [0..<length (tasks (cl s'))]"

definition cleanup_calls :: "client_life \<Rightarrow> nat list \<Rightarrow> nat list" where
  "cleanup_calls s is =
     concat (map (\<lambda>i. map (\<lambda>_. i) (filter (\<lambda>c. c = Curl_easy_cleanup) (HandleInfo_destroy (task_handle (tasks (cl s) ! i))))) is)"

text \<open>The destructors that run when the state \<open>s\<close> becomes \<open>s'\<close>.\<close>

definition release_dead :: "client_life \<Rightarrow> client_life \<Rightarrow> client_life" where
  "release_dead s s' =
     (let calls = cleanup_calls s' (dead_tasks s s') in
      s'\<lparr>cleaned := cleaned s' @ calls,
         aborted := aborted s' @ filter (\<lambda>i. i \<in> multi_handles (cl s')) calls,
         cl := (cl s')\<lparr>multi_handles := multi_handles (cl s') - set calls\<rparr>\<rparr>)"

text \<open>What callers and the request thread do; with \<open>u\<close>, no request is submitted while one with the same hash is in the
  map. A posted closure is run, or discarded with those after it. After each action the tasks that lost their last
  reference are destroyed.\<close>

inductive lf_action :: "bool \<Rightarrow> client_life \<Rightarrow> client_life \<Rightarrow> bool" for u where
  submit: "TaskWithRequest (cl s) r cb ok = Inr (i, c') \<Longrightarrow> (u \<Longrightarrow> \<forall>h. hash r = Inr h \<longrightarrow> request_task_map (cl s) h = None)
    \<Longrightarrow> lf_action u s (s\<lparr>cl := c', held := insert i (held s)\<rparr>)"
| drop: "lf_action u s (s\<lparr>held := held s - {i}\<rparr>)"
| resume: "i \<in> held s \<Longrightarrow> lf_action u s (s\<lparr>cl := Resume (cl s) i now_ms\<rparr>)"
| cancel: "i \<in> held s \<Longrightarrow> lf_action u s (s\<lparr>cl := Cancel (cl s) i\<rparr>)"
| closure: "posted (cl s) = k # ks \<Longrightarrow> lf_action u s (s\<lparr>cl := run_posted ((cl s)\<lparr>posted := ks\<rparr>) k\<rparr>)"
| discard: "lf_action u s (s\<lparr>cl := (cl s)\<lparr>posted := take n (posted (cl s))\<rparr>\<rparr>)"
| msg: "easy_handle m \<in> multi_handles (cl s) \<Longrightarrow> HandleMsg (cl s) m = Inr c' \<Longrightarrow> lf_action u s (s\<lparr>cl := c'\<rparr>)"
| header: "i \<in> multi_handles (cl s) \<Longrightarrow> lf_action u s (s\<lparr>cl := receive_header (cl s) i line\<rparr>)"
| destroy: "lf_action u s (s\<lparr>cl := CurlClient_destroy (cl s)\<rparr>)"

inductive lf_step :: "bool \<Rightarrow> client_life \<Rightarrow> client_life \<Rightarrow> bool" for u where
  act: "lf_action u s s' \<Longrightarrow> lf_step u s (release_dead s s')"

inductive_cases lf_stepE: "lf_step u s s'"

inductive lf_reach :: "bool \<Rightarrow> client_life \<Rightarrow> bool" for u where
  start: "lf_reach u new_client_life"
| step: "lf_reach u s \<Longrightarrow> lf_step u s s' \<Longrightarrow> lf_reach u s'"

section \<open>The invariant\<close>

text \<open>A destructor gives the handle of its task to \<open>curl_easy_cleanup\<close> once, and not at all when there is none.\<close>

lemma cleanup_calls_valid: "cleanup_calls s is = filter (\<lambda>i. handle_valid (task_handle (tasks (cl s) ! i))) is"
  by (induction "is") (auto simp: cleanup_calls_def HandleInfo_destroy_def)

definition orphans :: "client_life \<Rightarrow> nat set" where
  "orphans s = {i. i < length (tasks (cl s)) \<and> handle_valid (task_handle (tasks (cl s) ! i)) \<and> \<not> referenced s i}"

definition lf_inv :: "bool \<Rightarrow> client_life \<Rightarrow> bool" where
  "lf_inv u s \<longleftrightarrow> client_inv u (cl s) \<and> distinct (cleaned s) \<and> (\<forall>i\<in>held s. i < length (tasks (cl s)))
     \<and> set (cleaned s) = orphans s \<and> orphans s \<inter> multi_handles (cl s) = {} \<and> (u \<longrightarrow> aborted s = [])"

lemma client_inv_subset:
  "client_inv u c \<Longrightarrow> client_inv u (c\<lparr>multi_handles := multi_handles c - A\<rparr>)"
  by (auto simp: client_inv_def)

text \<open>What no operation of the client does: bring a task back into the map, add a handle of a task that is not
  registered, or call the callback of such a task.\<close>

definition frame :: "CurlClient \<Rightarrow> CurlClient \<Rightarrow> bool" where
  "frame c c' \<longleftrightarrow> length (tasks c) \<le> length (tasks c')
     \<and> (\<forall>i<length (tasks c). task_handle (tasks c' ! i) = task_handle (tasks c ! i))
     \<and> (\<forall>i<length (tasks c). registered c' i \<longrightarrow> registered c i)
     \<and> (\<forall>i\<in>multi_handles c'. i \<in> multi_handles c \<or> registered c i)
     \<and> (\<forall>i\<in>fst ` set (delivered c'). i \<in> fst ` set (delivered c) \<or> registered c i)"

lemma frame_complete:
  assumes inv: "client_inv u c" and m: "request_task_map c h = Some i"
    and t: "task_identifier t = task_identifier (tasks c ! i)" "task_handle t = task_handle (tasks c ! i)"
    and hs: "hs \<subseteq> multi_handles c"
  shows "frame c (CleanupRequest ((deliver (set_task c i t) i r)\<lparr>multi_handles := hs\<rparr>) h)"
proof -
  have i: "i < length (tasks c)" "task_identifier (tasks c ! i) = h" using inv m by (auto simp: client_inv_def)
  have id: "task_identifier ((tasks c)[i := t] ! j) = task_identifier (tasks c ! j)" for j
    using t(1) i(1) by (auto simp: nth_list_update)
  have v: "task_handle ((tasks c)[i := t] ! j) = task_handle (tasks c ! j)" for j
    using t(2) i(1) by (auto simp: nth_list_update)
  have r: "registered c i" using m i(2) by (simp add: registered_def)
  show ?thesis
    using v r hs
    by (auto simp: frame_def CleanupRequest_def registered_def id set_task_def split: if_splits option.splits)
qed

lemma task_unchanged:
  "DidCancelled t = (t', r) \<Longrightarrow> task_identifier t' = task_identifier t \<and> task_handle t' = task_handle t"
  "DidFinished t sc rc info now_ms = (t', r) \<Longrightarrow> task_identifier t' = task_identifier t \<and> task_handle t' = task_handle t"
  by (auto simp: DidCancelled_def DidFinished_def Let_def)

lemma frame_posted: "frame c ((c::CurlClient)\<lparr>posted := ps\<rparr>)"
  by (simp add: frame_def registered_def)

lemma Resume_simps [simp]:
  "length (tasks (Resume c i now_ms)) = length (tasks c)" "request_task_map (Resume c i now_ms) = request_task_map c"
  "multi_handles (Resume c i now_ms) = multi_handles c" "delivered (Resume c i now_ms) = delivered c"
  by (simp_all add: Resume_def Let_def)

lemma update_keeps: "f y = f (xs ! i) \<Longrightarrow> f ((xs[i := y]) ! j) = f (xs ! j)"
  by (cases "i < length xs") (auto simp: nth_list_update list_update_beyond)

lemma Resume_task [simp]:
  "task_identifier (tasks (Resume c i now_ms) ! j) = task_identifier (tasks c ! j)"
  "task_handle (tasks (Resume c i now_ms) ! j) = task_handle (tasks c ! j)"
proof -
  let ?t = "(tasks c ! i)\<lparr>task_metrics := (task_metrics (tasks c ! i))\<lparr>request_start_ms := ucast now_ms\<rparr>\<rparr>"
  have t: "tasks (Resume c i now_ms) = (tasks c)[i := ?t]" by (simp add: Resume_def Let_def set_task_def)
  show "task_identifier (tasks (Resume c i now_ms) ! j) = task_identifier (tasks c ! j)"
    "task_handle (tasks (Resume c i now_ms) ! j) = task_handle (tasks c ! j)"
    unfolding t by (rule update_keeps, simp)+
qed

lemma frame_Resume: "frame c (Resume c i now_ms)"
  by (simp add: frame_def registered_def)

lemma TaskWithRequest_Inr:
  assumes "TaskWithRequest c r cb ok = Inr (i, c')"
  obtains h t where "hash r = Inr h" "i = length (tasks c)" "task_identifier t = h" "handle_valid (task_handle t) = ok"
    "c' = c\<lparr>tasks := tasks c @ [t], request_task_map := (request_task_map c)(h \<mapsto> i)\<rparr>"
proof -
  obtain h where h: "hash r = Inr h" using assms by (auto simp: TaskWithRequest_def res_simps)
  with assms show thesis
    by (intro that[of h "setCompletionCallback \<lparr>task_request = r, task_cancelled = False,
      task_handle = new_HandleInfo ok r (length (tasks c)) h, task_response = new_ResponseImpl,
      task_identifier = h, task_metrics = new_Metrics, has_callback = False\<rparr> cb"])
      (auto simp: TaskWithRequest_def new_RequestTaskImpl_def setCompletionCallback_def Let_def)
qed

lemma frame_task:
  assumes "TaskWithRequest c r cb ok = Inr (i, c')"
  shows "frame c c' \<and> i = length (tasks c) \<and> i < length (tasks c')"
proof -
  from assms obtain h t where t: "i = length (tasks c)"
    "c' = c\<lparr>tasks := tasks c @ [t], request_task_map := (request_task_map c)(h \<mapsto> i)\<rparr>"
    by (rule TaskWithRequest_Inr)
  then show ?thesis
    by (auto simp: frame_def registered_def nth_append split: if_splits)
qed

lemma frame_run_posted: "client_inv u c \<Longrightarrow> frame c (run_posted c k)"
proof (cases k)
  case (StartRequest_of h)
  assume inv: "client_inv u c"
  have "registered c i" if "request_task_map c h = Some i" for i
    using inv that by (auto simp: client_inv_def registered_def)
  then show ?thesis unfolding StartRequest_of
    by (cases "request_task_map c h") (auto simp: StartRequest_def frame_def registered_def)
next
  case (CancelRequest_of h)
  assume inv: "client_inv u c"
  show ?thesis
  proof (cases "request_task_map c h")
    case None
    then show ?thesis unfolding CancelRequest_of by (simp add: CancelRequest_def frame_def)
  next
    case (Some i)
    obtain t r where d: "DidCancelled (tasks c ! i) = (t, r)" by fastforce
    from frame_complete[OF inv Some, of t "multi_handles c - {i}" r] task_unchanged(1)[OF d]
    show ?thesis unfolding CancelRequest_of using Some d by (simp add: CancelRequest_def Let_def)
  qed
qed

lemma frame_msg:
  assumes inv: "client_inv u c" and h: "HandleMsg c m = Inr c'"
  shows "frame c c'"
proof (cases "msg_done m")
  case True
  let ?h = "request_hash (task_handle (tasks c ! easy_handle m))"
  obtain i where i: "request_task_map c ?h = Some i"
    using h True by (cases "request_task_map c ?h") (auto simp: HandleMsg_def Let_def)
  obtain t r where d: "DidFinished (tasks c ! i) (HttpStatusCode_of (msg_status m)) (ConvertCurlCode (msg_result m))
        (msg_info m) (msg_now m) = (t, r)"
    and c': "c' = CleanupRequest ((deliver (set_task c i t) i r)\<lparr>multi_handles := multi_handles c - {easy_handle m}\<rparr>) ?h"
    using HandleMsg_done[OF True refl i] h by auto
  from frame_complete[OF inv i, of t "multi_handles c - {easy_handle m}" r] task_unchanged(2)[OF d]
  show ?thesis unfolding c' by auto
next
  case False
  with h show ?thesis by (simp add: HandleMsg_def frame_def)
qed

lemma frame_destroy: "frame c (CurlClient_destroy c)" "client_inv u c \<Longrightarrow> client_inv u (CurlClient_destroy c)"
  by (auto simp: frame_def CurlClient_destroy_def registered_def client_inv_def ran_def)

lemma frame_header: "frame c (receive_header c i line)"
proof -
  let ?t = "OnReceiveHeader (tasks c ! i) line"
  have "task_identifier ((tasks c)[i := ?t] ! j) = task_identifier (tasks c ! j)"
    "task_handle ((tasks c)[i := ?t] ! j) = task_handle (tasks c ! j)" for j
    by (rule update_keeps, simp)+
  then show ?thesis by (simp add: receive_header_task set_task_def frame_def registered_def)
qed

lemma run_posted_length: "length (tasks (run_posted c k)) = length (tasks c)"
  by (cases k) (auto simp: StartRequest_def CancelRequest_def CleanupRequest_def Let_def split: option.splits prod.splits)

lemma HandleMsg_length:
  assumes "HandleMsg c m = Inr c'"
  shows "length (tasks c') = length (tasks c)"
proof (cases "msg_done m")
  case True
  let ?h = "request_hash (task_handle (tasks c ! easy_handle m))"
  obtain i where "request_task_map c ?h = Some i"
    using assms True by (cases "request_task_map c ?h") (auto simp: HandleMsg_def Let_def)
  from HandleMsg_done[OF True refl this] show ?thesis using assms by (auto simp: CleanupRequest_def)
qed (use assms in \<open>simp add: HandleMsg_def\<close>)

text \<open>What an action does to the references: callers get no task that they had dropped, and new tasks are theirs.\<close>

definition acts :: "bool \<Rightarrow> client_life \<Rightarrow> client_life \<Rightarrow> bool" where
  "acts u s s' \<longleftrightarrow> frame (cl s) (cl s') \<and> client_inv u (cl s') \<and> cleaned s' = cleaned s \<and> aborted s' = aborted s
     \<and> (\<forall>i\<in>held s'. i \<in> held s \<or> length (tasks (cl s)) \<le> i \<and> i < length (tasks (cl s')))
     \<and> (\<forall>i. length (tasks (cl s)) \<le> i \<and> i < length (tasks (cl s')) \<longrightarrow> i \<in> held s')"

lemma acts_client:
  assumes "frame (cl s) c'" "client_inv u c'" "length (tasks c') = length (tasks (cl s))"
  shows "acts u s (s\<lparr>cl := c'\<rparr>)"
  using assms by (auto simp: acts_def)

lemma lf_action_acts:
  assumes "lf_action u s s'" and c: "client_inv u (cl s)"
  shows "acts u s s'"
  using assms(1)
proof cases
  case (submit r cb ok i c')
  have "client_inv u c'" using client_inv_task[OF c submit(2)] submit(3) by blast
  moreover have "length (tasks c') = Suc (length (tasks (cl s)))" using TaskWithRequest_Inr[OF submit(2)] by fastforce
  ultimately show ?thesis using frame_task[OF submit(2)] unfolding submit(1) acts_def by simp
next
  case (drop i)
  then show ?thesis using c by (auto simp: acts_def frame_def)
next
  case (resume i now_ms)
  have "client_inv u (set_task (cl s) i t)" if "same_name t (tasks (cl s) ! i)" for t
    by (rule client_inv_set_task[OF c that])
  then have "client_inv u (Resume (cl s) i now_ms)" by (simp add: Resume_def Let_def client_inv_posted same_name_def)
  then show ?thesis unfolding resume(1) by (intro acts_client frame_Resume) simp_all
next
  case (cancel i)
  show ?thesis unfolding cancel(1) Cancel_def
    by (rule acts_client[OF frame_posted]) (simp_all add: client_inv_posted c)
next
  case (closure k ks)
  let ?c = "(cl s)\<lparr>posted := ks\<rparr>"
  have inv: "client_inv u ?c" using c by (simp add: client_inv_posted)
  have "frame (cl s) (run_posted ?c k)" using frame_run_posted[OF inv, of k] by (simp add: frame_def registered_def)
  then show ?thesis unfolding closure(1)
    by (rule acts_client[OF _ client_inv_run_posted[OF inv]]) (simp add: run_posted_length)
next
  case (discard n)
  show ?thesis unfolding discard
    by (rule acts_client[OF frame_posted]) (simp_all add: client_inv_posted c)
next
  case (msg m c')
  show ?thesis unfolding msg(1)
    by (rule acts_client[OF frame_msg[OF c msg(3)] client_inv_msg[OF c msg(2,3)] HandleMsg_length[OF msg(3)]])
next
  case (header i line)
  show ?thesis unfolding header(1)
    by (rule acts_client[OF frame_header client_inv_header[OF c]]) (simp add: receive_header_task)
next
  case destroy
  show ?thesis unfolding destroy
    by (rule acts_client[OF frame_destroy(1) frame_destroy(2)[OF c]]) (simp add: CurlClient_destroy_def)
qed

lemma release_dead_simps [simp]:
  "held (release_dead s s') = held s'" "cleaned (release_dead s s') = cleaned s' @ cleanup_calls s' (dead_tasks s s')"
  "aborted (release_dead s s') = aborted s' @ filter (\<lambda>i. i \<in> multi_handles (cl s')) (cleanup_calls s' (dead_tasks s s'))"
  "cl (release_dead s s') = (cl s')\<lparr>multi_handles := multi_handles (cl s') - set (cleanup_calls s' (dead_tasks s s'))\<rparr>"
  by (simp_all add: release_dead_def Let_def)

lemma release_dead_orphans [simp]:
  "referenced (release_dead s s') i = referenced s' i" "orphans (release_dead s s') = orphans s'"
  by (simp_all add: referenced_def registered_def orphans_def)

text \<open>The calls at an action are for the new orphans, each once.\<close>

lemma acts_calls:
  assumes inv: "lf_inv u s" and a: "acts u s s'"
  shows "distinct (cleaned s @ cleanup_calls s' (dead_tasks s s'))"
    "set (cleaned s @ cleanup_calls s' (dead_tasks s s')) = orphans s'"
    "set (cleanup_calls s' (dead_tasks s s')) \<inter> orphans s = {}"
proof -
  let ?calls = "cleanup_calls s' (dead_tasks s s')"
  have fr: "frame (cl s) (cl s')" using a by (simp add: acts_def)
  have cleaned: "set (cleaned s) = orphans s" "distinct (cleaned s)" using inv by (auto simp: lf_inv_def)
  have calls: "set ?calls = {i \<in> orphans s'. referenced s i}"
    by (auto simp: cleanup_calls_valid dead_tasks_def orphans_def)
  then show new: "set ?calls \<inter> orphans s = {}" by (auto simp: orphans_def)
  show "distinct (cleaned s @ ?calls)"
    using cleaned new by (auto simp: cleanup_calls_valid dead_tasks_def)
  have "i \<in> orphans s'" if "i \<in> orphans s" for i
  proof -
    have i: "i < length (tasks (cl s))" "handle_valid (task_handle (tasks (cl s) ! i))" "i \<notin> held s" "\<not> registered (cl s) i"
      using that by (auto simp: orphans_def referenced_def)
    have "i \<notin> held s'" using a i(1,3) unfolding acts_def by (meson not_less)
    with i fr show ?thesis by (auto simp: orphans_def referenced_def frame_def)
  qed
  moreover have "i \<in> orphans s" if "i \<in> orphans s'" "\<not> referenced s i" for i
  proof -
    have i: "i < length (tasks (cl s'))" "handle_valid (task_handle (tasks (cl s') ! i))" "i \<notin> held s'"
      using that(1) by (auto simp: orphans_def referenced_def)
    have "i < length (tasks (cl s))" using a i(1,3) unfolding acts_def by (meson not_less)
    with i fr that(2) show ?thesis by (auto simp: orphans_def frame_def)
  qed
  ultimately show "set (cleaned s @ ?calls) = orphans s'" using cleaned(1) calls by auto
qed

lemma lf_inv_release:
  assumes inv: "lf_inv u s" and a: "acts u s s'"
  shows "lf_inv u (release_dead s s')"
proof -
  let ?calls = "cleanup_calls s' (dead_tasks s s')"
  note calls = acts_calls[OF inv a]
  have fr: "frame (cl s) (cl s')" and c: "client_inv u (cl s')" and cl: "cleaned s' = cleaned s" "aborted s' = aborted s"
    using a by (auto simp: acts_def)
  have "i < length (tasks (cl s'))" if "i \<in> held s'" for i
  proof (cases "i \<in> held s")
    case True
    then have "i < length (tasks (cl s))" using inv by (simp add: lf_inv_def)
    then show ?thesis using fr by (simp add: frame_def)
  qed (use a that in \<open>auto simp: acts_def\<close>)
  moreover have "i \<notin> multi_handles (cl s')" if "i \<in> orphans s" for i
  proof -
    have "i \<notin> multi_handles (cl s)" "\<not> registered (cl s) i"
      using inv that unfolding lf_inv_def by (auto simp: orphans_def referenced_def)
    then show ?thesis using fr by (auto simp: frame_def)
  qed
  then have "orphans s' \<inter> (multi_handles (cl s') - set ?calls) = {}"
    using calls(2) inv by (auto simp: lf_inv_def)
  moreover have "filter (\<lambda>i. i \<in> multi_handles (cl s')) ?calls = []" if u
  proof -
    have "\<not> registered (cl s') i" if "i \<in> set ?calls" for i
      using calls(2) that by (auto simp: orphans_def referenced_def)
    moreover have "registered (cl s') i" if "i \<in> multi_handles (cl s')" for i
      using c \<open>u\<close> that by (simp add: client_inv_def registered_def)
    ultimately show ?thesis by (auto simp: filter_empty_conv)
  qed
  ultimately show ?thesis
    using calls(1,2) inv client_inv_subset[OF c, of "set ?calls"] unfolding lf_inv_def release_dead_simps release_dead_orphans cl
    by simp
qed

lemma lf_inv_step: "lf_step u s s' \<Longrightarrow> lf_inv u s \<Longrightarrow> lf_inv u s'"
proof (elim lf_stepE)
  fix x
  assume inv: "lf_inv u s" and x: "s' = release_dead s x" "lf_action u s x"
  have "client_inv u (cl s)" using inv unfolding lf_inv_def by blast
  then show "lf_inv u s'" unfolding x(1) by (intro lf_inv_release[OF inv] lf_action_acts[OF x(2)])
qed

lemma lf_reach_inv: "lf_reach u s \<Longrightarrow> lf_inv u s"
proof (induction rule: lf_reach.induct)
  case start
  show ?case by (simp add: lf_inv_def orphans_def new_client_life_def new_CurlClient_def client_inv_def)
qed (rule lf_inv_step)

text \<open>A task whose handle was cleaned up is not delivered to any more.\<close>

lemma lf_step_cleaned:
  assumes "lf_step u s s'" "lf_inv u s"
  shows "set (cleaned s) \<subseteq> set (cleaned s')
    \<and> (\<forall>i\<in>fst ` set (delivered (cl s')). i \<in> fst ` set (delivered (cl s)) \<or> registered (cl s) i)"
proof -
  obtain x where x: "lf_action u s x" "s' = release_dead s x" using assms(1) by (elim lf_stepE) auto
  have "acts u s x" using lf_action_acts[OF x(1)] assms(2) by (simp add: lf_inv_def)
  then show ?thesis unfolding x(2) by (simp add: acts_def frame_def)
qed

lemma cleaned_silent:
  assumes "(lf_step u)\<^sup>*\<^sup>* s s'" "lf_inv u s" "i \<in> set (cleaned s)" "i \<notin> fst ` set (delivered (cl s))"
  shows "i \<notin> fst ` set (delivered (cl s'))"
proof -
  have "lf_inv u s' \<and> i \<in> set (cleaned s') \<and> i \<notin> fst ` set (delivered (cl s'))"
    using assms(1)
  proof (induction rule: rtranclp_induct)
    case base
    show ?case using assms(2-4) by simp
  next
    case (step x y)
    have "\<not> registered (cl x) i" using step.IH by (auto simp: lf_inv_def orphans_def referenced_def)
    with lf_step_cleaned[OF step.hyps(2)] lf_inv_step[OF step.hyps(2)] step.IH show ?case by blast
  qed
  then show ?thesis by simp
qed

section \<open>Handles as resources\<close>

text \<open>Every task whose handle is not null owns it while it lives; nothing is handed back to the callers.\<close>

definition valid_tasks :: "CurlClient \<Rightarrow> nat list" where
  "valid_tasks c = filter (\<lambda>i. handle_valid (task_handle (tasks c ! i))) [0..<length (tasks c)]"

definition life_run :: "nat multiset \<Rightarrow> nat multiset \<Rightarrow> client_life \<Rightarrow> bool" where
  "life_run acquired released s \<longleftrightarrow> (\<exists>u. lf_reach u s) \<and> acquired = mset (valid_tasks (cl s)) \<and> released = {#}"

definition living :: "client_life \<Rightarrow> nat multiset" where
  "living s = filter_mset (referenced s) (mset (valid_tasks (cl s)))"

lemma cleaned_rest:
  assumes "lf_inv u s"
  shows "mset (cleaned s) = filter_mset (\<lambda>i. \<not> referenced s i) (mset (valid_tasks (cl s)))"
proof -
  let ?d = "filter (\<lambda>i. \<not> referenced s i) (valid_tasks (cl s))"
  have "set (cleaned s) = set ?d" "distinct (cleaned s)"
    using assms by (auto simp: lf_inv_def orphans_def valid_tasks_def)
  moreover have "distinct ?d" by (simp add: valid_tasks_def)
  ultimately have "mset (cleaned s) = mset ?d" by (metis set_eq_iff_mset_eq_distinct)
  then show ?thesis by (simp only: mset_filter)
qed

interpretation handles: resource_ledger life_run cleaned living
proof
  fix acquired released s
  assume "life_run acquired released s"
  then obtain u where r: "lf_reach u s" and a: "acquired = mset (valid_tasks (cl s))" "released = {#}"
    by (auto simp: life_run_def)
  show "acquired = living s + mset (cleaned s) + released"
    unfolding a living_def cleaned_rest[OF lf_reach_inv[OF r]] by (simp only: multiset_partition[symmetric] add_0_right)
qed

lemma valid_tasks_count: "count (mset (valid_tasks c)) i \<le> 1"
  using distinct_count_atmost_1[of "valid_tasks c"] by (simp add: valid_tasks_def)

section \<open>A run\<close>

text \<open>A request submitted and started, whose caller drops the reference.\<close>

lemma release_dead_none: "(\<And>i. referenced s i \<Longrightarrow> referenced s' i) \<Longrightarrow> release_dead s s' = s'"
  by (simp add: release_dead_def dead_tasks_def cleanup_calls_def Let_def)

definition dropped_life :: client_life where
  "dropped_life = \<lparr>cl = demo_one, held = {}, cleaned = [], aborted = []\<rparr>"

lemma dropped_life_reach: "lf_reach u dropped_life"
proof -
  let ?L = "\<lambda>c H. \<lparr>cl = c, held = H, cleaned = [], aborted = []\<rparr>"
  let ?c = "demo_created new_CurlClient"
  have c: "tasks ?c = [demo_task 0]" "request_task_map ?c = [demo_hash \<mapsto> 0]" "posted ?c = []"
    by (simp_all add: demo_created_def new_CurlClient_def)
  have id: "task_identifier (demo_task 0) = demo_hash" by (simp add: demo_task_def)
  have r: "registered ?c 0" "registered (Resume ?c 0 5) 0" "registered demo_one 0"
    using c demo_one(6,7) id by (simp_all add: registered_def)
  have one: "lf_reach u (?L y K)" if a: "lf_reach u (?L x H)" "lf_action u (?L x H) (?L y K)" "H \<subseteq> {0}" "registered y 0"
      "{i. registered x i} \<subseteq> {i. registered y i}" for x H y K
  proof -
    have "release_dead (?L x H) (?L y K) = ?L y K"
      by (rule release_dead_none) (use a(3-5) in \<open>auto simp: referenced_def\<close>)
    then show ?thesis using lf_reach.step[OF a(1) lf_step.act[OF a(2)]] by simp
  qed
  have t: "TaskWithRequest (cl new_client_life) demo_request True True = Inr (0, ?c)"
    using demo_created[of new_CurlClient] by (simp add: new_client_life_def new_CurlClient_def)
  have a1: "lf_action u (?L new_CurlClient {}) (?L ?c {0})"
    using lf_action.submit[OF t, of u] by (simp add: new_client_life_def new_CurlClient_def)
  have 0: "lf_reach u (?L new_CurlClient {})" using lf_reach.start[of u] by (simp add: new_client_life_def)
  have 1: "lf_reach u (?L ?c {0})"
    by (rule one[OF 0 a1]) (simp_all add: r(1), simp add: registered_def new_CurlClient_def)
  have a2: "lf_action u (?L ?c {0}) (?L (Resume ?c 0 5) {0})" using lf_action.resume[of 0 "?L ?c {0}" u 5] by simp
  have 2: "lf_reach u (?L (Resume ?c 0 5) {0})"
    by (rule one[OF 1 a2]) (simp_all add: r(2), simp add: registered_def)
  have p: "posted (Resume ?c 0 5) = [StartRequest_of demo_hash]" using c id by (simp add: Resume_def Let_def set_task_def)
  have d: "run_posted ((Resume ?c 0 5)\<lparr>posted := []\<rparr>) (StartRequest_of demo_hash) = demo_one"
    using p by (simp add: demo_one_def demo_submit_def RunForTime_turn_def new_CurlClient_def)
  have a3: "lf_action u (?L (Resume ?c 0 5) {0}) (?L demo_one {0})"
    using lf_action.closure[of "?L (Resume ?c 0 5) {0}" "StartRequest_of demo_hash" "[]" u] p unfolding d[symmetric] by simp
  have reg: "{i. registered (Resume ?c 0 5) i} \<subseteq> {i. registered demo_one i}"
    unfolding d[symmetric] by (auto simp: registered_def StartRequest_def split: option.splits)
  have 3: "lf_reach u (?L demo_one {0})" by (rule one[OF 2 a3 _ r(3) reg]) simp
  have a4: "lf_action u (?L demo_one {0}) (?L demo_one {})" using lf_action.drop[of u "?L demo_one {0}" 0] by simp
  show ?thesis unfolding dropped_life_def by (rule one[OF 3 a4 _ r(3)]) simp_all
qed

section \<open>Properties\<close>

text \<open>(C15) The life of curl handles: in every reachable state the calls of \<open>curl_easy_cleanup\<close>, over the whole run, are for
  different handles, so none was cleaned up twice, only for tasks that are neither registered nor held by a caller, and such a handle is not in the multi
  handle; when no request was submitted while one with the same hash was in flight, none was in the multi handle when
  it was cleaned up either; and once the map is empty and the callers hold nothing, every handle that \<open>curl_easy_init\<close> returned has been cleaned up.\<close>

theorem handles_cleaned_once:
  assumes "lf_reach u s"
  shows "distinct (cleaned s) \<and> (\<forall>i\<in>set (cleaned s). i \<notin> held s \<and> \<not> registered (cl s) i \<and> i \<notin> multi_handles (cl s))
    \<and> (u \<longrightarrow> aborted s = [])
    \<and> (held s = {} \<and> request_task_map (cl s) = Map.empty \<longrightarrow> mset (cleaned s) = mset (valid_tasks (cl s)))"
proof -
  have r: "life_run (mset (valid_tasks (cl s))) {#} s" using assms by (auto simp: life_run_def)
  have "living s = {#}" if "held s = {}" "request_task_map (cl s) = Map.empty"
    using that by (simp add: living_def referenced_def registered_def)
  with handles.freed_distinct[OF r] handles.no_leak[OF r] valid_tasks_count lf_reach_inv[OF assms] show ?thesis
    by (auto simp: lf_inv_def orphans_def referenced_def)
qed

text \<open>The run above, and after it the caller submits the same request again and drops that task too: the first task is
  destroyed, once.\<close>

theorem handles_cleaned_once_witness:
  "lf_reach True dropped_life \<and> cleaned dropped_life = [] \<and> distinct (cleaned dropped_life)
    \<and> (\<exists>s. lf_reach False s \<and> cleaned s = [0] \<and> \<not> registered (cl s) 0 \<and> 0 \<notin> multi_handles (cl s))"
proof -
  let ?t = "tasks demo_one ! 0"
  have tasks: "tasks demo_one = [?t]" using demo_one(4) by (cases "tasks demo_one") auto
  have v: "handle_valid (task_handle ?t)" using cl_reach_inv[OF demo_one(1)] demo_one(5) by (auto simp: client_inv_def)
  obtain c' where t: "TaskWithRequest demo_one demo_request True True = Inr (1, c')"
    and c': "tasks c' = [?t, demo_task 1]" "request_task_map c' = [demo_hash \<mapsto> 1]"
    using demo_created[of demo_one] demo_one tasks by (simp add: demo_created_def)
  let ?x = "dropped_life\<lparr>cl := c', held := {1}\<rparr>"
  have "lf_action False dropped_life ?x"
    using lf_action.submit[of dropped_life demo_request True True 1 c' False] t by (simp add: dropped_life_def)
  then have r: "lf_reach False (release_dead dropped_life ?x)"
    using dropped_life_reach by (blast intro: lf_reach.step lf_step.act)
  have "dead_tasks dropped_life ?x = [0]"
    using c' demo_one by (simp add: dead_tasks_def referenced_def dropped_life_def registered_def demo_task_def upt_rec)
  then have "cleaned (release_dead dropped_life ?x) = [0]"
    using c' v by (simp add: cleanup_calls_valid dropped_life_def)
  with r handles_cleaned_once[OF r] handles_cleaned_once[OF dropped_life_reach[of True]] dropped_life_reach[of True] show ?thesis
    by (intro conjI exI[of _ "release_dead dropped_life ?x"]) (simp_all add: dropped_life_def)
qed

text \<open>(C24) A request that is submitted again while the first transfer runs cuts it off. When the map's task for a hash is
  in the multi handle and its caller has dropped the reference it was given, submitting another request with that hash
  destroys the task: its handle is cleaned up inside the multi handle, and its callback is not called then or at any
  later time.\<close>

theorem resubmission_aborts:
  assumes "lf_reach False s" "registered (cl s) i" "i \<in> multi_handles (cl s)" "i \<notin> held s"
    and "hash r = Inr (task_identifier (tasks (cl s) ! i))"
  shows "\<exists>j c'. TaskWithRequest (cl s) r cb ok = Inr (j, c')
    \<and> (let s' = release_dead s (s\<lparr>cl := c', held := insert j (held s)\<rparr>) in
       i \<in> set (aborted s') \<and> i \<in> set (cleaned s')
       \<and> (\<forall>s''. (lf_step False)\<^sup>*\<^sup>* s' s'' \<longrightarrow> i \<notin> fst ` set (delivered (cl s''))))"
proof -
  note inv = lf_reach_inv[OF assms(1)]
  then have c: "client_inv False (cl s)" by (auto simp: lf_inv_def)
  have i: "i < length (tasks (cl s))" "i \<notin> fst ` set (delivered (cl s))"
    using c assms(2) by (auto simp: client_inv_def registered_def)
  have v: "handle_valid (task_handle (tasks (cl s) ! i))" using c assms(3) by (simp add: client_inv_def)
  obtain j c' where t: "TaskWithRequest (cl s) r cb ok = Inr (j, c')"
    using assms(5) by (simp add: TaskWithRequest_def new_RequestTaskImpl_def Let_def)
  let ?x = "s\<lparr>cl := c', held := insert j (held s)\<rparr>"
  from t obtain h t' where t': "hash r = Inr h" "j = length (tasks (cl s))" "handle_valid (task_handle t') = ok"
    "c' = (cl s)\<lparr>tasks := tasks (cl s) @ [t'], request_task_map := (request_task_map (cl s))(h \<mapsto> j)\<rparr>"
    by (rule TaskWithRequest_Inr)
  have "\<not> registered c' i" using assms(5) i(1) t' by (auto simp: registered_def nth_append)
  then have "i \<in> set (dead_tasks s ?x)" using i(1) t' assms(2,4) by (auto simp: dead_tasks_def referenced_def)
  then have d: "i \<in> set (cleanup_calls ?x (dead_tasks s ?x))" using i(1) t' v by (simp add: cleanup_calls_valid nth_append)
  have m: "multi_handles c' = multi_handles (cl s)" "delivered c' = delivered (cl s)" using t'(4) by simp_all
  have "lf_step False s (release_dead s ?x)" by (intro lf_step.act lf_action.submit[OF t]) simp
  then have inv': "lf_inv False (release_dead s ?x)" using inv by (rule lf_inv_step)
  have "i \<in> set (aborted (release_dead s ?x))" "i \<in> set (cleaned (release_dead s ?x))" using d assms(3) m by simp_all
  with cleaned_silent[OF _ inv', of _ i] i(2) m(2) t show ?thesis by (simp add: Let_def)
qed

theorem resubmission_aborts_witness:
  "\<exists>j c'. TaskWithRequest demo_one demo_request True True = Inr (j, c')
    \<and> 0 \<in> set (aborted (release_dead dropped_life (dropped_life\<lparr>cl := c', held := {j}\<rparr>)))
    \<and> 0 \<notin> fst ` set (delivered c')"
proof -
  have "registered (cl dropped_life) 0" "0 \<in> multi_handles (cl dropped_life)" "0 \<notin> held dropped_life"
    "hash demo_request = Inr (task_identifier (tasks (cl dropped_life) ! 0))"
    using demo_one demo_request_hash by (simp_all add: dropped_life_def registered_def)
  from resubmission_aborts[OF dropped_life_reach this, of True True]
  show ?thesis by (auto simp: dropped_life_def Let_def)
qed

end
