(* ===== verification/Loop_Lifetime.thy ===== *)
theory Loop_Lifetime
  imports Message_Loop_Laws Ownership
begin

text \<open>
  Who owns a message loop. The \<open>MessageLoop\<close> in the thread-local slot of a thread and every \<open>TaskRunner\<close> hold a
  \<open>shared_ptr\<close> to the \<open>MessageLoopImpl\<close>; there is one task runner for each loop, to which clients keep references. When
  a thread ends its slot is deleted, and the loop is destroyed when the last reference to its runner goes too, on
  whichever thread that happens. The lemmas show that a runner a client holds never refers to a destroyed loop and
  that a loop is destroyed once, as soon as nothing owns it.
\<close>

section \<open>State and steps\<close>

record ('c, 'u) loop_life =
  proc :: "('c, 'u) process"
  threads :: "nat list"             \<comment> \<open>threads that have not ended\<close>
  runner_refs :: "nat \<Rightarrow> nat"      \<comment> \<open>references of clients to the task runner of each loop\<close>
  destroyed :: "nat list"           \<comment> \<open>loops destroyed, in order\<close>

definition loop_owned :: "('c, 'u) loop_life \<Rightarrow> nat \<Rightarrow> bool" where
  "loop_owned s l \<longleftrightarrow> list_ex (\<lambda>th. tls_message_loop (proc s) th = Some l) (threads s) \<or> 0 < runner_refs s l"

text \<open>The release of a \<open>shared_ptr\<close> to the loop \<open>l\<close>; \<open>ctl_result\<close> is the answer of \<open>epoll_ctl\<close> should it be the last.\<close>

definition release_loop :: "('c, 'u) loop_life \<Rightarrow> nat \<Rightarrow> int \<Rightarrow> ('c, 'u) loop_life res" where
  "release_loop s l ctl_result =
     (if loop_owned s l then Inr s
      else res_bind (MessageLoopImpl_destroy (proc s) l ctl_result) (\<lambda>p.
             Inr (s\<lparr>proc := p, destroyed := destroyed s @ [l]\<rparr>)))"

definition take_runner :: "('c, 'u) loop_life \<Rightarrow> nat \<Rightarrow> ('c, 'u) loop_life res" where
  "take_runner s th =
     res_bind (GetCurrent (proc s) th) (\<lambda>loop.
       let l = GetTaskRunner loop in Inr (s\<lparr>runner_refs := (runner_refs s)(l := runner_refs s l + 1)\<rparr>))"

definition drop_runner :: "('c, 'u) loop_life \<Rightarrow> nat \<Rightarrow> int \<Rightarrow> ('c, 'u) loop_life res" where
  "drop_runner s l ctl_result = release_loop (s\<lparr>runner_refs := (runner_refs s)(l := runner_refs s l - 1)\<rparr>) l ctl_result"

definition end_thread :: "('c, 'u) loop_life \<Rightarrow> nat \<Rightarrow> int \<Rightarrow> ('c, 'u) loop_life res" where
  "end_thread s th ctl_result =
     (let s' = s\<lparr>threads := removeAll th (threads s),
                 proc := (proc s)\<lparr>tls_message_loop := (tls_message_loop (proc s))(th := None)\<rparr>\<rparr>
      in case tls_message_loop (proc s) th of None \<Rightarrow> Inr s' | Some l \<Rightarrow> release_loop s' l ctl_result)"

inductive ll_step :: "nat \<Rightarrow> ('c, 'u) loop_life \<Rightarrow> nat \<Rightarrow> ('c, 'u) loop_life \<Rightarrow> bool" where
  ensure: "th \<in> set (threads s) \<Longrightarrow> m < 2 ^ 32 \<Longrightarrow> EnsureInitializedForCurrentThread (proc s) th a b c = Inr p' \<Longrightarrow>
    ll_step m s (if tls_message_loop (proc s) th = None then Suc m else m) (s\<lparr>proc := p'\<rparr>)"
| spawn: "tls_message_loop (proc s) th = None \<Longrightarrow> th \<notin> set (threads s) \<Longrightarrow> ll_step m s m (s\<lparr>threads := th # threads s\<rparr>)"
| take_ref: "th \<in> set (threads s) \<Longrightarrow> take_runner s th = Inr s' \<Longrightarrow> ll_step m s m s'"
| copy_ref: "0 < runner_refs s l \<Longrightarrow> ll_step m s m (s\<lparr>runner_refs := (runner_refs s)(l := runner_refs s l + 1)\<rparr>)"
| drop_ref: "0 < runner_refs s l \<Longrightarrow> drop_runner s l c = Inr s' \<Longrightarrow> ll_step m s m s'"
| thread_end: "th \<in> set (threads s) \<Longrightarrow> end_thread s th c = Inr s' \<Longrightarrow> ll_step m s m s'"
| post: "0 < runner_refs s l \<Longrightarrow> PostTask (proc s) l k t = Inr p' \<Longrightarrow> ll_step m s m (s\<lparr>proc := p'\<rparr>)"
| flush: "tls_message_loop (proc s) th = Some l \<Longrightarrow> loops (proc s) l = Some lp \<Longrightarrow>
    grab_tasks (proc s) (queue_id lp) FlushAll = Inr (cs, p') \<Longrightarrow> ll_step m s m (s\<lparr>proc := p'\<rparr>)"

inductive ll_reach :: "nat \<Rightarrow> ('c, 'u) loop_life \<Rightarrow> bool" where
  start: "ll_reach 0 \<lparr>proc = new_process clk st u, threads = [0], runner_refs = (\<lambda>_. 0), destroyed = []\<rparr>"
| step: "ll_reach m s \<Longrightarrow> ll_step m s m' s' \<Longrightarrow> ll_reach m' s'"

section \<open>The invariant\<close>

definition ll_inv :: "nat \<Rightarrow> ('c, 'u) loop_life \<Rightarrow> bool" where
  "ll_inv m s \<longleftrightarrow> proc_inv m (proc s)
     \<and> (\<forall>l. loops (proc s) l \<noteq> None \<longleftrightarrow> loop_owned s l)
     \<and> (\<forall>th l. tls_message_loop (proc s) th = Some l \<longrightarrow> th \<in> set (threads s))
     \<and> (\<forall>th th' l. tls_message_loop (proc s) th = Some l \<and> tls_message_loop (proc s) th' = Some l \<longrightarrow> th = th')
     \<and> distinct (destroyed s) \<and> (\<forall>l. l \<in> set (destroyed s) \<longleftrightarrow> l < num_loops (proc s) \<and> loops (proc s) l = None)"

lemma loop_owned_iff:
  "loop_owned s l \<longleftrightarrow> (\<exists>th\<in>set (threads s). tls_message_loop (proc s) th = Some l) \<or> 0 < runner_refs s l"
  by (auto simp: loop_owned_def list_ex_iff)

text \<open>Steps that change nothing but the queues and timers of a process.\<close>

definition same_loops :: "('c, 'u) process \<Rightarrow> ('c, 'u) process \<Rightarrow> bool" where
  "same_loops p p' \<longleftrightarrow> tls_message_loop p' = tls_message_loop p \<and> num_loops p' = num_loops p
     \<and> (\<forall>l. loops p' l = None \<longleftrightarrow> loops p l = None)"

lemma wake_all_same_loops: "wake_all p ws = Inr p' \<Longrightarrow> same_loops p p'"
proof (induction p ws rule: wake_all.induct)
  case (2 p l t ws)
  then obtain p1 where p1: "WakeUp p l t = Inr p1" "wake_all p1 ws = Inr p'" by (auto simp: res_simps)
  obtain lp where "loops p l = Some lp" using p1(1) by (cases "loops p l") (auto simp: WakeUp_def)
  then have "same_loops p p1" using p1(1) by (auto simp: WakeUp_Inr same_loops_def)
  with 2(1)[OF p1] show ?case by (simp add: same_loops_def)
qed (simp add: same_loops_def)

lemma PostTask_same_loops: "PostTask p l k t = Inr p' \<Longrightarrow> same_loops p p'"
  by (auto simp: PostTask_def res_simps case_Now same_loops_def dest!: wake_all_same_loops split: if_splits)

lemma grab_tasks_same_loops: "grab_tasks p q ty = Inr (cs, p') \<Longrightarrow> same_loops p p'"
  by (auto simp: grab_tasks_def res_simps case_Now same_loops_def dest!: wake_all_same_loops)

lemma ll_inv_same:
  assumes "ll_inv m s" "proc_inv m p'" "same_loops (proc s) p'"
  shows "ll_inv m (s\<lparr>proc := p'\<rparr>)"
  using assms by (simp add: ll_inv_def loop_owned_iff same_loops_def)

text \<open>A release after one owner went: either another owner is left, or the loop is destroyed.\<close>

lemma ll_inv_release:
  assumes rel: "release_loop s l c = Inr s'" and p: "proc_inv m (proc s)"
    and own: "\<forall>l'. l' \<noteq> l \<longrightarrow> (loops (proc s) l' \<noteq> None \<longleftrightarrow> loop_owned s l')" "loops (proc s) l \<noteq> None"
    and tls: "\<forall>th l. tls_message_loop (proc s) th = Some l \<longrightarrow> th \<in> set (threads s)"
      "\<forall>th th' l. tls_message_loop (proc s) th = Some l \<and> tls_message_loop (proc s) th' = Some l \<longrightarrow> th = th'"
    and d: "distinct (destroyed s)" "\<forall>l. l \<in> set (destroyed s) \<longleftrightarrow> l < num_loops (proc s) \<and> loops (proc s) l = None"
  shows "ll_inv m s'"
proof (cases "loop_owned s l")
  case True
  then have "s' = s" using rel by (simp add: release_loop_def)
  with assms True show ?thesis by (auto simp: ll_inv_def)
next
  case False
  obtain p' where p': "MessageLoopImpl_destroy (proc s) l c = Inr p'" and s': "s' = s\<lparr>proc := p', destroyed := destroyed s @ [l]\<rparr>"
    using rel False by (auto simp: release_loop_def res_simps)
  have "proc_inv m p'" by (rule proc_inv_destroy[OF p p'])
  moreover have q: "loops p' = (loops (proc s))(l := None)" "tls_message_loop p' = tls_message_loop (proc s)"
    "num_loops p' = num_loops (proc s)"
    using p' by (auto simp: MessageLoopImpl_destroy_def res_simps)
  moreover have "l < num_loops (proc s)" using p own(2) by (auto simp: proc_inv_def)
  moreover have "loop_owned s' l' = loop_owned s l'" for l' by (simp add: loop_owned_iff s' q)
  ultimately show ?thesis
    using False own d tls unfolding ll_inv_def s' by auto
qed

lemma ll_inv_tls: "ll_inv m s \<Longrightarrow> tls_message_loop (proc s) th = Some l \<Longrightarrow> loops (proc s) l \<noteq> None"
  unfolding ll_inv_def loop_owned_iff by blast

lemma ll_inv_refs: "ll_inv m s \<Longrightarrow> 0 < runner_refs s l \<Longrightarrow> loops (proc s) l \<noteq> None"
  unfolding ll_inv_def loop_owned_iff by blast

lemma ll_inv_ensure:
  assumes inv: "ll_inv m s" and th: "th \<in> set (threads s)" and m: "m < 2 ^ 32"
    and e: "EnsureInitializedForCurrentThread (proc s) th a b c = Inr p'"
  shows "ll_inv (if tls_message_loop (proc s) th = None then Suc m else m) (s\<lparr>proc := p'\<rparr>)"
proof (cases "tls_message_loop (proc s) th")
  case (Some l)
  then have "p' = proc s" using e by (simp add: EnsureInitializedForCurrentThread_def)
  with inv Some show ?thesis by simp
next
  case None
  then obtain l p1 where c: "Create (proc s) a b c = Inr (l, p1)"
    and p': "p' = p1\<lparr>tls_message_loop := (tls_message_loop p1)(th \<mapsto> l)\<rparr>"
    using e by (auto simp: EnsureInitializedForCurrentThread_def res_simps)
  have p: "proc_inv m (proc s)" using inv by (simp add: ll_inv_def)
  have l: "proc_inv (Suc m) p1" "l = num_loops (proc s)" "loops (proc s) l = None"
    using proc_inv_create[OF p m c] by auto
  have q: "num_loops p1 = Suc (num_loops (proc s))" "tls_message_loop p1 = tls_message_loop (proc s)"
    "l' \<noteq> l \<Longrightarrow> loops p1 l' = loops (proc s) l'" "loops p1 l \<noteq> None" for l'
    using c by (auto simp: Create_def Let_def res_simps split: prod.splits)
  have fresh: "tls_message_loop (proc s) th' \<noteq> Some l" for th'
    using ll_inv_tls[OF inv, of th' l] l(3) by auto
  have none: "runner_refs s l = 0" "l \<notin> set (destroyed s)"
    using ll_inv_refs[OF inv, of l] inv l(2,3) by (auto simp: ll_inv_def)
  have "proc_inv (Suc m) p'" using l(1) unfolding p' by (rule proc_inv_cong[rotated 3]) simp_all
  moreover have "loops p' l' \<noteq> None \<longleftrightarrow> loop_owned (s\<lparr>proc := p'\<rparr>) l'" for l'
  proof (cases "l' = l")
    case True
    then show ?thesis using q(4) th by (auto simp: loop_owned_iff p')
  next
    case False
    then have "tls_message_loop p' x = Some l' \<longleftrightarrow> tls_message_loop (proc s) x = Some l'" for x
      using None by (auto simp: p' q(2))
    with False inv q(3) show ?thesis by (simp add: ll_inv_def loop_owned_iff p')
  qed
  moreover have "\<forall>x l'. tls_message_loop p' x = Some l' \<longrightarrow> x \<in> set (threads s)"
    using inv th by (auto simp: ll_inv_def p' q(2))
  moreover have "\<forall>x y l'. tls_message_loop p' x = Some l' \<and> tls_message_loop p' y = Some l' \<longrightarrow> x = y"
    using inv fresh by (auto simp: ll_inv_def p' q(2))
  moreover have "l' \<in> set (destroyed s) \<longleftrightarrow> l' < num_loops p' \<and> loops p' l' = None" for l'
  proof (cases "l' = l")
    case True
    then show ?thesis using none(2) q(4) by (simp add: p')
  next
    case False
    then show ?thesis using inv q(1) q(3)[OF False] l(2) by (auto simp: ll_inv_def p' less_Suc_eq)
  qed
  moreover have "distinct (destroyed s)" using inv by (simp add: ll_inv_def)
  ultimately show ?thesis using None by (simp add: ll_inv_def)
qed

lemma ll_inv_drop:
  assumes inv: "ll_inv m s" and r: "0 < runner_refs s l" and d: "drop_runner s l c = Inr s'"
  shows "ll_inv m s'"
proof (rule ll_inv_release[OF d[unfolded drop_runner_def]])
  show "\<forall>l'. l' \<noteq> l \<longrightarrow> (loops (proc (s\<lparr>runner_refs := (runner_refs s)(l := runner_refs s l - 1)\<rparr>)) l' \<noteq> None
      \<longleftrightarrow> loop_owned (s\<lparr>runner_refs := (runner_refs s)(l := runner_refs s l - 1)\<rparr>) l')"
    using inv by (auto simp: ll_inv_def loop_owned_iff)
  show "loops (proc (s\<lparr>runner_refs := (runner_refs s)(l := runner_refs s l - 1)\<rparr>)) l \<noteq> None"
    using inv r by (simp add: ll_inv_def loop_owned_iff)
qed (use inv in \<open>simp_all add: ll_inv_def\<close>)

lemma ll_inv_end:
  assumes inv: "ll_inv m s" and th: "th \<in> set (threads s)" and e: "end_thread s th c = Inr s'"
  shows "ll_inv m s'"
proof -
  let ?s = "s\<lparr>threads := removeAll th (threads s),
    proc := (proc s)\<lparr>tls_message_loop := (tls_message_loop (proc s))(th := None)\<rparr>\<rparr>"
  have p: "proc_inv m (proc ?s)" using inv by (auto simp: ll_inv_def intro: proc_inv_cong[rotated 3])
  have tls: "\<forall>th l. tls_message_loop (proc ?s) th = Some l \<longrightarrow> th \<in> set (threads ?s)"
    "\<forall>th th' l. tls_message_loop (proc ?s) th = Some l \<and> tls_message_loop (proc ?s) th' = Some l \<longrightarrow> th = th'"
    "distinct (destroyed ?s)" "\<forall>l. l \<in> set (destroyed ?s) \<longleftrightarrow> l < num_loops (proc ?s) \<and> loops (proc ?s) l = None"
    using inv by (auto simp: ll_inv_def)
  have own: "loop_owned ?s l' = loop_owned s l'" if "tls_message_loop (proc s) th \<noteq> Some l'" for l'
    using that by (auto simp: loop_owned_iff)
  show ?thesis
  proof (cases "tls_message_loop (proc s) th")
    case None
    then have "s' = ?s" using e by (simp add: end_thread_def Let_def)
    moreover have "\<forall>l. loops (proc ?s) l \<noteq> None \<longleftrightarrow> loop_owned ?s l" using own None inv by (simp add: ll_inv_def)
    ultimately show ?thesis using p tls unfolding ll_inv_def by blast
  next
    case (Some l)
    have "release_loop ?s l c = Inr s'" using e Some by (simp add: end_thread_def Let_def)
    moreover have "\<forall>l'. l' \<noteq> l \<longrightarrow> (loops (proc ?s) l' \<noteq> None \<longleftrightarrow> loop_owned ?s l')"
      using own Some inv by (simp add: ll_inv_def)
    moreover have "loops (proc ?s) l \<noteq> None" using inv th Some by (auto simp: ll_inv_def loop_owned_iff)
    ultimately show ?thesis using ll_inv_release[OF _ p _ _ tls] by blast
  qed
qed

lemma ll_inv_step: "ll_step m s m' s' \<Longrightarrow> ll_inv m s \<Longrightarrow> ll_inv m' s'"
proof (induction rule: ll_step.induct)
  case (spawn s th m)
  then show ?case by (auto simp: ll_inv_def loop_owned_iff)
next
  case (take_ref th s s' m)
  then obtain l where l: "tls_message_loop (proc s) th = Some l"
    "s' = s\<lparr>runner_refs := (runner_refs s)(l := runner_refs s l + 1)\<rparr>"
    by (auto simp: take_runner_def GetCurrent_def res_simps Let_def GetTaskRunner_def GetLoopImpl_def split: option.splits)
  then show ?case using take_ref by (auto simp: ll_inv_def loop_owned_iff)
next
  case (copy_ref s l m)
  then show ?case by (auto simp: ll_inv_def loop_owned_iff)
next
  case (post s l k t p' m)
  then show ?case
    using ll_inv_same[OF post.prems _ PostTask_same_loops[OF post.hyps(2)]] proc_inv_post[OF _ post.hyps(2)]
    by (simp add: ll_inv_def)
next
  case (flush s th l lp cs p' m)
  have p: "proc_inv m (proc s)" using flush.prems by (simp add: ll_inv_def)
  obtain e where "queue_entries (queues (proc s)) (tqid_key (queue_id lp)) = Some e"
    using proc_inv_loop[OF p flush.hyps(2)] by metis
  from grab_tasks_all(3)[OF p flush.hyps(2,3) this] show ?case
    using ll_inv_same[OF flush.prems _ grab_tasks_same_loops[OF flush.hyps(3)]] by simp
next
  case (ensure th s m a b c p')
  show ?case by (rule ll_inv_ensure[OF ensure.prems ensure.hyps])
next
  case (drop_ref s l c s' m)
  show ?case by (rule ll_inv_drop[OF drop_ref.prems drop_ref.hyps])
next
  case (thread_end th s c s' m)
  show ?case by (rule ll_inv_end[OF thread_end.prems thread_end.hyps])
qed

lemma ll_reach_inv: "ll_reach m s \<Longrightarrow> ll_inv m s"
proof (induction rule: ll_reach.induct)
  case (start clk st u)
  have "proc_inv 0 (new_process clk st u)" by (rule ml_reach_inv) (rule ml_reach.start)
  then show ?case by (simp add: ll_inv_def loop_owned_iff new_process_def)
qed (rule ll_inv_step)

section \<open>Properties\<close>

lemma PostTask_faults:
  assumes inv: "proc_inv m p" and l: "loops p l = Some lp" and f: "PostTask p l (Some k) t = Inl f"
  shows "f = SignedOverflow \<or> f = CheckFailed \<and> (\<exists>spec. settime p spec \<noteq> 0)"
proof -
  let ?p = "snd (Now p)"
  obtain e where e: "queue_entries (queues p) (tqid_key (queue_id lp)) = Some e" "wakeable e = Some l"
    "tqid_key (queue_id lp) \<in> queue_locks (queues p)"
    using proc_inv_loop[OF inv l] by metis
  let ?first = "dt_target_time (hd (dtq_push (task_for (queues p) (Some k) t) (delayed_tasks e)))"
  have nt: "\<not> terminated lp" using f l by (auto simp: PostTask_def)
  show ?thesis
  proof (cases "in_int64 (ticks ?first - ticks (fst (Now p)))")
    case False
    then show ?thesis using f l nt e by (simp add: PostTask_def case_Now RegisterTask_eq Let_def)
  next
    case True
    then have "settime p (rearm_spec ?first) \<noteq> 0 \<and> f = CheckFailed"
      using f l nt e by (cases "settime p (rearm_spec ?first) = 0")
        (simp_all add: PostTask_def case_Now RegisterTask_eq Let_def wakes_for_def WakeUp_def TimerRearm_def)
    then show ?thesis by blast
  qed
qed

text \<open>(C16) A task runner never refers to a loop that is gone: in every interleaving of threads that start, end, make their
  loops and pass runners around, exactly the loops that a running thread or a reference to their runner owns exist, each
  of the others has been destroyed exactly once; and posting through a runner that is held reaches the loop and its
  queue, so it can only fail when the clock overflows or the system refuses the timer.\<close>

theorem runner_never_dangles:
  assumes "ll_reach m s"
  shows "(\<forall>l. loops (proc s) l \<noteq> None \<longleftrightarrow> loop_owned s l)
    \<and> distinct (destroyed s) \<and> (\<forall>l. l \<in> set (destroyed s) \<longleftrightarrow> l < num_loops (proc s) \<and> \<not> loop_owned s l)
    \<and> (\<forall>l k t f. 0 < runner_refs s l \<and> PostTask (proc s) l (Some k) t = Inl f \<longrightarrow>
        f = SignedOverflow \<or> f = CheckFailed \<and> (\<exists>spec. settime (proc s) spec \<noteq> 0))"
proof -
  note inv = ll_reach_inv[OF assms]
  have "f = SignedOverflow \<or> f = CheckFailed \<and> (\<exists>spec. settime (proc s) spec \<noteq> 0)"
    if r: "0 < runner_refs s l" and f: "PostTask (proc s) l (Some k) t = Inl f" for l k t f
  proof -
    obtain lp where "loops (proc s) l = Some lp" using ll_inv_refs[OF inv r] by auto
    moreover have "proc_inv m (proc s)" using inv by (simp add: ll_inv_def)
    ultimately show ?thesis using PostTask_faults[OF _ _ f] by (simp only:)
  qed
  moreover have own: "\<forall>l. loops (proc s) l \<noteq> None \<longleftrightarrow> loop_owned s l" and "distinct (destroyed s)"
    and d: "\<forall>l. l \<in> set (destroyed s) \<longleftrightarrow> l < num_loops (proc s) \<and> loops (proc s) l = None"
    using inv by (simp_all add: ll_inv_def)
  moreover have "\<forall>l. l \<in> set (destroyed s) \<longleftrightarrow> l < num_loops (proc s) \<and> \<not> loop_owned s l" using own d by metis
  ultimately show ?thesis by blast
qed

text \<open>A thread makes its loop, another keeps a runner, and the thread ends: the loop is still there, and it is destroyed
  when the runner is dropped.\<close>

definition runner_life :: "nat list \<Rightarrow> nat \<Rightarrow> (string, string list) loop_life" where
  "runner_life ths refs = \<lparr>proc = demo_loop\<lparr>tls_message_loop := (if ths = [] then Map.empty else [0 \<mapsto> 0])\<rparr>, threads = ths,
     runner_refs = (\<lambda>l. if l = 0 then refs else 0), destroyed = []\<rparr>"

lemma runner_life_reach: "ll_reach 1 (runner_life [] 1)"
proof -
  let ?s0 = "\<lparr>proc = demo_start, threads = [0], runner_refs = (\<lambda>_. 0), destroyed = []\<rparr> :: (string, string list) loop_life"
  have 0: "ll_reach 0 ?s0" unfolding demo_start_def by (rule ll_reach.start)
  have t0: "tls_message_loop demo_start = Map.empty" by (simp add: demo_start_def new_process_def)
  have "EnsureInitializedForCurrentThread demo_start 0 3 4 0 = Inr (proc (runner_life [0] 0))"
    using demo_create by (simp add: EnsureInitializedForCurrentThread_def t0 runner_life_def demo_loop_def demo_start_def new_process_def)
  from ll_reach.step[OF 0 ll_step.ensure[of 0 ?s0 0 3 4 0]] this t0 have 1: "ll_reach 1 (runner_life [0] 0)"
    by (simp add: runner_life_def if_distrib cong: if_cong)
  have "take_runner (runner_life [0] 0) 0 = Inr (runner_life [0] 1)"
    by (auto simp: take_runner_def GetCurrent_def runner_life_def GetTaskRunner_def GetLoopImpl_def)
  from ll_reach.step[OF 1 ll_step.take_ref[OF _ this]] have 2: "ll_reach 1 (runner_life [0] 1)" by (simp add: runner_life_def)
  have "end_thread (runner_life [0] 1) 0 0 = Inr (runner_life [] 1)"
    by (simp add: end_thread_def runner_life_def Let_def release_loop_def loop_owned_def)
  from ll_reach.step[OF 2 ll_step.thread_end[OF _ this]] show ?thesis by (simp add: runner_life_def)
qed

theorem runner_never_dangles_witness:
  "loops (proc (runner_life [] 1)) 0 \<noteq> None
    \<and> (\<exists>s'. drop_runner (runner_life [] 1) 0 0 = Inr s' \<and> loops (proc s') 0 = None \<and> destroyed s' = [0])"
proof -
  have "loop_owned (runner_life [] 1) 0" by (simp add: loop_owned_def runner_life_def)
  then have l: "loops (proc (runner_life [] 1)) 0 \<noteq> None" using runner_never_dangles[OF runner_life_reach] by blast
  have "\<exists>s'. drop_runner (runner_life [] 1) 0 0 = Inr s' \<and> loops (proc s') 0 = None \<and> destroyed s' = [0]"
    by (simp add: drop_runner_def release_loop_def loop_owned_def runner_life_def MessageLoopImpl_destroy_def demo_loop_def
        Dispose_def CreateTaskQueue_def new_MessageLoopTaskQueues_def Let_def)
  with l show ?thesis by blast
qed

end
