(* ===== verification/Lock_Sets.thy ===== *)
theory Lock_Sets
  imports FF_Prelude
begin

text \<open>
  Threads that share variables under locks. A thread is the list of what it has still to do (acquire a lock,
  exclusively as \<open>std::mutex\<close>, \<open>ScopedMutex\<close> and \<open>UniqueLock\<close> do or shared as \<open>SharedLock\<close> does, release it,
  read or write a variable) with the locks it holds; a system is a list of threads of which one moves at a time.
  Atomic variables and system calls are not events.

  The interface \<open>lock_discipline\<close> is what the operations of a component promise: each takes locks in the order of a
  rank, gives back what it took, and touches a variable that has a guard only while it holds it, which is what
  the annotations of \<open>thread_annotations.h\<close> state (\<open>FF_GUARDED_BY\<close>, \<open>FF_ACQUIRE\<close>, \<open>FF_RELEASE\<close>). Its lemmas hold for
  every interleaving of any number of threads that call such operations: guarded variables are never accessed
  by two threads at once, a critical section is not disturbed, and no set of threads blocks each other.
\<close>

datatype lock_mode = Exclusive | Shared

datatype access_mode = Reads | Writes

datatype ('l, 'v) event = Acquire 'l lock_mode | Release 'l | Access 'v access_mode

record ('l, 'v) thread =
  held :: "'l \<rightharpoonup> lock_mode"
  todo :: "('l, 'v) event list"

type_synonym ('l, 'v) threads = "('l, 'v) thread list"

text \<open>A lock can be taken exclusively when nobody holds it, and shared when nobody holds it exclusively. A thread that
  takes a mutex it already holds waits for itself.\<close>

definition compatible :: "lock_mode \<Rightarrow> lock_mode option \<Rightarrow> bool" where
  "compatible m h = (case h of None \<Rightarrow> True | Some Exclusive \<Rightarrow> False | Some Shared \<Rightarrow> m = Shared)"

definition can_acquire :: "('l, 'v) threads \<Rightarrow> 'l \<Rightarrow> lock_mode \<Rightarrow> bool" where
  "can_acquire ts l m \<longleftrightarrow> (\<forall>t\<in>set ts. compatible m (held t l))"

text \<open>What an enabled event does to its thread.\<close>

fun perform :: "('l, 'v) thread \<Rightarrow> ('l, 'v) thread" where
  "perform \<lparr>held = h, todo = []\<rparr> = \<lparr>held = h, todo = []\<rparr>"
| "perform \<lparr>held = h, todo = Acquire l m # es\<rparr> = \<lparr>held = h(l \<mapsto> m), todo = es\<rparr>"
| "perform \<lparr>held = h, todo = Release l # es\<rparr> = \<lparr>held = h(l := None), todo = es\<rparr>"
| "perform \<lparr>held = h, todo = Access v a # es\<rparr> = \<lparr>held = h, todo = es\<rparr>"

definition enabled :: "('l, 'v) threads \<Rightarrow> nat \<Rightarrow> bool" where
  "enabled ts i \<longleftrightarrow> i < length ts \<and>
     (case todo (ts ! i) of [] \<Rightarrow> False | Acquire l m # _ \<Rightarrow> can_acquire ts l m | _ \<Rightarrow> True)"

inductive lock_step :: "('l, 'v) threads \<Rightarrow> ('l, 'v) threads \<Rightarrow> bool" where
  move: "enabled ts i \<Longrightarrow> lock_step ts (ts[i := perform (ts ! i)])"

inductive_cases lock_stepE: "lock_step ts ts'"

text \<open>Two threads are about to access a variable and one of them writes it.\<close>

definition race :: "('l, 'v) threads \<Rightarrow> nat \<Rightarrow> nat \<Rightarrow> 'v \<Rightarrow> bool" where
  "race ts i j v \<longleftrightarrow> i < length ts \<and> j < length ts \<and> i \<noteq> j \<and>
     (\<exists>a b es fs. todo (ts ! i) = Access v a # es \<and> todo (ts ! j) = Access v b # fs \<and> (a = Writes \<or> b = Writes))"

definition finished :: "('l, 'v) threads \<Rightarrow> bool" where
  "finished ts \<longleftrightarrow> (\<forall>t\<in>set ts. todo t = [])"

text \<open>Threads that run calls one after the other, given the events of each call.\<close>

definition start_threads :: "('c \<Rightarrow> ('l, 'v) event list) \<Rightarrow> 'c list list \<Rightarrow> ('l, 'v) threads" where
  "start_threads events calls = map (\<lambda>cs. \<lparr>held = Map.empty, todo = concat (map events cs)\<rparr>) calls"

definition reaches :: "('c \<Rightarrow> ('l, 'v) event list) \<Rightarrow> 'c list list \<Rightarrow> ('l, 'v) threads \<Rightarrow> bool" where
  "reaches events calls ts \<longleftrightarrow> lock_step\<^sup>*\<^sup>* (start_threads events calls) ts"

section \<open>The discipline of one thread\<close>

definition holds_for :: "access_mode \<Rightarrow> lock_mode option \<Rightarrow> bool" where
  "holds_for a h = (case h of None \<Rightarrow> False | Some Exclusive \<Rightarrow> True | Some Shared \<Rightarrow> a = Reads)"

fun disciplined :: "('v \<Rightarrow> 'l option) \<Rightarrow> ('l \<Rightarrow> nat) \<Rightarrow> ('l \<rightharpoonup> lock_mode) \<Rightarrow> ('l, 'v) event list \<Rightarrow> bool" where
  "disciplined guard rank h [] \<longleftrightarrow> h = Map.empty"
| "disciplined guard rank h (Acquire l m # es) \<longleftrightarrow>
     (\<forall>l'\<in>dom h. rank l' < rank l) \<and> disciplined guard rank (h(l \<mapsto> m)) es"
| "disciplined guard rank h (Release l # es) \<longleftrightarrow> l \<in> dom h \<and> disciplined guard rank (h(l := None)) es"
| "disciplined guard rank h (Access v a # es) \<longleftrightarrow>
     (\<forall>l. guard v = Some l \<longrightarrow> holds_for a (h l)) \<and> disciplined guard rank h es"

abbreviation well_behaved :: "('v \<Rightarrow> 'l option) \<Rightarrow> ('l \<Rightarrow> nat) \<Rightarrow> ('l, 'v) thread \<Rightarrow> bool" where
  "well_behaved guard rank t \<equiv> disciplined guard rank (held t) (todo t)"

lemma disciplined_append:
  "disciplined guard rank h es \<Longrightarrow> disciplined guard rank Map.empty fs \<Longrightarrow> disciplined guard rank h (es @ fs)"
  by (induction guard rank h es rule: disciplined.induct) auto

lemma disciplined_concat:
  "(\<And>es. es \<in> set ess \<Longrightarrow> disciplined guard rank Map.empty es) \<Longrightarrow> disciplined guard rank Map.empty (concat ess)"
  by (induction ess) (auto intro: disciplined_append)

lemma perform_disciplined:
  "well_behaved guard rank t \<Longrightarrow> well_behaved guard rank (perform t)"
  by (cases t rule: perform.cases) auto

lemma perform_shorter: "todo t \<noteq> [] \<Longrightarrow> length (todo (perform t)) < length (todo t)"
  by (cases t rule: perform.cases) auto

lemma perform_todo: "todo (perform t) = tl (todo t)"
  by (cases t rule: perform.cases) auto

section \<open>The discipline of a system\<close>

text \<open>Locks exclude: two threads hold the same lock only if both hold it shared.\<close>

definition exclusion :: "('l, 'v) threads \<Rightarrow> bool" where
  "exclusion ts \<longleftrightarrow> (\<forall>i<length ts. \<forall>j<length ts. \<forall>l. i \<noteq> j \<and> held (ts ! i) l = Some Exclusive \<longrightarrow> held (ts ! j) l = None)"

lemma exclusionI:
  "(\<And>i j l. i < length ts \<Longrightarrow> j < length ts \<Longrightarrow> i \<noteq> j \<Longrightarrow> held (ts ! i) l = Some Exclusive \<Longrightarrow> held (ts ! j) l = None)
    \<Longrightarrow> exclusion ts"
  by (auto simp: exclusion_def)

lemma held_perform:
  assumes "enabled ts i" "held (perform (ts ! i)) l = Some m"
  shows "held (ts ! i) l = Some m \<or> (\<forall>j<length ts. compatible m (held (ts ! j) l))"
  using assms by (cases "ts ! i" rule: perform.cases) (auto simp: enabled_def can_acquire_def split: if_splits)

lemma exclusion_step: "exclusion ts \<Longrightarrow> lock_step ts ts' \<Longrightarrow> exclusion ts'"
proof (elim lock_stepE, rule exclusionI)
  fix i j k l
  assume x: "exclusion ts" and e: "enabled ts k" and ts': "ts' = ts[k := perform (ts ! k)]"
    and ij: "i < length ts'" "j < length ts'" "i \<noteq> j" and h: "held (ts' ! i) l = Some Exclusive"
  note old = x[unfolded exclusion_def, rule_format]
  show "held (ts' ! j) l = None"
  proof (cases "i = k")
    case True
    then have "held (ts ! i) l = Some Exclusive \<or> compatible Exclusive (held (ts ! j) l)"
      using held_perform[OF e, of l Exclusive] h ij ts' by auto
    then have "held (ts ! j) l = None"
      using old[of i j l] ij ts' by (auto simp: compatible_def split: option.splits lock_mode.splits)
    then show ?thesis using True ij ts' by simp
  next
    case False
    then have hi: "held (ts ! i) l = Some Exclusive" using h ij ts' by simp
    then have hj: "held (ts ! j) l = None" using old[of i j l] ij ts' by simp
    have "\<not> compatible m (held (ts ! i) l)" for m using hi by (simp add: compatible_def)
    then have "held (perform (ts ! k)) l \<noteq> Some m" if "j = k" for m
      using held_perform[OF e, of l m] hj that ij ts' by auto
    then show ?thesis using hj ij ts' by (cases "j = k") (auto simp: option.expand)
  qed
qed

definition total_todo :: "('l, 'v) threads \<Rightarrow> nat" where
  "total_todo ts = sum_list (map (\<lambda>t. length (todo t)) ts)"

lemma total_todo_update:
  "i < length ts \<Longrightarrow> length (todo t) < length (todo (ts ! i)) \<Longrightarrow> total_todo (ts[i := t]) < total_todo ts"
  unfolding total_todo_def by (induction ts arbitrary: i) (auto simp: nth_Cons' list_update.simps split: nat.splits)

text \<open>Every step does one of the finitely many events, so all runs end.\<close>

lemma lock_step_decreases: "lock_step ts ts' \<Longrightarrow> total_todo ts' < total_todo ts"
  by (elim lock_stepE) (auto simp: enabled_def intro!: total_todo_update perform_shorter split: list.splits)

text \<open>A run with the events that happened, each with the thread that did it.\<close>

inductive lock_run :: "('l, 'v) threads \<Rightarrow> (nat \<times> ('l, 'v) event) list \<Rightarrow> ('l, 'v) threads \<Rightarrow> bool" where
  run_nil: "lock_run ts [] ts"
| run_event: "enabled ts i \<Longrightarrow> todo (ts ! i) = e # es \<Longrightarrow> lock_run (ts[i := perform (ts ! i)]) tr ts' \<Longrightarrow>
    lock_run ts ((i, e) # tr) ts'"

inductive_cases lock_run_ConsE: "lock_run ts (x # tr) ts'"

lemma lock_run_steps: "lock_run ts tr ts' \<Longrightarrow> lock_step\<^sup>*\<^sup>* ts ts'"
  by (induction rule: lock_run.induct) (auto intro: converse_rtranclp_into_rtranclp lock_step.move)

lemma lock_run_append: "lock_run ts (xs @ ys) ts' \<Longrightarrow> \<exists>t. lock_run ts xs t \<and> lock_run t ys ts'"
proof (induction xs arbitrary: ts)
  case (Cons x xs)
  then show ?case by (fastforce elim: lock_run_ConsE intro: lock_run.run_event)
qed (auto intro: lock_run.run_nil)

lemma lock_run_length: "lock_run ts tr ts' \<Longrightarrow> length ts' = length ts"
  by (induction rule: lock_run.induct) auto

text \<open>One event: only its own thread's locks change, by acquiring or releasing.\<close>

lemma held_event:
  assumes "enabled ts i" "todo (ts ! i) = e # es"
  shows "held (ts[i := perform (ts ! i)] ! j) l =
    (if j = i then (case e of Acquire l' m \<Rightarrow> if l' = l then Some m else held (ts ! i) l
       | Release l' \<Rightarrow> if l' = l then None else held (ts ! i) l | _ \<Rightarrow> held (ts ! i) l) else held (ts ! j) l)"
  using assms by (cases "ts ! i" rule: perform.cases) (auto simp: enabled_def)

text \<open>A lock that a thread did not hold in a mode and holds in it later was acquired in that mode in between.\<close>

lemma acquired_between:
  assumes "lock_run ts tr ts'" "held (ts ! j) l \<noteq> Some m" "held (ts' ! j) l = Some m"
  shows "\<exists>xs ys t. tr = xs @ (j, Acquire l m) # ys \<and> lock_run ts xs t \<and> can_acquire t l m"
  using assms
proof (induction rule: lock_run.induct)
  case (run_event ts i e es tr ts')
  show ?case
  proof (cases "held (ts[i := perform (ts ! i)] ! j) l = Some m")
    case True
    then have "j = i" "e = Acquire l m"
      using run_event.prems(1) held_event[OF run_event.hyps(1,2), of j l] by (auto split: if_splits event.splits)
    then show ?thesis
      using run_event.hyps(1,2) by (intro exI[of _ "[]"] exI[of _ tr] exI[of _ ts]) (auto simp: enabled_def intro: lock_run.run_nil)
  next
    case False
    from run_event.IH[OF False run_event.prems(2)] obtain xs ys t where
      "tr = xs @ (j, Acquire l m) # ys" "lock_run (ts[i := perform (ts ! i)]) xs t" "can_acquire t l m" by blast
    then show ?thesis
      using lock_run.run_event[OF run_event.hyps(1,2)] by (intro exI[of _ "(i, e) # xs"] exI[of _ ys] exI[of _ t]) simp
  qed
qed simp

text \<open>A thread keeps a lock, and an exclusive one in its mode, until it releases it.\<close>

lemma kept_until_released:
  assumes "lock_run ts tr ts'" "held (ts ! i) l = Some m" "(i, Release l) \<notin> set tr" "i < length ts"
  shows "\<exists>m'. held (ts' ! i) l = Some m' \<and> (m = Exclusive \<longrightarrow> m' = Exclusive)"
  using assms
proof (induction arbitrary: m rule: lock_run.induct)
  case (run_event ts k e es tr ts')
  have "\<exists>m'. held (ts[k := perform (ts ! k)] ! i) l = Some m' \<and> (m = Exclusive \<longrightarrow> m' = Exclusive)"
  proof (cases "k = i")
    case True
    have "m \<noteq> Exclusive" if "e = Acquire l m'" for m'
      using run_event.hyps(1,2) run_event.prems(1,3) that True
      by (auto simp: enabled_def can_acquire_def compatible_def dest!: bspec[of _ _ "ts ! i"])
    then show ?thesis
      using True run_event.prems(1,2) held_event[OF run_event.hyps(1,2), of i l] by (cases e) auto
  next
    case False
    then show ?thesis using run_event.prems(1) held_event[OF run_event.hyps(1,2), of i l] by simp
  qed
  then show ?case using run_event.IH run_event.prems(2,3) by fastforce
qed auto

locale lock_discipline =
  fixes guard :: "'v \<Rightarrow> 'l option"
    and rank :: "'l \<Rightarrow> nat"
    and events :: "'c \<Rightarrow> ('l, 'v) event list"
  assumes disciplined_call: "disciplined guard rank Map.empty (events c)"
begin

lemma start_disciplined: "t \<in> set (start_threads events calls) \<Longrightarrow> well_behaved guard rank t"
  by (auto simp: start_threads_def intro!: disciplined_concat disciplined_call)

lemma reaches_invariant:
  assumes "reaches events calls ts"
  shows "(\<forall>t\<in>set ts. well_behaved guard rank t) \<and> exclusion ts"
  using assms unfolding reaches_def
proof (induction rule: rtranclp_induct)
  case base
  show ?case using start_disciplined by (auto simp: exclusion_def start_threads_def)
next
  case (step ts ts')
  from step(2) obtain i where "enabled ts i" "ts' = ts[i := perform (ts ! i)]" by (elim lock_stepE)
  then have "\<forall>t\<in>set ts'. well_behaved guard rank t"
    using step(3) set_update_subset_insert[of ts i "perform (ts ! i)"] perform_disciplined
    by (auto simp: enabled_def dest!: subsetD)
  then show ?case using exclusion_step step(2,3) by blast
qed

lemma access_holds:
  assumes "reaches events calls ts" "i < length ts" "todo (ts ! i) = Access v a # es" "guard v = Some l"
  shows "holds_for a (held (ts ! i) l)"
  using reaches_invariant[OF assms(1)] assms(2-) by (auto dest!: bspec[of _ _ "ts ! i"])

text \<open>A variable with a guard is not accessed while another thread holds the guard exclusively.\<close>

lemma section_isolated:
  assumes "reaches events calls ts" "i < length ts" "j < length ts" "i \<noteq> j"
    and "guard v = Some l" "held (ts ! i) l = Some Exclusive"
  shows "todo (ts ! j) \<noteq> Access v a # es"
proof
  assume "todo (ts ! j) = Access v a # es"
  then have "holds_for a (held (ts ! j) l)" using access_holds assms by blast
  moreover have "held (ts ! j) l = None"
    using reaches_invariant[OF assms(1)] assms(2-4,6) unfolding exclusion_def by blast
  ultimately show False by (simp add: holds_for_def)
qed

lemma writes_exclusive: "holds_for Writes h \<longleftrightarrow> h = Some Exclusive"
  by (auto simp: holds_for_def split: option.splits lock_mode.splits)

lemma no_race:
  assumes "reaches events calls ts" "guard v = Some l"
  shows "\<not> race ts i j v"
proof
  assume "race ts i j v"
  then obtain a b es fs where r: "i < length ts" "j < length ts" "i \<noteq> j" "todo (ts ! i) = Access v a # es"
    "todo (ts ! j) = Access v b # fs" "a = Writes \<or> b = Writes" by (auto simp: race_def)
  have "holds_for a (held (ts ! i) l)" "holds_for b (held (ts ! j) l)"
    using access_holds[OF assms(1)] r assms(2) by blast+
  then have "held (ts ! i) l = Some Exclusive \<or> held (ts ! j) l = Some Exclusive"
    using r(6) writes_exclusive by blast
  then show False using section_isolated[OF assms(1)] r assms(2) by metis
qed

text \<open>Of the threads that wait, one that waits for a lock of the highest rank waits for a thread that does not
  wait.\<close>

lemma progress:
  assumes "reaches events calls ts" "\<not> finished ts"
  shows "\<exists>ts'. lock_step ts ts'"
proof (rule ccontr)
  assume no: "\<nexists>ts'. lock_step ts ts'"
  have d: "\<forall>t\<in>set ts. well_behaved guard rank t" using reaches_invariant[OF assms(1)] by simp
  let ?waits = "\<lambda>i l. i < length ts \<and> (\<exists>m es. todo (ts ! i) = Acquire l m # es)"
  have waits: "\<exists>l m es. todo (ts ! i) = Acquire l m # es \<and> \<not> can_acquire ts l m"
    if "i < length ts" "todo (ts ! i) \<noteq> []" for i
  proof -
    have "\<not> enabled ts i" using no lock_step.move by blast
    then show ?thesis using that by (auto simp: enabled_def split: list.splits event.splits)
  qed
  have holder: "\<exists>j l'. ?waits j l' \<and> rank l < rank l'" if w: "?waits i l" for i l
  proof -
    obtain m es where "\<not> can_acquire ts l m" using waits[of i] w by fastforce
    then obtain j where j: "j < length ts" "l \<in> dom (held (ts ! j))"
      by (auto simp: can_acquire_def compatible_def in_set_conv_nth domIff split: option.splits)
    then have wb: "well_behaved guard rank (ts ! j)" using d by simp
    then have "todo (ts ! j) \<noteq> []" using j(2) by auto
    then obtain l' m' es' where "todo (ts ! j) = Acquire l' m' # es'" using waits[OF j(1)] by blast
    then show ?thesis using wb j by auto
  qed
  obtain i l0 where "?waits i l0"
    using assms(2) waits by (fastforce simp: finished_def in_set_conv_nth)
  let ?R = "{rank l |l. \<exists>i. ?waits i l}"
  have "?R \<subseteq> (\<lambda>i. rank (case todo (ts ! i) of Acquire l m # es \<Rightarrow> l | _ \<Rightarrow> l0)) ` {..<length ts}" by force
  then have fin: "finite ?R" by (rule finite_subset) simp
  have "Max ?R \<in> ?R" using fin \<open>?waits i l0\<close> by (intro Max_in) blast+
  then obtain j l where l: "?waits j l" "rank l = Max ?R" by (smt (verit) mem_Collect_eq)
  obtain k l' where "?waits k l'" "rank l < rank l'" using holder[OF l(1)] by blast
  moreover have "rank l' \<le> Max ?R" using fin \<open>?waits k l'\<close> by (intro Max_ge) blast+
  ultimately show False using l(2) by simp
qed

text \<open>So from every state that is reached, whatever was scheduled so far, all threads can finish.\<close>

lemma completes:
  assumes "reaches events calls ts"
  shows "\<exists>ts'. lock_step\<^sup>*\<^sup>* ts ts' \<and> finished ts'"
  using assms
proof (induction "total_todo ts" arbitrary: ts rule: less_induct)
  case less
  show ?case
  proof (cases "finished ts")
    case False
    then obtain ts1 where s: "lock_step ts ts1" using progress less.prems by blast
    then have "reaches events calls ts1" using less.prems by (simp add: reaches_def)
    then obtain ts' where "lock_step\<^sup>*\<^sup>* ts1 ts'" "finished ts'"
      using less.hyps[OF lock_step_decreases[OF s]] by blast
    then show ?thesis using s by (meson converse_rtranclp_into_rtranclp)
  qed blast
qed

text \<open>Conflicting accesses to a guarded variable are ordered by its lock: between them the first thread releases the
  guard and the second acquires it, which for a C++ mutex means that the first access happens before the second.\<close>

lemma conflicts_ordered:
  assumes "lock_run (start_threads events calls) (pre @ (i, Access v a) # mid @ (j, Access v b) # post) ts"
    and "i \<noteq> j" "guard v = Some l" "a = Writes \<or> b = Writes"
  shows "\<exists>m xs ys zs. mid = xs @ (i, Release l) # ys @ (j, Acquire l m) # zs"
proof -
  obtain t1 where t1: "lock_run (start_threads events calls) pre t1"
    "lock_run t1 ((i, Access v a) # mid @ (j, Access v b) # post) ts"
    using lock_run_append[OF assms(1)] by blast
  from t1(2) obtain es where e1: "enabled t1 i" "todo (t1 ! i) = Access v a # es"
    "lock_run (t1[i := perform (t1 ! i)]) (mid @ (j, Access v b) # post) ts"
    by (elim lock_run_ConsE) auto
  let ?t = "t1[i := perform (t1 ! i)]"
  obtain t2 where t2: "lock_run ?t mid t2" "lock_run t2 ((j, Access v b) # post) ts"
    using lock_run_append[OF e1(3)] by blast
  from t2(2) obtain fs where e2: "enabled t2 j" "todo (t2 ! j) = Access v b # fs"
    by (elim lock_run_ConsE) auto
  have r1: "reaches events calls t1" using lock_run_steps[OF t1(1)] by (simp add: reaches_def)
  moreover have "lock_step t1 ?t" using e1(1) by (rule lock_step.move)
  ultimately have r: "reaches events calls ?t" by (simp add: reaches_def)
  have r2: "reaches events calls t2" using r lock_run_steps[OF t2(1)] by (auto simp: reaches_def)
  have len: "i < length t1" "j < length t1" "length t2 = length t1"
    using e1(1) e2(1) lock_run_length[OF t2(1)] by (auto simp: enabled_def)
  obtain m1 where m1: "held (?t ! i) l = Some m1" "holds_for a (Some m1)"
    using access_holds[OF r1 len(1) e1(2) assms(3)] held_event[OF e1(1,2), of i l]
    by (cases "held (t1 ! i) l") (auto simp: holds_for_def)
  obtain m2 where m2: "held (t2 ! j) l = Some m2" "holds_for b (Some m2)"
    using access_holds[OF r2 _ e2(2) assms(3)] len by (cases "held (t2 ! j) l") (auto simp: holds_for_def)
  have ex: "m1 = Exclusive \<or> m2 = Exclusive" using assms(4) m1(2) m2(2) by (auto simp: holds_for_def split: lock_mode.splits)
  have "held (?t ! j) l \<noteq> Some m2"
    using reaches_invariant[OF r] ex m1(1) len assms(2) unfolding exclusion_def by (metis length_list_update option.distinct(1))
  from acquired_between[OF t2(1) this m2(1)] obtain xs zs t3 where
    x: "mid = xs @ (j, Acquire l m2) # zs" "lock_run ?t xs t3" "can_acquire t3 l m2" by blast
  have "(i, Release l) \<in> set xs"
  proof (rule ccontr)
    assume "(i, Release l) \<notin> set xs"
    then obtain m' where "held (t3 ! i) l = Some m'" "m1 = Exclusive \<longrightarrow> m' = Exclusive"
      using kept_until_released[OF x(2) m1(1)] len by auto
    moreover have "t3 ! i \<in> set t3" using lock_run_length[OF x(2)] len by simp
    ultimately have "compatible m2 (Some m')" using x(3) by (metis can_acquire_def)
    then show False using ex \<open>m1 = Exclusive \<longrightarrow> m' = Exclusive\<close> by (auto simp: compatible_def split: lock_mode.splits)
  qed
  then show ?thesis using x(1) by (metis append.assoc append_Cons split_list)
qed

end

text \<open>Events that no call has are never next, whatever the threads did so far.\<close>

lemma reaches_todo:
  assumes "reaches events calls ts" "i < length ts"
  shows "length ts = length calls \<and> set (todo (ts ! i)) \<subseteq> (\<Union>c\<in>set (calls ! i). set (events c))"
  using assms unfolding reaches_def
proof (induction arbitrary: i rule: rtranclp_induct)
  case base
  then show ?case by (auto simp: start_threads_def)
next
  case (step ts ts')
  from step(2) obtain j where j: "enabled ts j" "ts' = ts[j := perform (ts ! j)]" by (elim lock_stepE)
  then have "set (todo (ts' ! i)) \<subseteq> set (todo (ts ! i))"
    using step(4) set_drop_subset[of 1 "todo (ts ! j)"] by (cases "i = j") (auto simp: perform_todo drop_Suc)
  then show ?case using step(3)[of i] step(4) j by auto
qed

text \<open>A schedule names the thread that moves next; one that cannot move is skipped.\<close>

fun run_schedule :: "('l, 'v) threads \<Rightarrow> nat list \<Rightarrow> ('l, 'v) threads" where
  "run_schedule ts [] = ts"
| "run_schedule ts (i # is) = run_schedule (if enabled ts i then ts[i := perform (ts ! i)] else ts) is"

lemma run_schedule_steps: "lock_step\<^sup>*\<^sup>* ts (run_schedule ts is)"
  by (induction ts "is" rule: run_schedule.induct) (auto intro: converse_rtranclp_into_rtranclp lock_step.move)

text \<open>The events of a schedule.\<close>

fun schedule_trace :: "('l, 'v) threads \<Rightarrow> nat list \<Rightarrow> (nat \<times> ('l, 'v) event) list" where
  "schedule_trace ts [] = []"
| "schedule_trace ts (i # is) =
     (if enabled ts i then (i, hd (todo (ts ! i))) # schedule_trace (ts[i := perform (ts ! i)]) is
      else schedule_trace ts is)"

lemma schedule_run: "lock_run ts (schedule_trace ts is) (run_schedule ts is)"
proof (induction ts "is" rule: schedule_trace.induct)
  case (2 ts i "is")
  show ?case
  proof (cases "enabled ts i")
    case True
    then have "todo (ts ! i) = hd (todo (ts ! i)) # tl (todo (ts ! i))"
      by (auto simp: enabled_def split: list.splits)
    from lock_run.run_event[OF True this] show ?thesis using 2 True by simp
  qed (use 2 in simp)
qed (simp add: lock_run.run_nil)

lemma run_schedule_reaches: "reaches events calls (run_schedule (start_threads events calls) is)"
  by (simp add: reaches_def run_schedule_steps)

lemmas schedule_simps = start_threads_def enabled_def can_acquire_def compatible_def

end
