(* ===== verification/Registry_Locks.thy ===== *)
theory Registry_Locks
  imports Lock_Sets Task_Queues
begin

text \<open>
  The locks of \<open>message_loop_task_queues.cpp\<close>: for every operation of the registry the locks it takes and the variables
  it touches, in order. \<open>Task_Queues\<close> makes each operation one step on the registry; here the operations are
  interleaved event by event, and the lemmas say how far that is justified: what an operation does to its queue is
  not disturbed by other threads, but the map of the queues itself, \<open>queue_entries_\<close>, is not protected by one lock.

  A queue is named by the key of its id. The node of the map that holds the pointer to an entry belongs to the
  variable of the map; the entry behind it is a variable of its own. \<open>order_\<close> is atomic, and \<open>WakeUp\<close> of a loop makes
  a system call only. \<open>std::map::operator[]\<close> is not a \<open>const\<close> operation: \<open>sub\<close> is the access it makes to the map when the
  key exists, \<open>Writes\<close> by the rules of the standard for data races, \<open>Reads\<close> in the usual implementations.
\<close>

datatype registry_lock = creation_mutex | queue_meta_mutex | queue_mutex "32 word"

datatype registry_var =
    instance_var | task_queue_id_counter_var | queue_locks_var | queue_entries_var | entry_var "32 word"

type_synonym registry_event = "(registry_lock, registry_var) event"

section \<open>The operations\<close>

definition GetMutex_events :: "registry_event list" where
  "GetMutex_events = [Acquire queue_meta_mutex Shared, Access queue_locks_var Reads, Release queue_meta_mutex]"

text \<open>\<open>ScopedMutex queue_lock(GetMutex(queue_id))\<close> around the rest of an operation: the meta mutex is released
  when \<open>GetMutex\<close> returns.\<close>

definition under_queue :: "32 word \<Rightarrow> registry_event list \<Rightarrow> registry_event list" where
  "under_queue k body = GetMutex_events @ Acquire (queue_mutex k) Exclusive # body @ [Release (queue_mutex k)]"

definition read_entry :: "32 word \<Rightarrow> registry_event list" where
  "read_entry k = [Access queue_entries_var Reads, Access (entry_var k) Reads]"

definition GetInstance_events :: "bool \<Rightarrow> registry_event list" where
  "GetInstance_events first =
     [Acquire creation_mutex Exclusive, Access instance_var Reads] @ (if first then [Access instance_var Writes] else [])
     @ [Access instance_var Reads, Release creation_mutex]"

text \<open>The assignment to a key that is already there, after \<open>2\<^sup>3\<^sup>2\<close> queues, would also destroy the entry it replaces; that
  access is left out.\<close>

definition CreateTaskQueue_events :: "registry_event list" where
  "CreateTaskQueue_events =
     [Acquire queue_meta_mutex Exclusive, Access task_queue_id_counter_var Reads, Access task_queue_id_counter_var Writes,
      Access queue_locks_var Writes, Access queue_entries_var Writes, Release queue_meta_mutex]"

definition Dispose_events :: "32 word \<Rightarrow> registry_event list" where
  "Dispose_events k = under_queue k [Access queue_entries_var Writes, Access (entry_var k) Writes]"

definition DisposeTasks_events :: "32 word \<Rightarrow> registry_event list" where
  "DisposeTasks_events k = under_queue k [Access queue_entries_var Reads, Access (entry_var k) Writes]"

text \<open>\<open>w\<close> says whether the queue has a wakeable.\<close>

definition WakeUpUnlocked_events :: "bool \<Rightarrow> 32 word \<Rightarrow> registry_event list" where
  "WakeUpUnlocked_events w k = read_entry k @ (if w then read_entry k else [])"

definition HasPendingTasksUnlocked_events :: "32 word \<Rightarrow> registry_event list" where
  "HasPendingTasksUnlocked_events k = read_entry k"

definition PeekNextTaskUnlocked_events :: "32 word \<Rightarrow> registry_event list" where
  "PeekNextTaskUnlocked_events k = read_entry k @ read_entry k"

definition GetNextWakeTimeUnlocked_events :: "32 word \<Rightarrow> registry_event list" where
  "GetNextWakeTimeUnlocked_events k = PeekNextTaskUnlocked_events k @ [Access (entry_var k) Reads]"

definition RegisterTask_events :: "access_mode \<Rightarrow> bool \<Rightarrow> 32 word \<Rightarrow> registry_event list" where
  "RegisterTask_events sub w k = under_queue k
     ([Access queue_entries_var sub, Access (entry_var k) Writes, Access (entry_var k) Reads, Access (entry_var k) Reads]
      @ WakeUpUnlocked_events w k)"

definition HasPendingTask_events :: "32 word \<Rightarrow> registry_event list" where
  "HasPendingTask_events k = under_queue k (HasPendingTasksUnlocked_events k)"

text \<open>The flush loop: the part of a turn up to the pop, and how it ends; the list says for each turn that continues whether
  tasks are left after its pop.\<close>

datatype flush_end = QueueEmpty | NotDue | SingleTaken

definition take_task_events :: "access_mode \<Rightarrow> 32 word \<Rightarrow> registry_event list" where
  "take_task_events sub k = HasPendingTasksUnlocked_events k @ PeekNextTaskUnlocked_events k
     @ [Access (entry_var k) Reads, Access (entry_var k) Reads, Access queue_entries_var sub, Access (entry_var k) Writes]"

fun flush_events :: "access_mode \<Rightarrow> bool \<Rightarrow> 32 word \<Rightarrow> flush_end \<Rightarrow> bool list \<Rightarrow> registry_event list" where
  "flush_events sub w k QueueEmpty [] = HasPendingTasksUnlocked_events k"
| "flush_events sub w k NotDue [] =
     HasPendingTasksUnlocked_events k @ PeekNextTaskUnlocked_events k @ [Access (entry_var k) Reads]"
| "flush_events sub w k SingleTaken [] = take_task_events sub k"
| "flush_events sub w k fe (tasks_left # turns) =
     take_task_events sub k @ HasPendingTasksUnlocked_events k
     @ (if tasks_left then GetNextWakeTimeUnlocked_events k else []) @ WakeUpUnlocked_events w k
     @ flush_events sub w k fe turns"

definition GetTasksToRunNow_events ::
  "access_mode \<Rightarrow> bool \<Rightarrow> 32 word \<Rightarrow> (flush_end \<times> bool list) option \<Rightarrow> registry_event list" where
  "GetTasksToRunNow_events sub w k loop = under_queue k
     (HasPendingTasksUnlocked_events k
      @ (case loop of None \<Rightarrow> [] | Some (fe, turns) \<Rightarrow> flush_events sub w k fe turns))"

definition GetNumPendingTasks_events :: "32 word \<Rightarrow> registry_event list" where
  "GetNumPendingTasks_events k = under_queue k (read_entry k)"

definition TQ_AddTaskObserver_events :: "access_mode \<Rightarrow> 32 word \<Rightarrow> registry_event list" where
  "TQ_AddTaskObserver_events sub k = under_queue k [Access queue_entries_var sub, Access (entry_var k) Writes]"

definition TQ_RemoveTaskObserver_events :: "access_mode \<Rightarrow> 32 word \<Rightarrow> registry_event list" where
  "TQ_RemoveTaskObserver_events sub k = under_queue k [Access queue_entries_var sub, Access (entry_var k) Writes]"

definition GetObserversToNotify_events :: "32 word \<Rightarrow> registry_event list" where
  "GetObserversToNotify_events k = under_queue k (read_entry k)"

definition SetWakeable_events :: "access_mode \<Rightarrow> 32 word \<Rightarrow> registry_event list" where
  "SetWakeable_events sub k = under_queue k
     [Access queue_entries_var sub, Access (entry_var k) Reads, Access queue_entries_var Reads, Access (entry_var k) Writes]"

text \<open>A call of the registry. The last two are calls that end with an exception: of an operation on a queue whose mutex does
  not exist, and of one whose entry does not exist, which \<open>at\<close> reports; the scoped locks are released.\<close>

datatype registry_call =
    CallGetInstance bool
  | CallCreate
  | CallDispose "32 word"
  | CallDisposeTasks "32 word"
  | CallRegister bool "32 word"
  | CallHasPending "32 word"
  | CallGetTasks bool "32 word" "(flush_end \<times> bool list) option"
  | CallNumPending "32 word"
  | CallAddObserver "32 word"
  | CallRemoveObserver "32 word"
  | CallGetObservers "32 word"
  | CallSetWakeable "32 word"
  | CallNoMutex
  | CallNoEntry "32 word"

fun registry_events :: "access_mode \<Rightarrow> registry_call \<Rightarrow> registry_event list" where
  "registry_events sub (CallGetInstance first) = GetInstance_events first"
| "registry_events sub CallCreate = CreateTaskQueue_events"
| "registry_events sub (CallDispose k) = Dispose_events k"
| "registry_events sub (CallDisposeTasks k) = DisposeTasks_events k"
| "registry_events sub (CallRegister w k) = RegisterTask_events sub w k"
| "registry_events sub (CallHasPending k) = HasPendingTask_events k"
| "registry_events sub (CallGetTasks w k loop) = GetTasksToRunNow_events sub w k loop"
| "registry_events sub (CallNumPending k) = GetNumPendingTasks_events k"
| "registry_events sub (CallAddObserver k) = TQ_AddTaskObserver_events sub k"
| "registry_events sub (CallRemoveObserver k) = TQ_RemoveTaskObserver_events sub k"
| "registry_events sub (CallGetObservers k) = GetObserversToNotify_events k"
| "registry_events sub (CallSetWakeable k) = SetWakeable_events sub k"
| "registry_events sub CallNoMutex = GetMutex_events"
| "registry_events sub (CallNoEntry k) = under_queue k [Access queue_entries_var Reads]"

text \<open>The guard of every variable; \<open>queue_entries_\<close> has none.\<close>

fun registry_guard :: "registry_var \<Rightarrow> registry_lock option" where
  "registry_guard instance_var = Some creation_mutex"
| "registry_guard task_queue_id_counter_var = Some queue_meta_mutex"
| "registry_guard queue_locks_var = Some queue_meta_mutex"
| "registry_guard queue_entries_var = None"
| "registry_guard (entry_var k) = Some (queue_mutex k)"

section \<open>The discipline\<close>

lemmas part_events = read_entry_def WakeUpUnlocked_events_def HasPendingTasksUnlocked_events_def
  PeekNextTaskUnlocked_events_def GetNextWakeTimeUnlocked_events_def take_task_events_def

lemmas call_events = GetInstance_events_def CreateTaskQueue_events_def Dispose_events_def DisposeTasks_events_def
  RegisterTask_events_def HasPendingTask_events_def GetTasksToRunNow_events_def GetNumPendingTasks_events_def
  TQ_AddTaskObserver_events_def TQ_RemoveTaskObserver_events_def GetObserversToNotify_events_def SetWakeable_events_def

text \<open>What may stand between taking and releasing the mutex of a queue.\<close>

definition section_event :: "32 word \<Rightarrow> registry_event \<Rightarrow> bool" where
  "section_event k e \<longleftrightarrow> (\<exists>a. e = Access queue_entries_var a \<or> e = Access (entry_var k) a)"

lemma section_event_simps [simp]:
  "section_event k (Access v a) \<longleftrightarrow> v = queue_entries_var \<or> v = entry_var k"
  "\<not> section_event k (Acquire l m)" "\<not> section_event k (Release l)"
  by (auto simp: section_event_def)

lemma disciplined_section:
  assumes "\<forall>e\<in>set body. section_event k e" "h (queue_mutex k) = Some Exclusive"
  shows "disciplined registry_guard rank h (body @ es) \<longleftrightarrow> disciplined registry_guard rank h es"
  using assms by (induction body) (auto simp: section_event_def holds_for_def)

lemma disciplined_under_queue:
  assumes "\<forall>e\<in>set body. section_event k e"
  shows "disciplined registry_guard (\<lambda>_. 0) Map.empty (under_queue k body)"
  using disciplined_section[OF assms, of "[queue_mutex k \<mapsto> Exclusive]"]
  by (simp add: under_queue_def GetMutex_events_def holds_for_def)

lemma flush_section: "\<forall>e\<in>set (flush_events sub w k fe turns). section_event k e"
  by (induction sub w k fe turns rule: flush_events.induct) (auto simp: part_events)

text \<open>No operation holds two locks at once, so one rank for all of them is enough.\<close>

lemma registry_call_disciplined:
  "disciplined registry_guard (\<lambda>_. 0) Map.empty (registry_events sub c)"
  by (cases c) (auto simp: call_events GetMutex_events_def holds_for_def part_events flush_section
      intro!: disciplined_under_queue split: option.splits prod.splits)

interpretation registry: lock_discipline registry_guard "\<lambda>_. 0" "registry_events sub" for sub
  by standard (rule registry_call_disciplined)

text \<open>The calls that may change the map of the queues.\<close>

fun changes_map :: "access_mode \<Rightarrow> registry_call \<Rightarrow> bool" where
  "changes_map sub CallCreate = True"
| "changes_map sub (CallDispose k) = True"
| "changes_map sub (CallRegister w k) = (sub = Writes)"
| "changes_map sub (CallGetTasks w k loop) = (sub = Writes)"
| "changes_map sub (CallAddObserver k) = (sub = Writes)"
| "changes_map sub (CallRemoveObserver k) = (sub = Writes)"
| "changes_map sub (CallSetWakeable k) = (sub = Writes)"
| "changes_map sub c = False"

lemma flush_writes: "Access queue_entries_var Writes \<in> set (flush_events sub w k fe turns) \<Longrightarrow> sub = Writes"
  by (induction sub w k fe turns rule: flush_events.induct) (auto simp: part_events split: if_splits)

lemma changes_map_writes: "Access queue_entries_var Writes \<in> set (registry_events sub c) \<Longrightarrow> changes_map sub c"
  by (cases c) (auto simp: call_events under_queue_def GetMutex_events_def part_events
      split: if_splits option.splits prod.splits dest: flush_writes)

section \<open>Properties\<close>

text \<open>(C6) The locks of the registry protect what they are meant to: for any number of threads that call its operations in
  any order and any interleaving of their single accesses, two conflicting accesses are next to each other only
  on the map of the queues, and then one of the two threads makes a call that may change the map. The entry of a
  queue, the counter of ids, the map of the mutexes and the pointer to the instance are never raced for. While a
  thread is in the critical section of a queue no other thread accesses the entry, so operations on one queue
  take effect one after the other.\<close>

theorem registry_race_free:
  assumes "reaches (registry_events sub) calls ts"
  shows "(\<forall>i j v. race ts i j v \<longrightarrow> v = queue_entries_var
        \<and> (\<exists>c\<in>set (calls ! i) \<union> set (calls ! j). changes_map sub c))
    \<and> (\<forall>i j k a es. i < length ts \<and> j < length ts \<and> i \<noteq> j \<and> held (ts ! i) (queue_mutex k) = Some Exclusive
        \<longrightarrow> todo (ts ! j) \<noteq> Access (entry_var k) a # es)"
proof (intro conjI allI impI)
  fix i j v
  assume r: "race ts i j v"
  have "registry_guard v = None" using registry.no_race[OF assms] r by (cases "registry_guard v") auto
  then show v: "v = queue_entries_var" by (cases v) auto
  have "Access queue_entries_var Writes \<in> set (todo (ts ! i)) \<union> set (todo (ts ! j))" "i < length ts" "j < length ts"
    using r v by (auto simp: race_def)
  then show "\<exists>c\<in>set (calls ! i) \<union> set (calls ! j). changes_map sub c"
    using reaches_todo[OF assms] changes_map_writes by fastforce
next
  fix i j k a es
  assume "i < length ts \<and> j < length ts \<and> i \<noteq> j \<and> held (ts ! i) (queue_mutex k) = Some Exclusive"
  then show "todo (ts ! j) \<noteq> Access (entry_var k) a # es"
    using registry.section_isolated[OF assms, of i j "entry_var k" "queue_mutex k"] by auto
qed

text \<open>A thread that creates a queue and one that asks another queue for pending tasks: the second is inside its critical
  section, the first about to insert into the map that the second is about to search.\<close>

definition racing_calls :: "registry_call list list" where
  "racing_calls = [[CallCreate], [CallHasPending 0]]"

definition racing_state :: "(registry_lock, registry_var) threads" where
  "racing_state = run_schedule (start_threads (registry_events Reads) racing_calls) [1, 1, 1, 1, 0, 0, 0, 0]"

lemma racing_reached: "reaches (registry_events Reads) racing_calls racing_state"
  unfolding racing_state_def by (rule run_schedule_reaches)

theorem registry_race_free_witness:
  "race racing_state 0 1 queue_entries_var
    \<and> held (racing_state ! 1) (queue_mutex 0) = Some Exclusive
    \<and> \<not> race racing_state 0 1 (entry_var 0)
    \<and> todo (racing_state ! 0) \<noteq> [Access (entry_var 0) Writes]"
proof -
  have s: "race racing_state 0 1 queue_entries_var" "held (racing_state ! 1) (queue_mutex 0) = Some Exclusive"
    "length racing_state = 2"
    by (simp_all add: race_def racing_state_def racing_calls_def schedule_simps CreateTaskQueue_events_def
        HasPendingTask_events_def under_queue_def GetMutex_events_def part_events)
  have "\<not> race racing_state 0 1 (entry_var 0)"
    using registry_race_free[OF racing_reached] by blast
  moreover have "todo (racing_state ! 0) \<noteq> [Access (entry_var 0) Writes]"
    using conjunct2[OF registry_race_free[OF racing_reached], rule_format, of 1 0 0] s(2,3) by simp
  ultimately show ?thesis using s by blast
qed

text \<open>The race is real: the state above is reached, and a thread that is about to insert into the map and one that is about to
  search it are both free to go on. If the subscript operator counts as a write, as the standard says, two
  registrations on different queues are enough.\<close>

theorem registry_map_race:
  "(\<exists>ts. reaches (registry_events Reads) [[CallCreate], [CallHasPending 0]] ts \<and> race ts 0 1 queue_entries_var)
    \<and> (\<exists>ts. reaches (registry_events Writes) [[CallRegister True 0], [CallRegister True 1]] ts \<and> race ts 0 1 queue_entries_var)"
proof -
  let ?ts = "run_schedule (start_threads (registry_events Writes) [[CallRegister True 0], [CallRegister True 1]])
    [0, 0, 0, 0, 1, 1, 1, 1]"
  have "race ?ts 0 1 queue_entries_var"
    by (simp add: race_def schedule_simps RegisterTask_events_def under_queue_def GetMutex_events_def)
  moreover have "reaches (registry_events Writes) [[CallRegister True 0], [CallRegister True 1]] ?ts"
    by (rule run_schedule_reaches)
  moreover have "race racing_state 0 1 queue_entries_var"
    by (simp add: race_def racing_state_def racing_calls_def schedule_simps CreateTaskQueue_events_def
        HasPendingTask_events_def under_queue_def GetMutex_events_def part_events)
  ultimately show ?thesis using racing_reached[unfolded racing_calls_def] by blast
qed

text \<open>(C13) The registry does not deadlock: in every state that threads calling its operations reach, a thread that has work left can
  move or another one can, every step is progress, and all calls can be completed.\<close>

theorem registry_never_stuck:
  assumes "reaches (registry_events sub) calls ts"
  shows "(\<not> finished ts \<longrightarrow> (\<exists>ts'. lock_step ts ts')) \<and> (\<forall>ts'. lock_step ts ts' \<longrightarrow> total_todo ts' < total_todo ts)
    \<and> (\<exists>ts'. lock_step\<^sup>*\<^sup>* ts ts' \<and> finished ts')"
  using registry.progress[OF assms] registry.completes[OF assms] lock_step_decreases by blast

theorem registry_never_stuck_witness:
  "\<not> finished racing_state \<and> (\<exists>ts'. lock_step racing_state ts') \<and> (\<exists>ts'. lock_step\<^sup>*\<^sup>* racing_state ts' \<and> finished ts')"
proof -
  have "todo (racing_state ! 0) \<noteq> []" "length racing_state = 2"
    by (simp_all add: racing_state_def racing_calls_def schedule_simps CreateTaskQueue_events_def
        HasPendingTask_events_def under_queue_def GetMutex_events_def part_events)
  then have "\<not> finished racing_state" unfolding finished_def by (metis nth_mem zero_less_numeral)
  with registry_never_stuck[OF racing_reached] show ?thesis by blast
qed

text \<open>(C7) Whatever is guarded is ordered: in every run of threads that call the registry, between two conflicting accesses of
  different threads to the same variable, the map of the queues excepted, the first thread releases the mutex that
  guards the variable and after that the second acquires it. For the mutexes of C++ this means that the first access
  happens before the second.\<close>

theorem registry_accesses_ordered:
  assumes "lock_run (start_threads (registry_events sub) calls) (pre @ (i, Access v a) # mid @ (j, Access v b) # post) ts"
    and "i \<noteq> j" "a = Writes \<or> b = Writes" "v \<noteq> queue_entries_var"
  shows "\<exists>l m xs ys zs. registry_guard v = Some l \<and> mid = xs @ (i, Release l) # ys @ (j, Acquire l m) # zs"
proof -
  obtain l where "registry_guard v = Some l" using assms(4) by (cases v) auto
  then show ?thesis using registry.conflicts_ordered[OF assms(1,2) _ assms(3)] by blast
qed

text \<open>A thread registers a task while another waits to dispose of the tasks of the same queue.\<close>

definition ordered_threads :: "(registry_lock, registry_var) threads" where
  "ordered_threads = start_threads (registry_events Reads) [[CallRegister False 0], [CallDisposeTasks 0]]"

definition ordered_schedule :: "nat list" where
  "ordered_schedule = [1, 1, 1, 0, 0, 0, 0, 0, 0, 0, 0, 0, 0, 1, 0, 1, 1, 1, 1]"

lemma ordered_trace:
  "schedule_trace ordered_threads ordered_schedule =
     map (Pair 1) GetMutex_events @ map (Pair 0) GetMutex_events
     @ [(0, Acquire (queue_mutex 0) Exclusive), (0, Access queue_entries_var Reads)]
     @ (0, Access (entry_var 0) Writes)
     # [(0, Access (entry_var 0) Reads), (0, Access (entry_var 0) Reads), (0, Access queue_entries_var Reads),
        (0, Access (entry_var 0) Reads), (0, Release (queue_mutex 0)), (1, Acquire (queue_mutex 0) Exclusive),
        (1, Access queue_entries_var Reads)]
     @ (1, Access (entry_var 0) Writes) # [(1, Release (queue_mutex 0))]"
  by (simp add: ordered_threads_def ordered_schedule_def schedule_simps RegisterTask_events_def DisposeTasks_events_def
      under_queue_def GetMutex_events_def part_events)

theorem registry_accesses_ordered_witness:
  "\<exists>pre mid post xs ys zs m. schedule_trace ordered_threads ordered_schedule
      = pre @ (0, Access (entry_var 0) Writes) # mid @ (1, Access (entry_var 0) Writes) # post
    \<and> mid = xs @ (0, Release (queue_mutex 0)) # ys @ (1, Acquire (queue_mutex 0) m) # zs"
proof -
  obtain pre mid post where t: "schedule_trace ordered_threads ordered_schedule
      = pre @ (0, Access (entry_var 0) Writes) # mid @ (1, Access (entry_var 0) Writes) # post"
    using ordered_trace by (metis append.assoc)
  have "lock_run ordered_threads (schedule_trace ordered_threads ordered_schedule) (run_schedule ordered_threads ordered_schedule)"
    by (rule schedule_run)
  note run = this[unfolded t, unfolded ordered_threads_def]
  from registry_accesses_ordered[OF run] obtain l m xs ys zs where
    "registry_guard (entry_var 0) = Some l" "mid = xs @ (0, Release l) # ys @ (1, Acquire l m) # zs" by auto
  then show ?thesis using t by (intro exI conjI) auto
qed

end
