(* ===== verification/Client_Locks.thy ===== *)
theory Client_Locks
  imports Lock_Sets
begin

text \<open>
  The locks of \<open>net/curl_client.cpp\<close>: the locks taken and the accesses made to \<open>request_task_map_\<close> and to the counter
  of active clients, in order, for the operations that use them. The request thread uses the map without
  \<open>client_mutex_\<close>; \<open>ConfigCurlGlobalState\<close> takes a mutex that it has just created, named here by the number of the
  call. \<open>sub\<close> is the access that the subscript operator makes for a key that exists, as for the registry.
  \<open>std::function\<close> objects, curl and the message loop of the request thread are not variables here.
\<close>

datatype client_lock = client_mutex | config_mutex nat

datatype client_var = request_task_map_var | curl_clients_active_var

type_synonym client_event = "(client_lock, client_var) event"

text \<open>The counter is copied, incremented or, when it is not 0, decremented, and read in the comparisons that
  short-circuit evaluation reaches.\<close>

definition ConfigCurlGlobalState_events :: "nat \<Rightarrow> bool \<Rightarrow> bool \<Rightarrow> nat \<Rightarrow> client_event list" where
  "ConfigCurlGlobalState_events n added_client nonzero comparisons =
     [Acquire (config_mutex n) Exclusive, Access curl_clients_active_var Reads]
     @ (if added_client then [] else [Access curl_clients_active_var Reads])
     @ (if added_client \<or> nonzero then [Access curl_clients_active_var Reads, Access curl_clients_active_var Writes] else [])
     @ replicate comparisons (Access curl_clients_active_var Reads) @ [Release (config_mutex n)]"

definition TaskWithRequest_events :: "client_event list" where
  "TaskWithRequest_events = [Acquire client_mutex Exclusive, Access request_task_map_var Writes, Release client_mutex]"

text \<open>\<open>found\<close>: the hash is in the map.\<close>

definition StartRequest_events :: "access_mode \<Rightarrow> bool \<Rightarrow> client_event list" where
  "StartRequest_events sub found = Access request_task_map_var Reads # (if found then [Access request_task_map_var sub] else [])"

definition CancelRequest_events :: "access_mode \<Rightarrow> bool \<Rightarrow> client_event list" where
  "CancelRequest_events sub found = Access request_task_map_var Reads #
     (if found then [Access request_task_map_var sub, Access request_task_map_var Writes] else [])"

definition HandleMsg_events :: "access_mode \<Rightarrow> bool \<Rightarrow> client_event list" where
  "HandleMsg_events sub done =
     (if done then [Access request_task_map_var sub, Access request_task_map_var Writes] else [])"

text \<open>The destructor after the join, with \<open>k\<close> tasks left in the map.\<close>

definition destructor_events :: "nat \<Rightarrow> nat \<Rightarrow> bool \<Rightarrow> nat \<Rightarrow> client_event list" where
  "destructor_events k n nonzero comparisons = Acquire client_mutex Exclusive #
     replicate (Suc k) (Access request_task_map_var Reads) @ replicate k (Access request_task_map_var Writes)
     @ ConfigCurlGlobalState_events n False nonzero comparisons @ [Release client_mutex]"

datatype client_op =
    OpConstruct nat nat
  | OpTask
  | OpStart bool
  | OpCancel bool
  | OpMessage bool
  | OpDestroy nat nat bool nat

fun client_events :: "access_mode \<Rightarrow> client_op \<Rightarrow> client_event list" where
  "client_events sub (OpConstruct n m) = ConfigCurlGlobalState_events n True False m"
| "client_events sub OpTask = TaskWithRequest_events"
| "client_events sub (OpStart found) = StartRequest_events sub found"
| "client_events sub (OpCancel found) = CancelRequest_events sub found"
| "client_events sub (OpMessage done) = HandleMsg_events sub done"
| "client_events sub (OpDestroy k n nonzero m) = destructor_events k n nonzero m"

text \<open>The operations that other threads than the request thread run.\<close>

fun public_op :: "client_op \<Rightarrow> bool" where
  "public_op (OpStart found) = False"
| "public_op (OpCancel found) = False"
| "public_op (OpMessage done) = False"
| "public_op op = True"

section \<open>The discipline\<close>

fun client_rank :: "client_lock \<Rightarrow> nat" where
  "client_rank client_mutex = 0"
| "client_rank (config_mutex n) = 1"

fun map_guard :: "client_var \<Rightarrow> client_lock option" where
  "map_guard request_task_map_var = Some client_mutex"
| "map_guard curl_clients_active_var = None"

definition public_events :: "access_mode \<Rightarrow> client_op \<Rightarrow> client_event list" where
  "public_events sub op = (if public_op op then client_events sub op else [])"

lemmas client_event_defs = ConfigCurlGlobalState_events_def TaskWithRequest_events_def StartRequest_events_def
  CancelRequest_events_def HandleMsg_events_def destructor_events_def

lemma disciplined_replicate:
  "disciplined guard rank h (replicate k (Access v a) @ es) \<longleftrightarrow>
     (k = 0 \<or> (\<forall>l. guard v = Some l \<longrightarrow> holds_for a (h l))) \<and> disciplined guard rank h es"
  by (induction k) auto

lemma client_op_disciplined: "disciplined (\<lambda>_. None) client_rank Map.empty (client_events sub op)"
  by (cases op) (auto simp: client_event_defs disciplined_replicate)

lemma public_op_disciplined: "disciplined map_guard client_rank Map.empty (public_events sub op)"
  by (cases op) (auto simp: public_events_def client_event_defs disciplined_replicate holds_for_def)

interpretation client_threads: lock_discipline "\<lambda>_. None" client_rank "client_events sub" for sub
  by standard (rule client_op_disciplined)

interpretation public_threads: lock_discipline map_guard client_rank "public_events sub" for sub
  by standard (rule public_op_disciplined)

lemma reaches_public:
  assumes "\<forall>cs\<in>set calls. \<forall>op\<in>set cs. public_op op"
  shows "reaches (client_events sub) calls ts \<longleftrightarrow> reaches (public_events sub) calls ts"
proof -
  have "start_threads (client_events sub) calls = start_threads (public_events sub) calls"
    using assms by (auto simp: start_threads_def public_events_def intro!: arg_cong[where f = concat])
  then show ?thesis by (simp add: reaches_def)
qed

section \<open>Properties\<close>

text \<open>Submitting is safe among callers: threads that only create and destroy clients and make tasks never race for the map
  of the tasks. And whatever the threads call, the two mutexes, of which one is taken while the other is held,
  never block them for good.\<close>

theorem client_callers_race_free:
  assumes "reaches (client_events sub) calls ts"
  shows "((\<forall>cs\<in>set calls. \<forall>op\<in>set cs. public_op op) \<longrightarrow> \<not> race ts i j request_task_map_var)
    \<and> (\<exists>ts'. lock_step\<^sup>*\<^sup>* ts ts' \<and> finished ts')"
  using client_threads.completes[OF assms] public_threads.no_race[of sub calls ts request_task_map_var client_mutex]
    assms reaches_public by auto

theorem client_callers_race_free_witness:
  "\<not> race (run_schedule (start_threads (client_events Reads) [[OpTask], [OpTask]]) [0, 1, 0]) 0 1 request_task_map_var"
  by (rule mp[OF conjunct1[OF client_callers_race_free[of Reads "[[OpTask], [OpTask]]", OF run_schedule_reaches]]]) simp

text \<open>Two races. A thread that makes a task holds the client mutex and is about to insert it, while the request thread, which
  takes no lock, is about to erase a finished one. Two clients are constructed at once: each call holds its
  own mutex, and both are about to write the counter, so that curl may be initialised twice or never.\<close>

theorem client_races:
  "(\<exists>ts. reaches (client_events Reads) [[OpTask], [OpMessage True]] ts
      \<and> race ts 0 1 request_task_map_var \<and> held (ts ! 0) client_mutex = Some Exclusive)
    \<and> (\<exists>ts. reaches (client_events Reads) [[OpConstruct 0 2], [OpConstruct 1 2]] ts
      \<and> todo (ts ! 0) ! 0 = Access curl_clients_active_var Writes \<and> race ts 0 1 curl_clients_active_var)"
proof (intro conjI exI)
  show "reaches (client_events Reads) [[OpTask], [OpMessage True]]
      (run_schedule (start_threads (client_events Reads) [[OpTask], [OpMessage True]]) [0, 1])"
    by (rule run_schedule_reaches)
  show "reaches (client_events Reads) [[OpConstruct 0 2], [OpConstruct 1 2]]
      (run_schedule (start_threads (client_events Reads) [[OpConstruct 0 2], [OpConstruct 1 2]]) [0, 0, 0, 1, 1, 1])"
    by (rule run_schedule_reaches)
qed (simp_all add: race_def schedule_simps client_event_defs)

end
