(* ===== verification/Test_Scenarios.thy ===== *)
theory Test_Scenarios
  imports Time_Utils Task_Queue_Laws Message_Buffer
begin

text \<open>
  The deterministic tests of \<open>src/source/base/tests\<close> and \<open>src/unittest\<close> as lemmas: what they assert of the code holds
  of the model. The clock readings of a test are variables. Tests that sleep, start threads or use the network are
  not here.
\<close>

section \<open>time_test.cpp\<close>

lemma Time_IntConversions:
  "let d = FromNanoseconds 102304506708 in
     ToNanoseconds d = 102304506708 \<and> ToMicroseconds d = 102304506 \<and> ToMilliseconds d = 102304 \<and> ToSeconds d = 102"
  by (simp add: ToSeconds_def ToMilliseconds_def ToMicroseconds_def ToNanoseconds_def FromNanoseconds_def)

lemma Time_TimespecConversions:
  "\<exists>d. FromTimespec \<lparr>tv_sec = 5, tv_nsec = 7\<rparr> = Inr d \<and> ToSeconds d = 5 \<and> ToNanoseconds d = 5 * 1000000000 + 7
     \<and> ToTimespec d = \<lparr>tv_sec = 5, tv_nsec = 7\<rparr>"
  by (simp add: FromTimespec_def FromSeconds_def FromMilliseconds_def FromMicroseconds_def td_plus_def int64_def
      in_int64_def int64_bounds ToTimespec_def ToSeconds_def ToMilliseconds_def ToMicroseconds_def ToNanoseconds_def
      FromNanoseconds_def)

section \<open>time_tuils_test.cpp\<close>

lemma TimeTest_BoundaryComparison:
  "let earlier = - 50 :: TimeStamp; later = earlier + 100 in
     earlier \<noteq> later \<and> TimeIsLaterOrEqual earlier later \<and> TimeIsLater earlier later
     \<and> \<not> TimeIsLaterOrEqual later earlier \<and> \<not> TimeIsLater later earlier
     \<and> TimeMin earlier earlier = earlier \<and> TimeMin earlier later = earlier \<and> TimeMin later earlier = earlier
     \<and> TimeMax earlier earlier = earlier \<and> TimeMax earlier later = later \<and> TimeMax later earlier = later
     \<and> TimeDiff later earlier = 100 \<and> TimeDiff earlier later = - 100"
  by code_simp

section \<open>message_loop_task_queues_test.cpp\<close>

text \<open>A fresh queue of a fresh registry, whose wakeable is the object 7.\<close>

definition test_queues :: "(string, nat) MessageLoopTaskQueues" where
  "test_queues = fst (CreateTaskQueue new_MessageLoopTaskQueues)"

definition test_id :: TaskQueueId where
  "test_id = snd (CreateTaskQueue (new_MessageLoopTaskQueues :: (string, nat) MessageLoopTaskQueues))"

lemmas test_eval = test_queues_def test_id_def queue_eval

lemma StartWithNoPendingTask: "HasPendingTask test_queues test_id = Inr False"
  by (simp add: test_eval HasPendingTask_def HasPendingTasksUnlocked_def)

lemma test_RegisterTask:
  assumes "0 \<le> now" "now \<le> int64_max"
  shows "\<exists>tq tq'. SetWakeable test_queues test_id (Some 7) = Inr tq
    \<and> RegisterTask tq test_id (Some ''task'') TimePoint_Max (TimePoint now) = Inr (tq', [(7, TimePoint_Max)])
    \<and> HasPendingTask tq' test_id = Inr True \<and> GetNumPendingTasks tq' test_id = Inr 1"
  using assms
  by (simp add: test_eval SetWakeable_def RegisterTask_def HasPendingTask_def HasPendingTasksUnlocked_def
      GetNumPendingTasks_def WakeUpUnlocked_def tp_diff_def int64_def in_int64_def int64_bounds TimePoint_Max_def
      GetTargetTime_def ff_check_def Let_def)

lemma RegisterTwoTasksAndCount:
  assumes "0 \<le> now" "now \<le> later" "later < int64_max"
  shows "\<exists>tq wk tq' wk'. RegisterTask test_queues test_id (Some ''a'') (TimePoint now) (TimePoint later) = Inr (tq, wk)
    \<and> RegisterTask tq test_id (Some ''b'') TimePoint_Max (TimePoint later) = Inr (tq', wk')
    \<and> HasPendingTask tq' test_id = Inr True \<and> GetNumPendingTasks tq' test_id = Inr 2"
  using assms
  by (simp add: test_eval RegisterTask_def HasPendingTask_def HasPendingTasksUnlocked_def GetNumPendingTasks_def
      WakeUpUnlocked_def tp_diff_def int64_def in_int64_def int64_bounds TimePoint_Max_def GetTargetTime_def dt_gt_def
      Let_def)

lemma AddRemoveNotifyObserver:
  "\<exists>tq tq'. TQ_AddTaskObserver test_queues test_id 1 (Some ''observer'') = Inr tq
    \<and> GetObserversToNotify tq test_id = Inr [Some ''observer'']
    \<and> TQ_RemoveTaskObserver tq test_id 1 = Inr tq' \<and> GetObserversToNotify tq' test_id = Inr []"
  by (simp add: test_eval TQ_AddTaskObserver_def TQ_RemoveTaskObserver_def GetObserversToNotify_def ff_check_def omap_erase_def)

lemma WakeUpIndependentOfTime:
  assumes "0 \<le> now" "now \<le> later" "later < int64_max"
  shows "\<exists>tq tq1 wk tq2 wk'. SetWakeable test_queues test_id (Some 7) = Inr tq
    \<and> RegisterTask tq test_id (Some ''a'') (TimePoint now) (TimePoint later) = Inr (tq1, wk)
    \<and> RegisterTask tq1 test_id (Some ''b'') TimePoint_Max (TimePoint later) = Inr (tq2, wk')
    \<and> length (wk @ wk') = 2"
  using assms
  by (simp add: test_eval SetWakeable_def RegisterTask_def WakeUpUnlocked_def tp_diff_def int64_def in_int64_def
      int64_bounds TimePoint_Max_def GetTargetTime_def dt_gt_def ff_check_def Let_def)

section \<open>message_test.cpp\<close>

text \<open>An \<open>int\<close>, a \<open>float\<close>, a \<open>char\<close> and a structure of the three (with padding) as their bytes.\<close>

definition test_values :: "uint8 list list" where
  "test_values = [le_bytes 4 (12 :: 32 word), le_bytes 4 (0x41300000 :: 32 word), le_bytes 1 (0x61 :: 8 word),
     le_bytes 4 (10 :: 32 word) @ [0x79, 0, 0, 0] @ le_bytes 4 (0x4131999A :: 32 word)]"

lemma CanDecodeTriviallyCopyableTypes:
  "case Encode_all (\<lambda>_. True) new_Message test_values of
     Inr (ok, m) \<Rightarrow> ok \<and> GetSizeRead m = 0 \<and> GetDataLength m = 21
       \<and> (case Decode_all m [4, 4, 1, 12] of
            Inr (vs, m') \<Rightarrow> vs = Some (map (map Some) test_values) \<and> GetSizeRead m' \<noteq> 0 \<and> GetDataLength m' = GetSizeRead m'
          | Inl _ \<Rightarrow> False)
   | Inl _ \<Rightarrow> False"
  by code_simp

end
