(* ===== verification/Spec2Isabelle.thy ===== *)
theory Spec2Isabelle
  imports Time_Utils Task_Queue_Laws Message_Loop_Laws Message_Buffer Sha256_Laws Unique_Object
    Waitable_Event Shared_Mutex Logging Thread_Local Cf_Reference Thread Client_Sync Curl_Client_Laws
    Client_Loop Command_Line Darwin_Loop Client_Lifetime Loop_Lifetime Sync_Call Registry_Locks Client_Locks
    Test_Scenarios
begin

text \<open>
  A verification development for \<open>ffnetwork\<close>, a C++ HTTP client library with its own base library.

  \<^bold>\<open>The program.\<close> \<open>src/source/base\<close> is the base library: time types, logging, owners of system
  resources, synchronisation, threads, and the message loop (a process-wide registry of task queues, one
  loop per thread, task runners that post to a loop). \<open>src/source/utils\<close> has time-stamp arithmetic and
  SHA-256. \<open>src/source/net\<close> is the client: requests named by their hash, tasks that own a curl handle, and
  \<open>CurlClient\<close>, which runs a request thread with a message loop; \<open>Resume\<close> and \<open>Cancel\<close> of a task post to that
  loop, and the messages of curl's multi handle complete the tasks.

  \<^bold>\<open>Conventions.\<close> An operation that can reach undefined behaviour, an uncaught exception or a failed
  \<open>FF_CHECK\<close> returns a value of \<open>'a res\<close> (\<open>FF_Prelude\<close>), \<open>Inl fault\<close> in that case; \<open>FF_DCHECK\<close> is
  \<open>FF_CHECK\<close>, as in a build without \<open>DEBUG\<close>. \<open>int64_t\<close> is \<open>int\<close> with checked overflow, unsigned types are
  words of their width. State is passed explicitly. What the system or a library outside the repository
  returns (clock, heap, timer descriptor, \<open>epoll_wait\<close>, curl, pthread) is an argument of the definitions or a
  field of the state.

  \<^bold>\<open>Theories.\<close> Where a component is large, its definitions and the lemmas about them are two theories, the
  second with the suffix \<open>_Laws\<close>.
  \<^item> \<open>FF_Prelude\<close>: faults and results, checked arithmetic, ordered association lists (\<open>std::map\<close>) with their
    interface \<open>ordered_map\<close>, word lemmas.
  \<^item> \<open>Double_Arith\<close>: the C++ type \<open>double\<close> as rational numbers with rounding to 53 bits; error, order and sign of the
    rounding. \<open>Double_Print\<close>: how a stream prints a double, and what the printed text denotes.
  \<^item> \<open>Time_Types\<close>: \<open>time_delta.h\<close>, \<open>time_point.h\<close>; overflow, unit and \<open>timespec\<close> round trips. \<open>Time_Float\<close>: its
    conversions to and from \<open>double\<close>, and how much a round trip loses. \<open>Time_Utils\<close>:
    \<open>utils/time_utils\<close>; circular comparison of 32-bit time stamps is exact inside a half-range window.
  \<^item> \<open>Delayed_Tasks\<close>: \<open>delayed_task\<close> and the priority queue, as an instance of the interface \<open>min_queue\<close>.
    \<open>Task_Queues\<close>: every operation of \<open>message_loop_task_queues.cpp\<close>, the flush loop as a terminating
    function. \<open>Task_Queue_Laws\<close>: the registry invariant over its reachable states; delivery is a stable sort
    by target time, a flush takes exactly the due tasks, wake-ups are for the earliest task, use after
    \<open>Dispose\<close>, observers.
  \<^item> \<open>Lock_Sets\<close>: threads as sequences of lock operations and accesses to shared variables, and the interface
    \<open>lock_discipline\<close> of operations that use locks properly; its lemmas (guarded variables are free of races, conflicting
    accesses are ordered by the guard, critical sections are isolated, nothing deadlocks) hold for every interleaving. \<open>Registry_Locks\<close>: the locks and accesses of
    every operation of the task queue registry, an instance; the other theories take these operations as atomic, and
    this one shows that what an operation does to its queue is, and that the map of the queues is raced for.
    \<open>Client_Locks\<close>: the same for the client's map of tasks and for curl's global initialisation.
  \<^item> \<open>Timer_Fd\<close>: \<open>platform/linux/timerfd.cpp\<close>, as an instance of \<open>alarm_clock\<close>. \<open>Message_Loop\<close>:
    \<open>message_loop_impl\<close>, its Linux backend, \<open>message_loop\<close> and \<open>task_runner\<close>. \<open>Message_Loop_Laws\<close>: the
    invariant that ties queue and timer, preserved by every atomic step of any thread, so no task waits
    without a wake-up; order of tasks and observers; termination; what is discarded on exit; when the timed
    loop ends. \<open>Task_Runner_Laws\<close>: a task runner on an idle loop is a first-in first-out queue. \<open>Loop_Lifetime\<close>: who
    owns a loop; a task runner that is held never outlives its loop.
  \<^item> \<open>Darwin_Loop\<close>: the Darwin backend over the framework's timer and two clocks, with the operations of the base class
    that call it; the accuracy of its wake-ups, and what a firing before the due time does.
  \<^item> \<open>Message_Buffer\<close>: \<open>message.h\<close>, \<open>message.cpp\<close>; growth arithmetic, memory safety, round trips (with the
    interface \<open>trivially_copyable\<close>), capacity.
  \<^item> \<open>Fips_Sha256\<close>: a reference definition of SHA-256 in the words of FIPS 180-4, with its constants computed
    from the roots of the primes. \<open>Sha256\<close>: \<open>utils/sha256\<close>. \<open>Sha256_Laws\<close>: equality with the reference through
    the interface \<open>block_routine\<close>, independence of the chunking, the truncated length field.
  \<^item> \<open>Ownership\<close>: the interface \<open>resource_ledger\<close> of programs that take in, hold, release and free resources; its
    lemmas (nothing is freed twice or while it is held, nothing leaks) are used by four instances:
    \<open>Unique_Object\<close> (\<open>unique_object.h\<close>, \<open>unique_fd.h\<close>), \<open>Thread_Local\<close> (\<open>thread_local\<close>, one slot per thread),
    \<open>Cf_Reference\<close> (\<open>cf_reference_utils.h\<close>) and \<open>Client_Lifetime\<close> (the curl handles of tasks).
  \<^item> \<open>Waitable_Event\<close>: \<open>waitable_event.cpp\<close> as a state machine of threads. \<open>Shared_Mutex\<close>: \<open>mutex.cpp\<close> and the
    scoped locks. \<open>Logging\<close>: \<open>logging\<close>, with the calls of the sinks of each platform. \<open>Thread\<close>: \<open>thread.cpp\<close>, where
    \<open>Start\<close> is an interleaving of two threads over the waitable event, and \<open>Join\<close> works on the message loop.
  \<^item> \<open>Request_Impl\<close>: \<open>net/request_impl.cpp\<close>; what the request hash depends on. \<open>Response\<close>:
    \<open>net/response_impl.cpp\<close>, with metrics and their textual form. \<open>Request_Task\<close>: \<open>net/request_task_impl.cpp\<close>;
    configuration of the handle, header parsing, accuracy of the metrics. \<open>Client_Sync\<close>: \<open>PerformRequestSync\<close> of \<open>net/client.cpp\<close> as a state machine of the caller and the
    callback. \<open>Curl_Client\<close>: \<open>net/curl_client.cpp\<close>, with the loop of the request thread as a function of what each
    turn observes and a step for every header line that curl delivers. \<open>Curl_Client_Laws\<close>: callbacks at most once, completion of the right tasks by a message, a batch
    and a whole run, what two requests with one hash do, the loss of a retry that a callback submits, global initialisation, the timeouts of the waits.
  \<^item> \<open>Client_Lifetime\<close>: the same client with references that callers take and drop; destructors run when the last
    reference goes, and every handle is cleaned up once. \<open>Sync_Call\<close>: \<open>PerformRequestSync\<close> composed with the client and
    whatever other threads do to it, equal requests, header lines and destruction included; the caller gets the response
    to its own request with the headers delivered for it, and waits for ever when curl had no handle for it.
  \<^item> \<open>Client_Loop\<close> and this theory: the client's list of posted closures is an abstraction of the task queue of
    the request thread's message loop; a simulation over posting and timed runs.
  \<^item> \<open>Command_Line\<close>: \<open>command/main.cpp\<close> from its arguments, through \<open>getopt\<close> as POSIX describes it and a synchronous call, to
    what it prints of the response, for any iteration order of the hash map of its headers. \<open>Test_Scenarios\<close>: the deterministic unit tests of the repository, which hold of the model.

  \<^bold>\<open>Loops and bounds.\<close> No definition uses fuel: loops over data are structural, the flush loop of the task
  queues terminates because it pops, the loop over \<open>getopt\<close> because every answer consumes a character, \<open>epoll_wait\<close> and \<open>wait_for\<close> loops and the loop of the request thread recurse
  over the list of answers of the system and report that they are blocked, or still running, when it ends. Sizes
  in the message buffer are bounded by \<open>2\<^sup>3\<^sup>1\<close>, where \<open>NextOfTwoSize\<close> wraps; SHA-256 inputs by \<open>2\<^sup>2\<^sup>9\<close> bytes for the
  FIPS equality and \<open>2\<^sup>3\<^sup>1\<close> for the behaviour beyond; the registration order by \<open>2\<^sup>3\<^sup>2\<close> registrations and the queue
  keys by \<open>2\<^sup>3\<^sup>2\<close> queues.

  \<^bold>\<open>Steps.\<close> A done message is one step of the client from the callback to the removal of the task, except in
  \<open>retry_in_callback_lost\<close>, which takes the callback apart from the rest; the clock reading inside the log line of
  \<open>RegisterTask\<close> is not counted.

  \<^bold>\<open>Not modelled.\<close> Infinite and subnormal doubles, which the computed times do not reach; the formatting of
  \<open>vsnprintf\<close>; \<open>android_os_log\<close> beyond its choice of a priority, since the function does not compile; the curl options
  for Apple platforms; the wrappers of \<open>timerfd.cpp\<close> for systems without \<open>timerfd\<close>; what \<open>getopt\<close> writes about wrong options and
  its GNU extensions; curl, pthread, \<open>CFRunLoop\<close> and the system, whose answers are arguments; macros that only
  annotate (their meaning for locks is the interface \<open>lock_discipline\<close>); tests that sleep, start threads or use the
  network.
\<close>

section \<open>The client on its message loop\<close>

text \<open>(C3) The request thread's message loop implements the list of posted closures of the client. When the
  process represents a client, posting a closure succeeds and represents the client with the closure at
  the end of its list; and a run of 10 milliseconds, during which nothing else is posted, has no fault,
  when it returns represents the client after a turn in which every posted closure ran once and in order,
  with an empty list, and does return after ten wake-ups when each comes at least a millisecond after the
  start.\<close>

theorem loop_refines_client:
  assumes "client_sim m n l p c" "n < 2 ^ 32"
    and "\<forall>r\<in>set rs. others r = []" "FromMilliseconds 10 = Inr duration"
  shows "(\<exists>p'. TaskRunner_PostTask p l (Some k) = Inr p' \<and> client_sim m (Suc n) l p' (c\<lparr>posted := posted c @ [k]\<rparr>)
        \<and> clock p' = clock p \<and> clock_reads p' = clock_reads p + 2)
    \<and> (\<exists>fin p'. DoRunForTime request_thread_call p l duration rs = Inr (fin, p')
        \<and> (fin \<longrightarrow> client_sim m n l p' (RunForTime_turn c (length (posted c))))
        \<and> ((\<forall>i>clock_reads p. clock p (clock_reads p) + 1000000 \<le> clock p i) \<and> 10 \<le> length rs \<longrightarrow> fin))"
proof -
  have d: "td_wf duration" "ToMilliseconds duration = 10"
    using assms(4) by (auto simp: FromMilliseconds_eq To_eq td_wf_def int64_bounds)
  show ?thesis
    using post_sim[OF assms(1,2), of k] DoRunForTime_sim[OF assms(1,3) d(1)] d(2) by auto
qed

definition ms_clock :: "nat \<Rightarrow> int" where
  "ms_clock i = 1000000 * int (min i 3) + (if i > 3 then 1000000 else 0)"

theorem loop_refines_client_witness:
  "\<exists>p1 p2. TaskRunner_PostTask (fresh_loop ms_clock (demo_created new_CurlClient)) 0
        (Some (StartRequest_of demo_hash)) = Inr p1
    \<and> DoRunForTime request_thread_call p1 0 (TimeDelta 10000000) (replicate 10 interrupted) = Inr (True, p2)
    \<and> multi_handles (user p2) = {0}"
proof -
  let ?p = "fresh_loop ms_clock (demo_created new_CurlClient) :: (posted_closure, CurlClient) process" and ?c = "demo_created new_CurlClient"
  have d: "FromMilliseconds 10 = Inr (TimeDelta 10000000)" by (simp add: FromMilliseconds_eq int64_bounds)
  have idle: "idle_loop 1 0 0 ?p"
    by (rule fresh_loop_idle) (auto simp: mono_def ms_clock_def int64_bounds)
  have c: "posted ?c = []" by (simp add: demo_created_def new_CurlClient_def)
  have "client_sim 1 0 0 ?p ?c"
    by (rule idle_sim[OF idle]) (simp_all add: fresh_loop_facts demo_created_def new_CurlClient_def)
  from conjunct1[OF loop_refines_client[OF this _ _ d, of "[]" "StartRequest_of demo_hash"]] obtain p1 where
    p1: "TaskRunner_PostTask ?p 0 (Some (StartRequest_of demo_hash)) = Inr p1" "clock p1 = ms_clock"
    "client_sim 1 (Suc 0) 0 p1 (?c\<lparr>posted := [StartRequest_of demo_hash]\<rparr>)" "clock_reads p1 = clock_reads ?p + 2"
    unfolding c fresh_loop_facts append_Nil by auto
  have "clock_reads p1 = 2" using p1(4) by (simp add: fresh_loop_def new_process_def)
  with p1(2) have "\<forall>i>clock_reads p1. clock p1 (clock_reads p1) + 1000000 \<le> clock p1 i"
    by (auto simp: ms_clock_def)
  with loop_refines_client[OF p1(3) _ _ d, of "replicate 10 interrupted" "StartRequest_of demo_hash"]
  obtain p2 where p2: "DoRunForTime request_thread_call p1 0 (TimeDelta 10000000) (replicate 10 interrupted) = Inr (True, p2)"
    "client_sim 1 (Suc 0) 0 p2 (RunForTime_turn (?c\<lparr>posted := [StartRequest_of demo_hash]\<rparr>) 1)"
    by (auto simp: interrupted_def)
  then have "multi_handles (user p2) = {0}"
    by (simp add: client_sim_def RunForTime_turn_def StartRequest_def demo_created_def new_CurlClient_def demo_task_def)
  with p1(1) p2(1) show ?thesis by blast
qed

end
